(* ===== verification/Prelude.thy ===== *)
theory Prelude
  imports Main "HOL-Library.Word" "HOL-Library.Monad_Syntax"
begin

section \<open>Shared vocabulary of the development\<close>

text \<open>
  What every component uses: C arrays as lists with checked access, \<^verbatim>\<open>memmove\<close> inside one
  array, differences of unsigned counters, and the lemmas about them. A computation that may
  hit \<^verbatim>\<open>BUG_ON\<close>, read or write outside an array, or exhaust a recursion bound has a result
  of type \<open>'a option\<close>: \<open>None\<close> is the crash, and a theorem that concludes \<open>Some\<close> shows that
  it does not happen.
\<close>

unbundle bit_operations_syntax

type_synonym u8 = "8 word"
type_synonym u16 = "16 word"
type_synonym u32 = "32 word"
type_synonym u64 = "64 word"
type_synonym s64 = "64 word"

text \<open>The node number that stands for no node.\<close>

definition NUMA_NO_NODE :: int where "NUMA_NO_NODE = - 1"

named_theorems array_simps \<open>checked array access and memmove on lists\<close>

named_theorems word_order \<open>comparisons of words refuted by a hypothesis\<close>

lemma word_leD [word_order]: "(x :: 'a::len word) < y \<Longrightarrow> (y \<le> x) = False"
  by auto

lemma word_lessD [word_order]: "(x :: 'a::len word) \<le> y \<Longrightarrow> (y < x) = False"
  by auto

subsection \<open>Arrays\<close>

definition arr_get :: "'a list \<Rightarrow> nat \<Rightarrow> 'a option" where
  "arr_get xs i = (if i < length xs then Some (xs ! i) else None)"

definition arr_set :: "'a list \<Rightarrow> nat \<Rightarrow> 'a \<Rightarrow> 'a list option" where
  "arr_set xs i v = (if i < length xs then Some (xs[i := v]) else None)"

text \<open>\<open>memmove dst src n\<close> copies \<open>n\<close> elements within one array; the source and the target range
  may overlap.\<close>

definition memmove :: "nat \<Rightarrow> nat \<Rightarrow> nat \<Rightarrow> 'a list \<Rightarrow> 'a list option" where
  "memmove dst src n xs =
     (if src + n \<le> length xs \<and> dst + n \<le> length xs
      then Some (take dst xs @ take n (drop src xs) @ drop (dst + n) xs) else None)"

text \<open>The difference of two \<^verbatim>\<open>unsigned long\<close> counters used as an element count: where it wraps around,
  the access that uses the count leaves the array.\<close>

definition count_diff :: "nat \<Rightarrow> nat \<Rightarrow> nat option" where
  "count_diff a b = (if b \<le> a then Some (a - b) else None)"

definition bug_on :: "bool \<Rightarrow> unit option" where
  "bug_on c = (if c then None else Some ())"

lemma arr_get_in [array_simps]: "i < length xs \<Longrightarrow> arr_get xs i = Some (xs ! i)"
  by (simp add: arr_get_def)

lemma arr_set_in [array_simps]: "i < length xs \<Longrightarrow> arr_set xs i v = Some (xs[i := v])"
  by (simp add: arr_set_def)

lemma arr_get_append [array_simps]: "arr_get (xs @ y # ys) (length xs) = Some y"
  by (simp add: arr_get_def)

lemma bug_on_simps [simp]: "bug_on False = Some ()" "bug_on True = None"
  by (simp_all add: bug_on_def)

lemma count_diff_le [simp]: "b \<le> a \<Longrightarrow> count_diff a b = Some (a - b)"
  by (simp add: count_diff_def)

text \<open>Closing the gap left by element \<open>length as\<close>: the elements after it move down by one.\<close>

lemma memmove_remove [array_simps]:
  "memmove (length as) (Suc (length as)) (length bs) (as @ x # bs @ cs)
     = Some (as @ bs @ drop (length bs) (x # bs @ cs))"
  by (simp add: memmove_def)

text \<open>Opening a gap before position \<open>length as\<close>: the elements move up by one.\<close>

lemma memmove_insert [array_simps]:
  "memmove (Suc (length as)) (length as) (length bs) (as @ bs @ c # cs)
     = Some (as @ take 1 (bs @ [c]) @ bs @ cs)"
  by (cases bs) (simp_all add: memmove_def)

end
