(* ===== verification/Memblock_Table.thy ===== *)
theory Memblock_Table
  imports Prelude
begin

section \<open>Region tables of the boot memory allocator\<close>

text \<open>
  \<^verbatim>\<open>struct memblock_region\<close> and \<^verbatim>\<open>struct memblock_type\<close> of \<^verbatim>\<open>include/linux/memblock.h\<close> and
  the operations of \<^verbatim>\<open>mm/memblock.c\<close> that work on one table: removing, inserting and merging
  regions, the two-pass loop of \<^verbatim>\<open>memblock_add_range\<close>, the splitting loop of
  \<^verbatim>\<open>memblock_isolate_range\<close>, and the queries. The build configuration leaves
  \<^verbatim>\<open>CONFIG_PHYS_ADDR_T_64BIT\<close> undefined, so \<^verbatim>\<open>phys_addr_t\<close> is 32 bits wide, and defines
  \<^verbatim>\<open>CONFIG_HAVE_MEMBLOCK_NODE_MAP\<close>, so a region has a node id. The array is the whole array of
  \<^verbatim>\<open>max\<close> entries, of which the first \<^verbatim>\<open>cnt\<close> are in use (\<open>live\<close>).
\<close>

subsection \<open>Data\<close>

type_synonym phys_addr_t = u32

record memblock_region =
  rg_base :: phys_addr_t
  rg_size :: phys_addr_t
  rg_flags :: u32
  rg_nid :: int

text \<open>Where the region array lives: one of the two static arrays, or memory of memblock itself.\<close>

datatype array_loc = Init_regions | Alloc_at phys_addr_t

record memblock_type =
  t_cnt :: nat
  t_max :: nat
  t_total_size :: phys_addr_t
  t_regions :: "memblock_region list"
  t_array :: array_loc

definition MEMBLOCK_NONE :: u32 where "MEMBLOCK_NONE = 0"
definition MEMBLOCK_HOTPLUG :: u32 where "MEMBLOCK_HOTPLUG = 1"
definition MEMBLOCK_MIRROR :: u32 where "MEMBLOCK_MIRROR = 2"
definition MEMBLOCK_NOMAP :: u32 where "MEMBLOCK_NOMAP = 4"

definition PHYS_ADDR_MAX :: phys_addr_t where "PHYS_ADDR_MAX = NOT 0"
definition MAX_NUMNODES :: int where "MAX_NUMNODES = 4"

definition memblock_is_hotpluggable :: "memblock_region \<Rightarrow> bool" where
  "memblock_is_hotpluggable m \<longleftrightarrow> rg_flags m AND MEMBLOCK_HOTPLUG \<noteq> 0"

definition memblock_is_mirror :: "memblock_region \<Rightarrow> bool" where
  "memblock_is_mirror m \<longleftrightarrow> rg_flags m AND MEMBLOCK_MIRROR \<noteq> 0"

definition memblock_is_nomap :: "memblock_region \<Rightarrow> bool" where
  "memblock_is_nomap m \<longleftrightarrow> rg_flags m AND MEMBLOCK_NOMAP \<noteq> 0"

definition memblock_set_region_node :: "memblock_region \<Rightarrow> int \<Rightarrow> memblock_region" where
  "memblock_set_region_node r nid = r\<lparr>rg_nid := nid\<rparr>"

definition memblock_get_region_node :: "memblock_region \<Rightarrow> int" where
  "memblock_get_region_node r = rg_nid r"

text \<open>The entry of an empty table, and the zeroed entries of a fresh array.\<close>

definition empty_region :: memblock_region where
  "empty_region = \<lparr>rg_base = 0, rg_size = 0, rg_flags = 0, rg_nid = MAX_NUMNODES\<rparr>"

definition zero_region :: memblock_region where
  "zero_region = \<lparr>rg_base = 0, rg_size = 0, rg_flags = 0, rg_nid = 0\<rparr>"

subsection \<open>Operations on one table\<close>

definition memblock_cap_size :: "phys_addr_t \<Rightarrow> phys_addr_t \<Rightarrow> phys_addr_t" where
  "memblock_cap_size base sz = min sz (PHYS_ADDR_MAX - base)"

definition memblock_addrs_overlap ::
  "phys_addr_t \<Rightarrow> phys_addr_t \<Rightarrow> phys_addr_t \<Rightarrow> phys_addr_t \<Rightarrow> bool" where
  "memblock_addrs_overlap base1 size1 base2 size2 \<longleftrightarrow>
     base1 < base2 + size2 \<and> base2 < base1 + size1"

function overlaps_from :: "memblock_type \<Rightarrow> phys_addr_t \<Rightarrow> phys_addr_t \<Rightarrow> nat \<Rightarrow> nat option" where
  "overlaps_from t base sz i =
     (if i < t_cnt t then do {
        r \<leftarrow> arr_get (t_regions t) i;
        if memblock_addrs_overlap base sz (rg_base r) (rg_size r) then Some i
        else overlaps_from t base sz (i + 1) }
      else Some i)"
  by pat_completeness auto
termination
  by (relation "measure (\<lambda>(t, _, _, i). t_cnt t - i)") auto

definition memblock_overlaps_region :: "memblock_type \<Rightarrow> phys_addr_t \<Rightarrow> phys_addr_t \<Rightarrow> bool option" where
  "memblock_overlaps_region t base sz = do {
     i \<leftarrow> overlaps_from t base sz 0;
     Some (i < t_cnt t) }"

definition memblock_remove_region :: "memblock_type \<Rightarrow> nat \<Rightarrow> memblock_type option" where
  "memblock_remove_region t r = do {
     rgn \<leftarrow> arr_get (t_regions t) r;
     n \<leftarrow> count_diff (t_cnt t) (r + 1);
     regs \<leftarrow> memmove r (r + 1) n (t_regions t);
     let t' = t\<lparr>t_total_size := t_total_size t - rg_size rgn, t_regions := regs,
                t_cnt := t_cnt t - 1\<rparr>;
     if t_cnt t' = 0 then do {
       regs' \<leftarrow> arr_set regs 0 (memblock_set_region_node empty_region MAX_NUMNODES);
       Some (t'\<lparr>t_cnt := 1, t_regions := regs'\<rparr>) }
     else Some t' }"

function memblock_merge_from :: "nat \<Rightarrow> memblock_type \<Rightarrow> memblock_type option" where
  "memblock_merge_from i t =
     (if i + 1 < t_cnt t then do {
        this \<leftarrow> arr_get (t_regions t) i;
        nxt \<leftarrow> arr_get (t_regions t) (i + 1);
        if rg_base this + rg_size this \<noteq> rg_base nxt \<or>
           memblock_get_region_node this \<noteq> memblock_get_region_node nxt \<or>
           rg_flags this \<noteq> rg_flags nxt
        then do {
          bug_on (rg_base this + rg_size this > rg_base nxt);
          memblock_merge_from (i + 1) t }
        else do {
          regs \<leftarrow> arr_set (t_regions t) i (this\<lparr>rg_size := rg_size this + rg_size nxt\<rparr>);
          n \<leftarrow> count_diff (t_cnt t) (i + 2);
          regs' \<leftarrow> memmove (i + 1) (i + 2) n regs;
          memblock_merge_from i (t\<lparr>t_regions := regs', t_cnt := t_cnt t - 1\<rparr>) } }
      else Some t)"
  by pat_completeness auto
termination
  by (relation "measure (\<lambda>(i, t). t_cnt t - i)") auto

text \<open>The loop bound \<^verbatim>\<open>type->cnt - 1\<close> is unsigned: with no region at all the loop would leave the
  array.\<close>

definition memblock_merge_regions :: "memblock_type \<Rightarrow> memblock_type option" where
  "memblock_merge_regions t = (if t_cnt t = 0 then None else memblock_merge_from 0 t)"

definition memblock_insert_region ::
  "memblock_type \<Rightarrow> nat \<Rightarrow> phys_addr_t \<Rightarrow> phys_addr_t \<Rightarrow> int \<Rightarrow> u32 \<Rightarrow> memblock_type option" where
  "memblock_insert_region t idx base sz nid flags = do {
     bug_on (t_cnt t \<ge> t_max t);
     n \<leftarrow> count_diff (t_cnt t) idx;
     regs \<leftarrow> memmove (idx + 1) idx n (t_regions t);
     regs' \<leftarrow> arr_set regs idx \<lparr>rg_base = base, rg_size = sz, rg_flags = flags, rg_nid = nid\<rparr>;
     Some (t\<lparr>t_regions := regs', t_cnt := t_cnt t + 1,
             t_total_size := t_total_size t + sz\<rparr>) }"

lemma memblock_insert_region_cnt:
  "memblock_insert_region t idx base sz nid flags = Some t' \<Longrightarrow>
     t_cnt t < t_max t \<and> t_cnt t' = t_cnt t + 1 \<and> t_max t' = t_max t \<and> t_array t' = t_array t"
  by (auto simp: memblock_insert_region_def bug_on_def bind_eq_Some_conv split: if_splits)

text \<open>One round of \<^verbatim>\<open>memblock_add_range\<close>: with \<open>ins\<close> false it counts the regions needed, with
  \<open>ins\<close> true it inserts them. The result is \<^verbatim>\<open>nr_new\<close> and the table.\<close>

definition add_range_rest ::
  "bool \<Rightarrow> phys_addr_t \<Rightarrow> int \<Rightarrow> u32 \<Rightarrow> nat \<Rightarrow> phys_addr_t \<Rightarrow> nat \<Rightarrow> memblock_type
     \<Rightarrow> (nat \<times> memblock_type) option" where
  "add_range_rest ins end nid flags idx base nr_new t =
     (if base < end then
        if ins then do {
          t' \<leftarrow> memblock_insert_region t idx base (end - base) nid flags;
          Some (nr_new + 1, t') }
        else Some (nr_new + 1, t)
      else Some (nr_new, t))"

function add_range_round ::
  "bool \<Rightarrow> phys_addr_t \<Rightarrow> int \<Rightarrow> u32 \<Rightarrow> nat \<Rightarrow> phys_addr_t \<Rightarrow> nat \<Rightarrow> memblock_type
     \<Rightarrow> (nat \<times> memblock_type) option" where
  "add_range_round ins end nid flags idx base nr_new t =
     (if idx < t_cnt t then do {
        rgn \<leftarrow> arr_get (t_regions t) idx;
        let rbase = rg_base rgn;
        let rend = rbase + rg_size rgn;
        if rbase \<ge> end then add_range_rest ins end nid flags idx base nr_new t
        else if rend \<le> base then add_range_round ins end nid flags (idx + 1) base nr_new t
        else if rbase > base then
          if ins then do {
            t' \<leftarrow> memblock_insert_region t idx base (rbase - base) nid flags;
            add_range_round ins end nid flags (idx + 2) (min rend end) (nr_new + 1) t' }
          else add_range_round ins end nid flags (idx + 1) (min rend end) (nr_new + 1) t
        else add_range_round ins end nid flags (idx + 1) (min rend end) nr_new t }
      else add_range_rest ins end nid flags idx base nr_new t)"
  by pat_completeness auto
termination
  by (relation "measure (\<lambda>(_, _, _, _, idx, _, _, t). t_cnt t - idx)")
    (auto dest: memblock_insert_region_cnt)

text \<open>The loop of \<^verbatim>\<open>memblock_isolate_range\<close>; the result is \<^verbatim>\<open>*start_rgn\<close>, \<^verbatim>\<open>*end_rgn\<close> and the
  table. A region that reaches above the range is split with \<^verbatim>\<open>idx--\<close>, and the loop's own
  \<^verbatim>\<open>idx++\<close> looks at its lower half next.\<close>

function isolate_loop ::
  "phys_addr_t \<Rightarrow> phys_addr_t \<Rightarrow> nat \<Rightarrow> nat \<Rightarrow> nat \<Rightarrow> memblock_type
     \<Rightarrow> (nat \<times> nat \<times> memblock_type) option" where
  "isolate_loop base end idx start_rgn end_rgn t =
     (if idx < t_cnt t then do {
        rgn \<leftarrow> arr_get (t_regions t) idx;
        let rbase = rg_base rgn;
        let rend = rbase + rg_size rgn;
        if rbase \<ge> end then Some (start_rgn, end_rgn, t)
        else if rend \<le> base then isolate_loop base end (idx + 1) start_rgn end_rgn t
        else if rbase < base then do {
          regs \<leftarrow> arr_set (t_regions t) idx
                    (rgn\<lparr>rg_base := base, rg_size := rg_size rgn - (base - rbase)\<rparr>);
          t' \<leftarrow> memblock_insert_region
                  (t\<lparr>t_regions := regs, t_total_size := t_total_size t - (base - rbase)\<rparr>)
                  idx rbase (base - rbase) (memblock_get_region_node rgn) (rg_flags rgn);
          isolate_loop base end (idx + 1) start_rgn end_rgn t' }
        else if rend > end then do {
          regs \<leftarrow> arr_set (t_regions t) idx
                    (rgn\<lparr>rg_base := end, rg_size := rg_size rgn - (end - rbase)\<rparr>);
          t' \<leftarrow> memblock_insert_region
                  (t\<lparr>t_regions := regs, t_total_size := t_total_size t - (end - rbase)\<rparr>)
                  idx rbase (end - rbase) (memblock_get_region_node rgn) (rg_flags rgn);
          isolate_loop base end idx start_rgn end_rgn t' }
        else isolate_loop base end (idx + 1) (if end_rgn = 0 then idx else start_rgn) (idx + 1) t }
      else Some (start_rgn, end_rgn, t))"
  by pat_completeness auto
termination
  by (relation "measures [\<lambda>(_, _, idx, _, _, t). t_max t - t_cnt t,
                          \<lambda>(_, _, idx, _, _, t). t_cnt t - idx]")
    (auto dest!: memblock_insert_region_cnt)

text \<open>The loop \<^verbatim>\<open>for (i = end_rgn - 1; i >= start_rgn; i--) memblock_remove_region(type, i)\<close>.\<close>

fun remove_regions_down :: "nat \<Rightarrow> nat \<Rightarrow> memblock_type \<Rightarrow> memblock_type option" where
  "remove_regions_down start_rgn end_rgn t =
     (if start_rgn < end_rgn then do {
        t' \<leftarrow> memblock_remove_region t (end_rgn - 1);
        remove_regions_down start_rgn (end_rgn - 1) t' }
      else Some t)"

declare overlaps_from.simps [simp del] memblock_merge_from.simps [simp del]
  add_range_round.simps [simp del] isolate_loop.simps [simp del] remove_regions_down.simps [simp del]

end
