(* ===== verification/Memblock_Iter.thy ===== *)
theory Memblock_Iter
  imports Memblock_Table
begin

section \<open>Iterating over free memory\<close>

text \<open>
  \<^verbatim>\<open>__next_reserved_mem_region\<close>, \<^verbatim>\<open>__next_mem_range\<close> and \<^verbatim>\<open>__next_mem_range_rev\<close> of
  \<^verbatim>\<open>mm/memblock.c\<close>. The loop variable is the packed 64-bit index of the source, with the
  index into \<^verbatim>\<open>type_a\<close> in its lower and the index into \<^verbatim>\<open>type_b\<close> in its upper half; the
  indices themselves are C \<^verbatim>\<open>int\<close>s. A null \<^verbatim>\<open>type_b\<close> is \<open>None\<close>. The iterators return the new
  index and, unless the iteration is over, the range and its node.
\<close>

definition ULLONG_MAX :: u64 where "ULLONG_MAX = NOT 0"

definition next_reserved_mem_region ::
  "memblock_type \<Rightarrow> u64 \<Rightarrow> (u64 \<times> (phys_addr_t \<times> phys_addr_t) option) option" where
  "next_reserved_mem_region t idx =
     (if unat idx < t_cnt t then do {
        r \<leftarrow> arr_get (t_regions t) (unat idx);
        let base = rg_base r;
        let sz = rg_size r;
        Some (idx + 1, Some (base, base + sz - 1)) }
      else Some (ULLONG_MAX, None))"

definition should_skip_region :: "memblock_region \<Rightarrow> int \<Rightarrow> u32 \<Rightarrow> bool" where
  "should_skip_region m nid flags \<longleftrightarrow>
     (nid \<noteq> NUMA_NO_NODE \<and> nid \<noteq> memblock_get_region_node m) \<or>
     (flags AND MEMBLOCK_MIRROR \<noteq> 0 \<and> \<not> memblock_is_mirror m) \<or>
     (flags AND MEMBLOCK_NOMAP = 0 \<and> memblock_is_nomap m)"

text \<open>\<^verbatim>\<open>int idx_a = *idx & 0xffffffff, idx_b = *idx >> 32\<close>, and
  \<^verbatim>\<open>(u32)idx_a | (u64)idx_b << 32\<close>.\<close>

definition idx_a_of :: "u64 \<Rightarrow> int" where
  "idx_a_of idx = sint (ucast (idx AND 0xffffffff) :: u32)"

definition idx_b_of :: "u64 \<Rightarrow> int" where
  "idx_b_of idx = sint (ucast (drop_bit 32 idx) :: u32)"

definition idx_pack :: "int \<Rightarrow> int \<Rightarrow> u64" where
  "idx_pack a b = ucast (word_of_int a :: u32) OR push_bit 32 (word_of_int b)"

text \<open>The area before region \<open>b\<close> of the excluded table: \<^verbatim>\<open>r_start\<close> and \<^verbatim>\<open>r_end\<close>.\<close>

definition area_before :: "memblock_type \<Rightarrow> int \<Rightarrow> (phys_addr_t \<times> phys_addr_t) option" where
  "area_before t b = do {
     r_start \<leftarrow> (if b \<noteq> 0 then do {
                   p \<leftarrow> arr_get (t_regions t) (nat (b - 1));
                   Some (rg_base p + rg_size p) }
                 else Some 0);
     r_end \<leftarrow> (if b < int (t_cnt t) then do {
                 r \<leftarrow> arr_get (t_regions t) (nat b);
                 Some (rg_base r) }
               else Some PHYS_ADDR_MAX);
     Some (r_start, r_end) }"

subsection \<open>Forward\<close>

text \<open>The inner loop: stops past \<^verbatim>\<open>m_end\<close>, at an intersecting area, or behind the last area.\<close>

function scan_areas :: "phys_addr_t \<Rightarrow> phys_addr_t \<Rightarrow> memblock_type \<Rightarrow> int
    \<Rightarrow> (int \<times> (phys_addr_t \<times> phys_addr_t) option) option" where
  "scan_areas m_start m_end t b =
     (if 0 \<le> b \<and> b < int (t_cnt t) + 1 then do {
        (r_start, r_end) \<leftarrow> area_before t b;
        if r_start \<ge> m_end then Some (b, None)
        else if m_start < r_end then Some (b, Some (r_start, r_end))
        else scan_areas m_start m_end t (b + 1) }
      else Some (b, None))"
  by pat_completeness auto
termination
  by (relation "measure (\<lambda>(_, _, t, b). nat (int (t_cnt t) + 1 - b))") auto

function next_range_loop ::
  "int \<Rightarrow> u32 \<Rightarrow> memblock_type \<Rightarrow> memblock_type option \<Rightarrow> int \<Rightarrow> int
     \<Rightarrow> (int \<times> int \<times> phys_addr_t \<times> phys_addr_t \<times> int) option option" where
  "next_range_loop nid flags ta tb a b =
     (if 0 \<le> a \<and> a < int (t_cnt ta) then do {
        m \<leftarrow> arr_get (t_regions ta) (nat a);
        let m_start = rg_base m;
        let m_end = rg_base m + rg_size m;
        let m_nid = memblock_get_region_node m;
        if should_skip_region m nid flags then next_range_loop nid flags ta tb (a + 1) b
        else (case tb of
          None \<Rightarrow> Some (Some (a + 1, b, m_start, m_end, m_nid))
        | Some t \<Rightarrow> do {
            (b', hit) \<leftarrow> scan_areas m_start m_end t b;
            case hit of
              None \<Rightarrow> next_range_loop nid flags ta tb (a + 1) b'
            | Some (r_start, r_end) \<Rightarrow>
                (let (a'', b'') = (if m_end \<le> r_end then (a + 1, b') else (a, b' + 1))
                 in Some (Some (a'', b'', max m_start r_start, min m_end r_end, m_nid))) }) }
      else Some None)"
  by pat_completeness auto
termination
  by (relation "measure (\<lambda>(_, _, ta, _, a, _). nat (int (t_cnt ta) - a))") auto

definition next_mem_range ::
  "int \<Rightarrow> u32 \<Rightarrow> memblock_type \<Rightarrow> memblock_type option \<Rightarrow> u64
     \<Rightarrow> (u64 \<times> (phys_addr_t \<times> phys_addr_t \<times> int) option) option" where
  "next_mem_range nid flags ta tb idx = do {
     let nid = (if nid = MAX_NUMNODES then NUMA_NO_NODE else nid);
     res \<leftarrow> next_range_loop nid flags ta tb (idx_a_of idx) (idx_b_of idx);
     case res of
       None \<Rightarrow> Some (ULLONG_MAX, None)
     | Some (a, b, out) \<Rightarrow> Some (idx_pack a b, Some out) }"

subsection \<open>Backward\<close>

function scan_areas_rev :: "phys_addr_t \<Rightarrow> phys_addr_t \<Rightarrow> memblock_type \<Rightarrow> int
    \<Rightarrow> (int \<times> (phys_addr_t \<times> phys_addr_t) option) option" where
  "scan_areas_rev m_start m_end t b =
     (if b \<ge> 0 then do {
        (r_start, r_end) \<leftarrow> area_before t b;
        if r_end \<le> m_start then Some (b, None)
        else if m_end > r_start then Some (b, Some (r_start, r_end))
        else scan_areas_rev m_start m_end t (b - 1) }
      else Some (b, None))"
  by pat_completeness auto
termination
  by (relation "measure (\<lambda>(_, _, t, b). nat (b + 1))") auto

function next_range_rev_loop ::
  "int \<Rightarrow> u32 \<Rightarrow> memblock_type \<Rightarrow> memblock_type option \<Rightarrow> int \<Rightarrow> int
     \<Rightarrow> (int \<times> int \<times> phys_addr_t \<times> phys_addr_t \<times> int) option option" where
  "next_range_rev_loop nid flags ta tb a b =
     (if a \<ge> 0 then do {
        m \<leftarrow> arr_get (t_regions ta) (nat a);
        let m_start = rg_base m;
        let m_end = rg_base m + rg_size m;
        let m_nid = memblock_get_region_node m;
        if should_skip_region m nid flags then next_range_rev_loop nid flags ta tb (a - 1) b
        else (case tb of
          None \<Rightarrow> Some (Some (a - 1, b, m_start, m_end, m_nid))
        | Some t \<Rightarrow> do {
            (b', hit) \<leftarrow> scan_areas_rev m_start m_end t b;
            case hit of
              None \<Rightarrow> next_range_rev_loop nid flags ta tb (a - 1) b'
            | Some (r_start, r_end) \<Rightarrow>
                (let (a'', b'') = (if m_start \<ge> r_start then (a - 1, b') else (a, b' - 1))
                 in Some (Some (a'', b'', max m_start r_start, min m_end r_end, m_nid))) }) }
      else Some None)"
  by pat_completeness auto
termination
  by (relation "measure (\<lambda>(_, _, ta, _, a, _). nat (a + 1))") auto

definition next_mem_range_rev ::
  "int \<Rightarrow> u32 \<Rightarrow> memblock_type \<Rightarrow> memblock_type option \<Rightarrow> u64
     \<Rightarrow> (u64 \<times> (phys_addr_t \<times> phys_addr_t \<times> int) option) option" where
  "next_mem_range_rev nid flags ta tb idx = do {
     let nid = (if nid = MAX_NUMNODES then NUMA_NO_NODE else nid);
     let (a, b) = (if idx = ULLONG_MAX
                   then (int (t_cnt ta) - 1, case tb of Some t \<Rightarrow> int (t_cnt t) | None \<Rightarrow> 0)
                   else (idx_a_of idx, idx_b_of idx));
     res \<leftarrow> next_range_rev_loop nid flags ta tb a b;
     case res of
       None \<Rightarrow> Some (ULLONG_MAX, None)
     | Some (a', b', out) \<Rightarrow> Some (idx_pack a' b', Some out) }"

declare scan_areas.simps [simp del] next_range_loop.simps [simp del]
  scan_areas_rev.simps [simp del] next_range_rev_loop.simps [simp del]

subsection \<open>The loop macros\<close>

text \<open>
  \<^verbatim>\<open>for_each_mem_range\<close> and its relatives: call the iterator, stop when the index is
  \<^verbatim>\<open>ULLONG_MAX\<close>, otherwise run the body on the range. The body continues with a new
  accumulator (\<open>Inr\<close>) or leaves the loop with a result (\<open>Inl\<close>). The fuel bounds the number of
  iterations.
\<close>

primrec for_each_range ::
  "nat \<Rightarrow> (u64 \<Rightarrow> (u64 \<times> (phys_addr_t \<times> phys_addr_t \<times> int) option) option)
     \<Rightarrow> ('acc \<Rightarrow> phys_addr_t \<Rightarrow> phys_addr_t \<Rightarrow> 'r + 'acc) \<Rightarrow> 'acc \<Rightarrow> u64 \<Rightarrow> ('r + 'acc) option" where
  "for_each_range 0 nxt visit acc idx = None"
| "for_each_range (Suc fuel) nxt visit acc idx = do {
     (idx', out) \<leftarrow> nxt idx;
     if idx' = ULLONG_MAX then Some (Inr acc)
     else do {
       (s, e, _) \<leftarrow> out;
       case visit acc s e of
         Inl r \<Rightarrow> Some (Inl r)
       | Inr acc' \<Rightarrow> for_each_range fuel nxt visit acc' idx' } }"

subsection \<open>The packed index\<close>

lemma sint_word_of_int: "- (2 ^ 31) \<le> a \<Longrightarrow> a < 2 ^ 31 \<Longrightarrow> sint (word_of_int a :: u32) = a"
  by (simp add: sint_sbintrunc' signed_take_bit_int_eq_self_iff)

lemma low_mask: "(0xffffffff :: u64) = mask 32"
  by (simp add: mask_eq_exp_minus_1)

lemma idx_a_pack: "- (2 ^ 31) \<le> a \<Longrightarrow> a < 2 ^ 31 \<Longrightarrow> idx_a_of (idx_pack a b) = a"
proof -
  assume *: "- (2 ^ 31) \<le> a" "a < 2 ^ 31"
  have "(ucast (idx_pack a b AND 0xffffffff) :: u32) = word_of_int a"
    unfolding low_mask by (rule bit_word_eqI) (simp add: idx_pack_def bit_simps)
  with * show ?thesis
    by (simp add: idx_a_of_def sint_word_of_int)
qed

lemma idx_b_pack: "- (2 ^ 31) \<le> b \<Longrightarrow> b < 2 ^ 31 \<Longrightarrow> idx_b_of (idx_pack a b) = b"
proof -
  assume *: "- (2 ^ 31) \<le> b" "b < 2 ^ 31"
  have "(ucast (drop_bit 32 (idx_pack a b)) :: u32) = word_of_int b"
    by (rule bit_word_eqI) (auto simp: idx_pack_def bit_simps)
  with * show ?thesis
    by (simp add: idx_b_of_def sint_word_of_int)
qed

lemma idx_max: "idx_a_of ULLONG_MAX = -1" "idx_b_of ULLONG_MAX = -1"
proof -
  have "(ucast (drop_bit 32 (- 1 :: u64)) :: u32) = - 1"
    by (rule bit_word_eqI) (simp add: bit_simps)
  then show "idx_b_of ULLONG_MAX = -1" by (simp add: idx_b_of_def ULLONG_MAX_def)
qed (simp add: idx_a_of_def ULLONG_MAX_def)

lemma idx_pack_not_max:
  assumes "- (2 ^ 31) \<le> a" "a < 2 ^ 31" "- (2 ^ 31) \<le> b" "b < 2 ^ 31" "a \<noteq> -1 \<or> b \<noteq> -1"
  shows "idx_pack a b \<noteq> ULLONG_MAX"
  using idx_a_pack [OF assms(1,2), of b] idx_b_pack [OF assms(3,4), of a] idx_max assms(5) by auto

end
