(* ===== verification/Memblock.thy ===== *)
theory Memblock
  imports Memblock_Iter
begin

section \<open>The boot memory allocator\<close>

text \<open>
  The state of \<^verbatim>\<open>mm/memblock.c\<close> (\<^verbatim>\<open>struct memblock memblock\<close> and the file's static variables) and
  the operations on it, in the order of the source. The two tables are named by a selector where
  the source passes a pointer to one of them. \<^verbatim>\<open>memblock_double_array\<close> and \<^verbatim>\<open>memblock_add_range\<close>
  call each other: the range operations take the resizing routine as an argument
  (\<open>add_range_with\<close> and the others), and \<open>memblock_double_array\<close> closes the recursion with a
  bound on its depth. \<^verbatim>\<open>CONFIG_ARCH_KEEP_MEMBLOCK\<close> is defined, so \<^verbatim>\<open>memblock_discard\<close> is not
  compiled, and so is \<^verbatim>\<open>CONFIG_HAVE_MEMBLOCK_NODE_MAP\<close>.
\<close>

subsection \<open>State\<close>

datatype table = Memory | Reserved

record memblock =
  mb_bottom_up :: bool
  mb_current_limit :: phys_addr_t
  mb_memory :: memblock_type
  mb_reserved :: memblock_type
  mb_has_mirror :: bool
  mb_can_resize :: bool
  mb_memory_in_slab :: bool
  mb_reserved_in_slab :: bool
  mb_max_low_pfn :: u64

primrec get_table :: "table \<Rightarrow> memblock \<Rightarrow> memblock_type" where
  "get_table Memory m = mb_memory m"
| "get_table Reserved m = mb_reserved m"

primrec set_table :: "table \<Rightarrow> memblock_type \<Rightarrow> memblock \<Rightarrow> memblock" where
  "set_table Memory t m = m\<lparr>mb_memory := t\<rparr>"
| "set_table Reserved t m = m\<lparr>mb_reserved := t\<rparr>"

primrec in_slab :: "table \<Rightarrow> memblock \<Rightarrow> bool" where
  "in_slab Memory m = mb_memory_in_slab m"
| "in_slab Reserved m = mb_reserved_in_slab m"

primrec set_in_slab :: "table \<Rightarrow> bool \<Rightarrow> memblock \<Rightarrow> memblock" where
  "set_in_slab Memory b m = m\<lparr>mb_memory_in_slab := b\<rparr>"
| "set_in_slab Reserved b m = m\<lparr>mb_reserved_in_slab := b\<rparr>"

definition INIT_MEMBLOCK_REGIONS :: nat where "INIT_MEMBLOCK_REGIONS = 128"

definition MEMBLOCK_ALLOC_ANYWHERE :: phys_addr_t where "MEMBLOCK_ALLOC_ANYWHERE = NOT 0"
definition MEMBLOCK_ALLOC_ACCESSIBLE :: phys_addr_t where "MEMBLOCK_ALLOC_ACCESSIBLE = 0"
definition MEMBLOCK_ALLOC_KASAN :: phys_addr_t where "MEMBLOCK_ALLOC_KASAN = 1"

definition PAGE_SHIFT :: nat where "PAGE_SHIFT = 12"
definition PAGE_SIZE :: phys_addr_t where "PAGE_SIZE = 4096"
definition SMP_CACHE_BYTES :: phys_addr_t where "SMP_CACHE_BYTES = 32"
definition ENOMEM :: int where "ENOMEM = 12"

definition init_type :: memblock_type where
  "init_type = \<lparr>t_cnt = 1, t_max = INIT_MEMBLOCK_REGIONS, t_total_size = 0,
     t_regions = replicate INIT_MEMBLOCK_REGIONS zero_region, t_array = Init_regions\<rparr>"

definition memblock_init :: memblock where
  "memblock_init = \<lparr>mb_bottom_up = False, mb_current_limit = MEMBLOCK_ALLOC_ANYWHERE,
     mb_memory = init_type, mb_reserved = init_type, mb_has_mirror = False, mb_can_resize = False,
     mb_memory_in_slab = False, mb_reserved_in_slab = False, mb_max_low_pfn = 0\<rparr>"

definition memblock_set_bottom_up :: "bool \<Rightarrow> memblock \<Rightarrow> memblock" where
  "memblock_set_bottom_up enable m = m\<lparr>mb_bottom_up := enable\<rparr>"

definition memblock_bottom_up :: "memblock \<Rightarrow> bool" where
  "memblock_bottom_up m = mb_bottom_up m"

subsection \<open>Arithmetic macros\<close>

definition clamp :: "phys_addr_t \<Rightarrow> phys_addr_t \<Rightarrow> phys_addr_t \<Rightarrow> phys_addr_t" where
  "clamp val lo hi = min (max val lo) hi"

definition round_up :: "phys_addr_t \<Rightarrow> phys_addr_t \<Rightarrow> phys_addr_t" where
  "round_up x y = ((x - 1) OR (y - 1)) + 1"

definition round_down :: "phys_addr_t \<Rightarrow> phys_addr_t \<Rightarrow> phys_addr_t" where
  "round_down x y = x AND NOT (y - 1)"

definition PAGE_ALIGN :: "phys_addr_t \<Rightarrow> phys_addr_t" where
  "PAGE_ALIGN x = (x + (PAGE_SIZE - 1)) AND NOT (PAGE_SIZE - 1)"

text \<open>\<^verbatim>\<open>PAGE_SIZE\<close> is an \<^verbatim>\<open>unsigned long\<close>, so \<^verbatim>\<open>PFN_UP\<close> computes in 64 bits; \<^verbatim>\<open>PFN_DOWN\<close> of a
  physical address in 32.\<close>

definition PFN_UP :: "phys_addr_t \<Rightarrow> u64" where
  "PFN_UP x = drop_bit PAGE_SHIFT (ucast x + 4096 - 1)"

definition PFN_DOWN :: "phys_addr_t \<Rightarrow> u64" where
  "PFN_DOWN x = ucast (drop_bit PAGE_SHIFT x)"

definition PFN_PHYS :: "u64 \<Rightarrow> phys_addr_t" where
  "PFN_PHYS x = push_bit PAGE_SHIFT (ucast x)"

subsection \<open>Finding free memory\<close>

definition choose_memblock_flags :: "memblock \<Rightarrow> u32" where
  "choose_memblock_flags m = (if mb_has_mirror m then MEMBLOCK_MIRROR else MEMBLOCK_NONE)"

text \<open>Each round of the iteration moves on by a region of one of the tables or by the area behind
  the last one.\<close>

definition range_fuel :: "memblock \<Rightarrow> nat" where
  "range_fuel m = t_cnt (mb_memory m) + t_cnt (mb_reserved m) + 2"

definition bottom_up_visit ::
  "phys_addr_t \<Rightarrow> phys_addr_t \<Rightarrow> phys_addr_t \<Rightarrow> phys_addr_t \<Rightarrow> unit \<Rightarrow> phys_addr_t \<Rightarrow> phys_addr_t
     \<Rightarrow> phys_addr_t + unit" where
  "bottom_up_visit start end sz align u this_start this_end =
     (let this_start = clamp this_start start end;
          this_end = clamp this_end start end;
          cand = round_up this_start align
      in if cand < this_end \<and> this_end - cand \<ge> sz then Inl cand else Inr u)"

definition memblock_find_range_bottom_up ::
  "memblock \<Rightarrow> phys_addr_t \<Rightarrow> phys_addr_t \<Rightarrow> phys_addr_t \<Rightarrow> phys_addr_t \<Rightarrow> int \<Rightarrow> u32
     \<Rightarrow> phys_addr_t option" where
  "memblock_find_range_bottom_up m start end sz align nid flags = do {
     res \<leftarrow> for_each_range (range_fuel m)
              (next_mem_range nid flags (mb_memory m) (Some (mb_reserved m)))
              (bottom_up_visit start end sz align) () 0;
     Some (case res of Inl cand \<Rightarrow> cand | Inr _ \<Rightarrow> 0) }"

definition top_down_visit ::
  "phys_addr_t \<Rightarrow> phys_addr_t \<Rightarrow> phys_addr_t \<Rightarrow> phys_addr_t \<Rightarrow> unit \<Rightarrow> phys_addr_t \<Rightarrow> phys_addr_t
     \<Rightarrow> phys_addr_t + unit" where
  "top_down_visit start end sz align u this_start this_end =
     (let this_start = clamp this_start start end;
          this_end = clamp this_end start end
      in if this_end < sz then Inr u
         else let cand = round_down (this_end - sz) align
              in if cand \<ge> this_start then Inl cand else Inr u)"

definition memblock_find_range_top_down ::
  "memblock \<Rightarrow> phys_addr_t \<Rightarrow> phys_addr_t \<Rightarrow> phys_addr_t \<Rightarrow> phys_addr_t \<Rightarrow> int \<Rightarrow> u32
     \<Rightarrow> phys_addr_t option" where
  "memblock_find_range_top_down m start end sz align nid flags = do {
     res \<leftarrow> for_each_range (range_fuel m)
              (next_mem_range_rev nid flags (mb_memory m) (Some (mb_reserved m)))
              (top_down_visit start end sz align) () ULLONG_MAX;
     Some (case res of Inl cand \<Rightarrow> cand | Inr _ \<Rightarrow> 0) }"

definition memblock_find_in_range_node ::
  "memblock \<Rightarrow> phys_addr_t \<Rightarrow> phys_addr_t \<Rightarrow> phys_addr_t \<Rightarrow> phys_addr_t \<Rightarrow> int \<Rightarrow> u32
     \<Rightarrow> phys_addr_t option" where
  "memblock_find_in_range_node m sz align start end nid flags = do {
     let end = (if end = MEMBLOCK_ALLOC_ACCESSIBLE \<or> end = MEMBLOCK_ALLOC_KASAN
                then mb_current_limit m else end);
     let start = max start PAGE_SIZE;
     let end = max start end;
     let kernel_end = end;
     ret \<leftarrow> (if memblock_bottom_up m \<and> end > kernel_end then
               (let bottom_up_start = max start kernel_end
                in memblock_find_range_bottom_up m bottom_up_start end sz align nid flags)
             else Some 0);
     if ret \<noteq> 0 then Some ret
     else memblock_find_range_top_down m start end sz align nid flags }"

text \<open>The label \<^verbatim>\<open>again\<close> is reached a second time only with \<^verbatim>\<open>MEMBLOCK_MIRROR\<close> cleared.\<close>

definition memblock_find_in_range ::
  "memblock \<Rightarrow> phys_addr_t \<Rightarrow> phys_addr_t \<Rightarrow> phys_addr_t \<Rightarrow> phys_addr_t \<Rightarrow> phys_addr_t option" where
  "memblock_find_in_range m start end sz align = do {
     let flags = choose_memblock_flags m;
     ret \<leftarrow> memblock_find_in_range_node m sz align start end NUMA_NO_NODE flags;
     if ret = 0 \<and> flags AND MEMBLOCK_MIRROR \<noteq> 0
     then memblock_find_in_range_node m sz align start end NUMA_NO_NODE (flags AND NOT MEMBLOCK_MIRROR)
     else Some ret }"

subsection \<open>Range operations, over a resizing routine\<close>

type_synonym resize = "table \<Rightarrow> phys_addr_t \<Rightarrow> phys_addr_t \<Rightarrow> memblock \<Rightarrow> (int \<times> memblock) option"

text \<open>\<^verbatim>\<open>while (type->cnt + need > type->max) if (memblock_double_array(...) < 0) return -ENOMEM\<close>;
  the result says whether there is room. The table doubles in every round.\<close>

primrec ensure_room ::
  "nat \<Rightarrow> resize \<Rightarrow> table \<Rightarrow> nat \<Rightarrow> phys_addr_t \<Rightarrow> phys_addr_t \<Rightarrow> memblock \<Rightarrow> (bool \<times> memblock) option" where
  "ensure_room 0 dbl w need base sz m = None"
| "ensure_room (Suc fuel) dbl w need base sz m =
     (if t_cnt (get_table w m) + need > t_max (get_table w m) then do {
        (ret, m') \<leftarrow> dbl w base sz m;
        if ret < 0 then Some (False, m') else ensure_room fuel dbl w need base sz m' }
      else Some (True, m))"

definition resize_fuel :: nat where "resize_fuel = 64"

definition add_range_with ::
  "resize \<Rightarrow> table \<Rightarrow> phys_addr_t \<Rightarrow> phys_addr_t \<Rightarrow> int \<Rightarrow> u32 \<Rightarrow> memblock \<Rightarrow> (int \<times> memblock) option" where
  "add_range_with dbl w base sz nid flags m = do {
     let sz = memblock_cap_size base sz;
     let en = base + sz;
     if sz = 0 then Some (0, m)
     else do {
       let t = get_table w m;
       r0 \<leftarrow> arr_get (t_regions t) 0;
       if rg_size r0 = 0 then do {
         regs \<leftarrow> arr_set (t_regions t) 0
                   (memblock_set_region_node (r0\<lparr>rg_base := base, rg_size := sz, rg_flags := flags\<rparr>) nid);
         Some (0, set_table w (t\<lparr>t_regions := regs, t_total_size := sz\<rparr>) m) }
       else do {
         (nr_new, _) \<leftarrow> add_range_round False en nid flags 0 base 0 t;
         if nr_new = 0 then Some (0, m)
         else do {
           (ok, m') \<leftarrow> ensure_room resize_fuel dbl w nr_new base sz m;
           if \<not> ok then Some (- ENOMEM, m')
           else do {
             (nr_new', t') \<leftarrow> add_range_round True en nid flags 0 base 0 (get_table w m');
             if nr_new' = 0 then Some (0, set_table w t' m')
             else do {
               t'' \<leftarrow> memblock_merge_regions t';
               Some (0, set_table w t'' m') } } } } } }"

definition isolate_range_with ::
  "resize \<Rightarrow> table \<Rightarrow> phys_addr_t \<Rightarrow> phys_addr_t \<Rightarrow> memblock \<Rightarrow> (int \<times> nat \<times> nat \<times> memblock) option" where
  "isolate_range_with dbl w base sz m = do {
     let sz = memblock_cap_size base sz;
     let en = base + sz;
     if sz = 0 then Some (0, 0, 0, m)
     else do {
       (ok, m') \<leftarrow> ensure_room resize_fuel dbl w 2 base sz m;
       if \<not> ok then Some (- ENOMEM, 0, 0, m')
       else do {
         (start_rgn, end_rgn, t') \<leftarrow> isolate_loop base en 0 0 0 (get_table w m');
         Some (0, start_rgn, end_rgn, set_table w t' m') } } }"

definition remove_range_with ::
  "resize \<Rightarrow> table \<Rightarrow> phys_addr_t \<Rightarrow> phys_addr_t \<Rightarrow> memblock \<Rightarrow> (int \<times> memblock) option" where
  "remove_range_with dbl w base sz m = do {
     (ret, start_rgn, end_rgn, m') \<leftarrow> isolate_range_with dbl w base sz m;
     if ret \<noteq> 0 then Some (ret, m')
     else do {
       t' \<leftarrow> remove_regions_down start_rgn end_rgn (get_table w m');
       Some (0, set_table w t' m') } }"

subsection \<open>Growing a table\<close>

text \<open>
  \<^verbatim>\<open>use_slab\<close> is the constant 0 in this source. The new array's memory is the list of the table
  record; a table whose size in bytes does not fit \<^verbatim>\<open>phys_addr_t\<close>, for which the copy would be
  partial, is outside the model, as is a recursion deeper than the bound. Freeing an array that
  came from the slab has no effect on memblock.
\<close>

definition region_bytes :: nat where "region_bytes = 16"

primrec memblock_double_array_bounded :: "nat \<Rightarrow> resize" where
  "memblock_double_array_bounded 0 w new_start new_size m = None"
| "memblock_double_array_bounded (Suc depth) w new_start new_size m =
     (if \<not> mb_can_resize m then Some (-1, m)
      else do {
        let t = get_table w m;
        bug_on (t_max t * region_bytes \<ge> 2 ^ 32);
        let old_size = (of_nat (t_max t * region_bytes) :: phys_addr_t);
        let new_bytes = push_bit 1 old_size;
        let old_alloc_size = PAGE_ALIGN old_size;
        let new_alloc_size = PAGE_ALIGN new_bytes;
        let (new_start, new_size) = (if w \<noteq> Reserved then (0, 0) else (new_start, new_size));
        addr0 \<leftarrow> memblock_find_in_range m (new_start + new_size) (mb_current_limit m) new_alloc_size PAGE_SIZE;
        addr \<leftarrow> (if addr0 = 0 \<and> new_size \<noteq> 0
                  then memblock_find_in_range m 0 (min new_start (mb_current_limit m)) new_alloc_size PAGE_SIZE
                  else Some addr0);
        if addr = 0 then Some (-1, m)
        else do {
          let old_array = t_array t;
          let m1 = set_table w (t\<lparr>t_regions := t_regions t @ replicate (t_max t) zero_region,
                                   t_max := t_max t * 2, t_array := Alloc_at addr\<rparr>) m;
          m2 \<leftarrow> (if in_slab w m then Some m1
                 else case old_array of
                   Init_regions \<Rightarrow> Some m1
                 | Alloc_at old \<Rightarrow> do {
                     (_, m') \<leftarrow> remove_range_with (memblock_double_array_bounded depth) Reserved old old_alloc_size m1;
                     Some m' });
          (ret, m3) \<leftarrow> add_range_with (memblock_double_array_bounded depth) Reserved addr new_alloc_size
                         MAX_NUMNODES 0 m2;
          bug_on (ret \<noteq> 0);
          Some (0, set_in_slab w False m3) } })"

definition memblock_double_array :: resize where
  "memblock_double_array = memblock_double_array_bounded resize_fuel"

subsection \<open>Adding, removing, reserving and freeing\<close>

definition memblock_add_range ::
  "table \<Rightarrow> phys_addr_t \<Rightarrow> phys_addr_t \<Rightarrow> int \<Rightarrow> u32 \<Rightarrow> memblock \<Rightarrow> (int \<times> memblock) option" where
  "memblock_add_range = add_range_with memblock_double_array"

definition memblock_isolate_range ::
  "table \<Rightarrow> phys_addr_t \<Rightarrow> phys_addr_t \<Rightarrow> memblock \<Rightarrow> (int \<times> nat \<times> nat \<times> memblock) option" where
  "memblock_isolate_range = isolate_range_with memblock_double_array"

definition memblock_remove_range ::
  "table \<Rightarrow> phys_addr_t \<Rightarrow> phys_addr_t \<Rightarrow> memblock \<Rightarrow> (int \<times> memblock) option" where
  "memblock_remove_range = remove_range_with memblock_double_array"

definition memblock_add_node :: "phys_addr_t \<Rightarrow> phys_addr_t \<Rightarrow> int \<Rightarrow> memblock \<Rightarrow> (int \<times> memblock) option" where
  "memblock_add_node base sz nid m = memblock_add_range Memory base sz nid 0 m"

definition memblock_add :: "phys_addr_t \<Rightarrow> phys_addr_t \<Rightarrow> memblock \<Rightarrow> (int \<times> memblock) option" where
  "memblock_add base sz m = memblock_add_range Memory base sz MAX_NUMNODES 0 m"

definition memblock_remove :: "phys_addr_t \<Rightarrow> phys_addr_t \<Rightarrow> memblock \<Rightarrow> (int \<times> memblock) option" where
  "memblock_remove base sz m = memblock_remove_range Memory base sz m"

definition memblock_free :: "phys_addr_t \<Rightarrow> phys_addr_t \<Rightarrow> memblock \<Rightarrow> (int \<times> memblock) option" where
  "memblock_free base sz m = memblock_remove_range Reserved base sz m"

definition memblock_reserve :: "phys_addr_t \<Rightarrow> phys_addr_t \<Rightarrow> memblock \<Rightarrow> (int \<times> memblock) option" where
  "memblock_reserve base sz m = memblock_add_range Reserved base sz MAX_NUMNODES 0 m"

subsection \<open>Flags and nodes\<close>

text \<open>The loop \<^verbatim>\<open>for (i = start_rgn; i < end_rgn; i++)\<close> that changes each region.\<close>

function update_regions ::
  "(memblock_region \<Rightarrow> memblock_region) \<Rightarrow> nat \<Rightarrow> nat \<Rightarrow> memblock_region list \<Rightarrow> memblock_region list option" where
  "update_regions f i end_rgn regs =
     (if i < end_rgn then do {
        r \<leftarrow> arr_get regs i;
        regs' \<leftarrow> arr_set regs i (f r);
        update_regions f (i + 1) end_rgn regs' }
      else Some regs)"
  by pat_completeness auto
termination
  by (relation "measure (\<lambda>(_, i, end_rgn, _). end_rgn - i)") auto

declare update_regions.simps [simp del]

definition setclr :: "bool \<Rightarrow> u32 \<Rightarrow> memblock_region \<Rightarrow> memblock_region" where
  "setclr on flag r = r\<lparr>rg_flags := (if on then rg_flags r OR flag else rg_flags r AND NOT flag)\<rparr>"

definition memblock_setclr_flag ::
  "phys_addr_t \<Rightarrow> phys_addr_t \<Rightarrow> bool \<Rightarrow> u32 \<Rightarrow> memblock \<Rightarrow> (int \<times> memblock) option" where
  "memblock_setclr_flag base sz on flag m = do {
     (ret, start_rgn, end_rgn, m') \<leftarrow> memblock_isolate_range Memory base sz m;
     if ret \<noteq> 0 then Some (ret, m')
     else do {
       let t = mb_memory m';
       regs \<leftarrow> update_regions (setclr on flag) start_rgn end_rgn (t_regions t);
       t' \<leftarrow> memblock_merge_regions (t\<lparr>t_regions := regs\<rparr>);
       Some (0, m'\<lparr>mb_memory := t'\<rparr>) } }"

definition memblock_mark_hotplug :: "phys_addr_t \<Rightarrow> phys_addr_t \<Rightarrow> memblock \<Rightarrow> (int \<times> memblock) option" where
  "memblock_mark_hotplug base sz m = memblock_setclr_flag base sz True MEMBLOCK_HOTPLUG m"

definition memblock_clear_hotplug :: "phys_addr_t \<Rightarrow> phys_addr_t \<Rightarrow> memblock \<Rightarrow> (int \<times> memblock) option" where
  "memblock_clear_hotplug base sz m = memblock_setclr_flag base sz False MEMBLOCK_HOTPLUG m"

definition memblock_mark_mirror :: "phys_addr_t \<Rightarrow> phys_addr_t \<Rightarrow> memblock \<Rightarrow> (int \<times> memblock) option" where
  "memblock_mark_mirror base sz m =
     memblock_setclr_flag base sz True MEMBLOCK_MIRROR (m\<lparr>mb_has_mirror := True\<rparr>)"

definition memblock_mark_nomap :: "phys_addr_t \<Rightarrow> phys_addr_t \<Rightarrow> memblock \<Rightarrow> (int \<times> memblock) option" where
  "memblock_mark_nomap base sz m = memblock_setclr_flag base sz True MEMBLOCK_NOMAP m"

definition memblock_clear_nomap :: "phys_addr_t \<Rightarrow> phys_addr_t \<Rightarrow> memblock \<Rightarrow> (int \<times> memblock) option" where
  "memblock_clear_nomap base sz m = memblock_setclr_flag base sz False MEMBLOCK_NOMAP m"

text \<open>The index of \<^verbatim>\<open>__next_mem_pfn_range\<close> is compared as an unsigned number, so a negative index is
  past the end. The result is the new index and, unless it is -1, the page frames and the node.\<close>

function pfn_range_from :: "memblock_type \<Rightarrow> int \<Rightarrow> int \<Rightarrow> (int \<times> memblock_region) option option" where
  "pfn_range_from t nid i =
     (if 0 \<le> i \<and> i < int (t_cnt t) then do {
        r \<leftarrow> arr_get (t_regions t) (nat i);
        if PFN_UP (rg_base r) \<ge> PFN_DOWN (rg_base r + rg_size r) then pfn_range_from t nid (i + 1)
        else if nid = MAX_NUMNODES \<or> nid = rg_nid r then Some (Some (i, r))
        else pfn_range_from t nid (i + 1) }
      else Some None)"
  by pat_completeness auto
termination
  by (relation "measure (\<lambda>(t, _, i). nat (int (t_cnt t) - i))") auto

declare pfn_range_from.simps [simp del]

definition next_mem_pfn_range :: "memblock \<Rightarrow> int \<Rightarrow> int \<Rightarrow> (int \<times> (u64 \<times> u64 \<times> int) option) option" where
  "next_mem_pfn_range m nid idx = do {
     hit \<leftarrow> pfn_range_from (mb_memory m) nid (idx + 1);
     case hit of
       None \<Rightarrow> Some (-1, None)
     | Some (i, r) \<Rightarrow> Some (i, Some (PFN_UP (rg_base r), PFN_DOWN (rg_base r + rg_size r), rg_nid r)) }"

definition memblock_set_node ::
  "phys_addr_t \<Rightarrow> phys_addr_t \<Rightarrow> table \<Rightarrow> int \<Rightarrow> memblock \<Rightarrow> (int \<times> memblock) option" where
  "memblock_set_node base sz w nid m = do {
     (ret, start_rgn, end_rgn, m') \<leftarrow> memblock_isolate_range w base sz m;
     if ret \<noteq> 0 then Some (ret, m')
     else do {
       let t = get_table w m';
       regs \<leftarrow> update_regions (\<lambda>r. memblock_set_region_node r nid) start_rgn end_rgn (t_regions t);
       t' \<leftarrow> memblock_merge_regions (t\<lparr>t_regions := regs\<rparr>);
       Some (0, set_table w t' m') } }"

subsection \<open>Allocation\<close>

text \<open>\<^verbatim>\<open>found && !memblock_reserve(found, size)\<close>: the search and, if it succeeds, the reservation.\<close>

definition find_and_reserve ::
  "phys_addr_t \<Rightarrow> phys_addr_t \<Rightarrow> phys_addr_t \<Rightarrow> phys_addr_t \<Rightarrow> int \<Rightarrow> u32 \<Rightarrow> memblock
     \<Rightarrow> (phys_addr_t \<times> memblock) option" where
  "find_and_reserve sz align start end nid flags m = do {
     found \<leftarrow> memblock_find_in_range_node m sz align start end nid flags;
     if found = 0 then Some (0, m)
     else do {
       (ret, m') \<leftarrow> memblock_reserve found sz m;
       Some (if ret = 0 then found else 0, m') } }"

definition alloc_attempt ::
  "phys_addr_t \<Rightarrow> phys_addr_t \<Rightarrow> phys_addr_t \<Rightarrow> phys_addr_t \<Rightarrow> int \<Rightarrow> u32 \<Rightarrow> memblock
     \<Rightarrow> (phys_addr_t \<times> memblock) option" where
  "alloc_attempt sz align start end nid flags m = do {
     (found, m1) \<leftarrow> find_and_reserve sz align start end nid flags m;
     if found \<noteq> 0 then Some (found, m1)
     else if nid \<noteq> NUMA_NO_NODE then find_and_reserve sz align start end NUMA_NO_NODE flags m1
     else Some (0, m1) }"

definition memblock_alloc_range_nid ::
  "phys_addr_t \<Rightarrow> phys_addr_t \<Rightarrow> phys_addr_t \<Rightarrow> phys_addr_t \<Rightarrow> int \<Rightarrow> memblock
     \<Rightarrow> (phys_addr_t \<times> memblock) option" where
  "memblock_alloc_range_nid sz align start end nid m = do {
     let flags = choose_memblock_flags m;
     let nid = (if nid = MAX_NUMNODES then NUMA_NO_NODE else nid);
     let align = (if align = 0 then SMP_CACHE_BYTES else align);
     (found, m1) \<leftarrow> alloc_attempt sz align start end nid flags m;
     if found \<noteq> 0 then Some (found, m1)
     else if flags AND MEMBLOCK_MIRROR \<noteq> 0
     then alloc_attempt sz align start end nid (flags AND NOT MEMBLOCK_MIRROR) m1
     else Some (0, m1) }"

definition memblock_phys_alloc_range ::
  "phys_addr_t \<Rightarrow> phys_addr_t \<Rightarrow> phys_addr_t \<Rightarrow> phys_addr_t \<Rightarrow> memblock \<Rightarrow> (phys_addr_t \<times> memblock) option" where
  "memblock_phys_alloc_range sz align start end m = memblock_alloc_range_nid sz align start end NUMA_NO_NODE m"

definition memblock_phys_alloc_try_nid ::
  "phys_addr_t \<Rightarrow> phys_addr_t \<Rightarrow> int \<Rightarrow> memblock \<Rightarrow> (phys_addr_t \<times> memblock) option" where
  "memblock_phys_alloc_try_nid sz align nid m =
     memblock_alloc_range_nid sz align 0 MEMBLOCK_ALLOC_ACCESSIBLE nid m"

text \<open>\<^verbatim>\<open>slab_state >= UP\<close> and the result of \<^verbatim>\<open>kzalloc_node\<close>, which is the C library's allocator, are
  parameters. \<^verbatim>\<open>phys_to_virt\<close> is the identity (\<^verbatim>\<open>__va\<close> in \<^verbatim>\<open>include/asm-generic/page.h\<close>); a null
  pointer is 0.\<close>

definition memblock_alloc_internal ::
  "bool \<Rightarrow> (phys_addr_t \<Rightarrow> int \<Rightarrow> u64) \<Rightarrow> phys_addr_t \<Rightarrow> phys_addr_t \<Rightarrow> phys_addr_t \<Rightarrow> phys_addr_t \<Rightarrow> int
     \<Rightarrow> memblock \<Rightarrow> (u64 \<times> memblock) option" where
  "memblock_alloc_internal slab_is_available kzalloc_node sz align min_addr max_addr nid m =
     (if slab_is_available then Some (kzalloc_node sz nid, m)
      else do {
        let max_addr = (if max_addr > mb_current_limit m then mb_current_limit m else max_addr);
        (alloc, m1) \<leftarrow> memblock_alloc_range_nid sz align min_addr max_addr nid m;
        (alloc', m2) \<leftarrow> (if alloc = 0 \<and> min_addr \<noteq> 0
                         then memblock_alloc_range_nid sz align 0 max_addr nid m1 else Some (alloc, m1));
        Some (ucast alloc', m2) })"

definition memblock_alloc_try_nid_raw where
  "memblock_alloc_try_nid_raw = memblock_alloc_internal"

text \<open>The clearing of the memory is commented out in the source.\<close>

definition memblock_alloc_try_nid where
  "memblock_alloc_try_nid = memblock_alloc_internal"

subsection \<open>Sizes and limits\<close>

definition memblock_phys_mem_size :: "memblock \<Rightarrow> phys_addr_t" where
  "memblock_phys_mem_size m = t_total_size (mb_memory m)"

definition memblock_reserved_size :: "memblock \<Rightarrow> phys_addr_t" where
  "memblock_reserved_size m = t_total_size (mb_reserved m)"

definition memblock_region_memory_base_pfn :: "memblock_region \<Rightarrow> u64" where
  "memblock_region_memory_base_pfn r = PFN_UP (rg_base r)"

definition memblock_region_memory_end_pfn :: "memblock_region \<Rightarrow> u64" where
  "memblock_region_memory_end_pfn r = PFN_DOWN (rg_base r + rg_size r)"

definition memblock_region_reserved_base_pfn :: "memblock_region \<Rightarrow> u64" where
  "memblock_region_reserved_base_pfn r = PFN_DOWN (rg_base r)"

definition memblock_region_reserved_end_pfn :: "memblock_region \<Rightarrow> u64" where
  "memblock_region_reserved_end_pfn r = PFN_UP (rg_base r + rg_size r)"

text \<open>The used part of an array, for the loops of \<^verbatim>\<open>for_each_memblock\<close> that only read it.\<close>

definition used_regions :: "memblock_type \<Rightarrow> memblock_region list option" where
  "used_regions t = (if t_cnt t \<le> length (t_regions t) then Some (take (t_cnt t) (t_regions t)) else None)"

fun count_pages :: "u64 \<Rightarrow> u64 \<Rightarrow> memblock_region list \<Rightarrow> u64" where
  "count_pages limit_pfn pages [] = pages"
| "count_pages limit_pfn pages (r # rs) =
     (let start_pfn = min (memblock_region_memory_base_pfn r) limit_pfn;
          end_pfn = min (memblock_region_memory_end_pfn r) limit_pfn
      in count_pages limit_pfn (pages + (end_pfn - start_pfn)) rs)"

definition memblock_mem_size :: "u64 \<Rightarrow> memblock \<Rightarrow> phys_addr_t option" where
  "memblock_mem_size limit_pfn m = do {
     rs \<leftarrow> used_regions (mb_memory m);
     Some (PFN_PHYS (count_pages limit_pfn 0 rs)) }"

definition memblock_start_of_DRAM :: "memblock \<Rightarrow> phys_addr_t option" where
  "memblock_start_of_DRAM m = do {
     r \<leftarrow> arr_get (t_regions (mb_memory m)) 0;
     Some (rg_base r) }"

definition memblock_end_of_DRAM :: "memblock \<Rightarrow> phys_addr_t option" where
  "memblock_end_of_DRAM m = do {
     idx \<leftarrow> count_diff (t_cnt (mb_memory m)) 1;
     r \<leftarrow> arr_get (t_regions (mb_memory m)) idx;
     Some (rg_base r + rg_size r) }"

fun max_addr_of :: "phys_addr_t \<Rightarrow> memblock_region list \<Rightarrow> phys_addr_t" where
  "max_addr_of limit [] = PHYS_ADDR_MAX"
| "max_addr_of limit (r # rs) =
     (if limit \<le> rg_size r then rg_base r + limit else max_addr_of (limit - rg_size r) rs)"

definition find_max_addr :: "phys_addr_t \<Rightarrow> memblock \<Rightarrow> phys_addr_t option" where
  "find_max_addr limit m = do {
     rs \<leftarrow> used_regions (mb_memory m);
     Some (max_addr_of limit rs) }"

definition memblock_enforce_memory_limit :: "phys_addr_t \<Rightarrow> memblock \<Rightarrow> memblock option" where
  "memblock_enforce_memory_limit limit m =
     (if limit = 0 then Some m
      else do {
        max_addr \<leftarrow> find_max_addr limit m;
        if max_addr = PHYS_ADDR_MAX then Some m
        else do {
          (_, m1) \<leftarrow> memblock_remove_range Memory max_addr PHYS_ADDR_MAX m;
          (_, m2) \<leftarrow> memblock_remove_range Reserved max_addr PHYS_ADDR_MAX m1;
          Some m2 } })"

text \<open>\<^verbatim>\<open>for (i = hi - 1; i >= lo; i--) if (!memblock_is_nomap(...)) memblock_remove_region(...)\<close>.\<close>

fun remove_map_regions :: "nat \<Rightarrow> nat \<Rightarrow> memblock_type \<Rightarrow> memblock_type option" where
  "remove_map_regions lo hi t =
     (if lo < hi then do {
        r \<leftarrow> arr_get (t_regions t) (hi - 1);
        t' \<leftarrow> (if \<not> memblock_is_nomap r then memblock_remove_region t (hi - 1) else Some t);
        remove_map_regions lo (hi - 1) t' }
      else Some t)"

declare remove_map_regions.simps [simp del]

definition memblock_cap_memory_range :: "phys_addr_t \<Rightarrow> phys_addr_t \<Rightarrow> memblock \<Rightarrow> memblock option" where
  "memblock_cap_memory_range base sz m =
     (if sz = 0 then Some m
      else do {
        (ret, start_rgn, end_rgn, m1) \<leftarrow> memblock_isolate_range Memory base sz m;
        if ret \<noteq> 0 then Some m1
        else do {
          t1 \<leftarrow> remove_map_regions end_rgn (t_cnt (mb_memory m1)) (mb_memory m1);
          t2 \<leftarrow> remove_map_regions 0 start_rgn t1;
          (_, m2) \<leftarrow> memblock_remove_range Reserved 0 base (m1\<lparr>mb_memory := t2\<rparr>);
          (_, m3) \<leftarrow> memblock_remove_range Reserved (base + sz) PHYS_ADDR_MAX m2;
          Some m3 } })"

definition memblock_mem_limit_remove_map :: "phys_addr_t \<Rightarrow> memblock \<Rightarrow> memblock option" where
  "memblock_mem_limit_remove_map limit m =
     (if limit = 0 then Some m
      else do {
        max_addr \<leftarrow> find_max_addr limit m;
        if max_addr = PHYS_ADDR_MAX then Some m else memblock_cap_memory_range 0 max_addr m })"

subsection \<open>Queries\<close>

text \<open>The binary search. Its bounds are \<^verbatim>\<open>unsigned int\<close>s, and \<^verbatim>\<open>cnt\<close> is an \<^verbatim>\<open>unsigned long\<close>.\<close>

function search_loop :: "memblock_type \<Rightarrow> phys_addr_t \<Rightarrow> nat \<Rightarrow> nat \<Rightarrow> int option" where
  "search_loop t addr left right = do {
     let mid = (right + left) div 2;
     r \<leftarrow> arr_get (t_regions t) mid;
     if addr < rg_base r then (if left < mid then search_loop t addr left mid else Some (-1))
     else if addr \<ge> rg_base r + rg_size r
     then (if mid + 1 < right then search_loop t addr (mid + 1) right else Some (-1))
     else Some (int mid) }"
  by pat_completeness auto
termination
  by (relation "measure (\<lambda>(_, _, left, right). right - left)") auto

declare search_loop.simps [simp del]

definition memblock_search :: "memblock_type \<Rightarrow> phys_addr_t \<Rightarrow> int option" where
  "memblock_search t addr = search_loop t addr 0 (t_cnt t)"

definition memblock_is_reserved :: "phys_addr_t \<Rightarrow> memblock \<Rightarrow> bool option" where
  "memblock_is_reserved addr m = do {
     i \<leftarrow> memblock_search (mb_reserved m) addr;
     Some (i \<noteq> -1) }"

definition memblock_is_memory :: "phys_addr_t \<Rightarrow> memblock \<Rightarrow> bool option" where
  "memblock_is_memory addr m = do {
     i \<leftarrow> memblock_search (mb_memory m) addr;
     Some (i \<noteq> -1) }"

definition memblock_is_map_memory :: "phys_addr_t \<Rightarrow> memblock \<Rightarrow> bool option" where
  "memblock_is_map_memory addr m = do {
     i \<leftarrow> memblock_search (mb_memory m) addr;
     if i = -1 then Some False
     else do {
       r \<leftarrow> arr_get (t_regions (mb_memory m)) (nat i);
       Some (\<not> memblock_is_nomap r) } }"

definition memblock_search_pfn_nid :: "u64 \<Rightarrow> memblock \<Rightarrow> (int \<times> (u64 \<times> u64) option) option" where
  "memblock_search_pfn_nid pfn m = do {
     mid \<leftarrow> memblock_search (mb_memory m) (PFN_PHYS pfn);
     if mid = -1 then Some (-1, None)
     else do {
       r \<leftarrow> arr_get (t_regions (mb_memory m)) (nat mid);
       Some (rg_nid r, Some (PFN_DOWN (rg_base r), PFN_DOWN (rg_base r + rg_size r))) } }"

definition memblock_is_region_memory :: "phys_addr_t \<Rightarrow> phys_addr_t \<Rightarrow> memblock \<Rightarrow> bool option" where
  "memblock_is_region_memory base sz m = do {
     idx \<leftarrow> memblock_search (mb_memory m) base;
     let end = base + memblock_cap_size base sz;
     if idx = -1 then Some False
     else do {
       r \<leftarrow> arr_get (t_regions (mb_memory m)) (nat idx);
       Some (rg_base r + rg_size r \<ge> end) } }"

definition memblock_is_region_reserved :: "phys_addr_t \<Rightarrow> phys_addr_t \<Rightarrow> memblock \<Rightarrow> bool option" where
  "memblock_is_region_reserved base sz m =
     memblock_overlaps_region (mb_reserved m) base (memblock_cap_size base sz)"

subsection \<open>Trimming\<close>

text \<open>The loop of \<^verbatim>\<open>memblock_trim_memory\<close> at index \<open>i\<close>. After a removal the loop looks at the same
  index again (\<^verbatim>\<open>r--\<close>). Removing the only region leaves the dummy entry, which is aligned.\<close>

primrec trim_loop :: "nat \<Rightarrow> phys_addr_t \<Rightarrow> nat \<Rightarrow> memblock_type \<Rightarrow> memblock_type option" where
  "trim_loop 0 align i t = None"
| "trim_loop (Suc fuel) align i t =
     (if i < t_cnt t then do {
        r \<leftarrow> arr_get (t_regions t) i;
        let orig_start = rg_base r;
        let orig_end = rg_base r + rg_size r;
        let start = round_up orig_start align;
        let end = round_down orig_end align;
        if start = orig_start \<and> end = orig_end then trim_loop fuel align (i + 1) t
        else if start < end then do {
          regs \<leftarrow> arr_set (t_regions t) i (r\<lparr>rg_base := start, rg_size := end - start\<rparr>);
          trim_loop fuel align (i + 1) (t\<lparr>t_regions := regs\<rparr>) }
        else do {
          t' \<leftarrow> memblock_remove_region t i;
          trim_loop fuel align i t' } }
      else Some t)"

definition memblock_trim_memory :: "phys_addr_t \<Rightarrow> memblock \<Rightarrow> memblock option" where
  "memblock_trim_memory align m = do {
     t \<leftarrow> trim_loop (t_cnt (mb_memory m) + 2) align 0 (mb_memory m);
     Some (m\<lparr>mb_memory := t\<rparr>) }"

definition memblock_set_current_limit :: "phys_addr_t \<Rightarrow> memblock \<Rightarrow> memblock" where
  "memblock_set_current_limit limit m = m\<lparr>mb_current_limit := limit\<rparr>"

definition memblock_get_current_limit :: "memblock \<Rightarrow> phys_addr_t" where
  "memblock_get_current_limit m = mb_current_limit m"

definition memblock_allow_resize :: "memblock \<Rightarrow> memblock" where
  "memblock_allow_resize m = m\<lparr>mb_can_resize := True\<rparr>"

end
