(* ===== verification/Memblock_Table_Correct.thy ===== *)
theory Memblock_Table_Correct
  imports Memblock_Table
begin

section \<open>Correctness of the region table operations\<close>

text \<open>
  The abstraction of a table is the partial map \<open>attr\<close> from an address to the flags and node of
  the region that holds it. Every operation is first shown to act on the list of live regions
  (\<open>tbl t rs\<close>: the table \<open>t\<close> holds exactly \<open>rs\<close>), without leaving the array and without hitting
  \<^verbatim>\<open>BUG_ON\<close>, and the list functions are then related to the map.
\<close>

named_theorems region_simps \<open>ends, halves and membership of regions\<close>

subsection \<open>Regions and the abstraction\<close>

definition rg_end :: "memblock_region \<Rightarrow> phys_addr_t" where
  "rg_end r = rg_base r + rg_size r"

definition in_region :: "memblock_region \<Rightarrow> phys_addr_t \<Rightarrow> bool" where
  "in_region r x \<longleftrightarrow> rg_base r \<le> x \<and> x < rg_end r"

fun attr :: "memblock_region list \<Rightarrow> phys_addr_t \<Rightarrow> (u32 \<times> int) option" where
  "attr [] x = None"
| "attr (r # rs) x = (if in_region r x then Some (rg_flags r, rg_nid r) else attr rs x)"

definition ordered :: "memblock_region list \<Rightarrow> bool" where
  "ordered rs \<longleftrightarrow> sorted_wrt (\<lambda>a b. rg_end a \<le> rg_base b) rs \<and> (\<forall>r\<in>set rs. rg_base r < rg_end r)"

definition mergeable :: "memblock_region \<Rightarrow> memblock_region \<Rightarrow> bool" where
  "mergeable a b \<longleftrightarrow> rg_end a = rg_base b \<and> rg_nid a = rg_nid b \<and> rg_flags a = rg_flags b"

definition merged :: "memblock_region list \<Rightarrow> bool" where
  "merged rs \<longleftrightarrow> successively (\<lambda>a b. \<not> mergeable a b) rs"

definition live :: "memblock_type \<Rightarrow> memblock_region list" where
  "live t = take (t_cnt t) (t_regions t)"

definition tbl :: "memblock_type \<Rightarrow> memblock_region list \<Rightarrow> bool" where
  "tbl t rs \<longleftrightarrow> t_cnt t = length rs \<and> length (t_regions t) = t_max t \<and>
     (\<exists>tail. t_regions t = rs @ tail)"

definition same_array :: "memblock_type \<Rightarrow> memblock_type \<Rightarrow> bool" where
  "same_array t t' \<longleftrightarrow> t_max t' = t_max t \<and> t_array t' = t_array t"

definition total_of :: "memblock_region list \<Rightarrow> phys_addr_t" where
  "total_of rs = sum_list (map rg_size rs)"

lemma tbl_live: "tbl t rs \<Longrightarrow> live t = rs"
  by (auto simp: tbl_def live_def)

lemma tbl_le_max: "tbl t rs \<Longrightarrow> length rs \<le> t_max t"
  unfolding tbl_def by (metis length_append le_add1)

lemma tbl_get: "tbl t (pre @ r # rs) \<Longrightarrow> arr_get (t_regions t) (length pre) = Some r"
  by (auto simp: tbl_def arr_get_def nth_append)

lemma tbl_get2: "tbl t (pre @ r # s # rs) \<Longrightarrow> arr_get (t_regions t) (Suc (length pre)) = Some s"
  by (auto simp: tbl_def arr_get_def nth_append)

lemma tbl_cnt: "tbl t rs \<Longrightarrow> t_cnt t = length rs"
  by (simp add: tbl_def)

lemma same_array_refl [simp]: "same_array t t"
  by (simp add: same_array_def)

lemma same_array_trans [trans]: "same_array a b \<Longrightarrow> same_array b c \<Longrightarrow> same_array a c"
  by (simp add: same_array_def)

lemma same_array_max: "same_array t t' \<Longrightarrow> t_max t' = t_max t"
  by (simp add: same_array_def)

lemma ordered_Nil [simp]: "ordered []"
  by (simp add: ordered_def)

lemma ordered_Cons:
  "ordered (r # rs) \<longleftrightarrow> rg_base r < rg_end r \<and> (\<forall>s\<in>set rs. rg_end r \<le> rg_base s) \<and> ordered rs"
  by (auto simp: ordered_def)

lemma ordered_append:
  "ordered (xs @ ys) \<longleftrightarrow> ordered xs \<and> ordered ys \<and> (\<forall>x\<in>set xs. \<forall>y\<in>set ys. rg_end x \<le> rg_base y)"
  by (auto simp: ordered_def sorted_wrt_append)

lemma ordered_bounds: "ordered rs \<Longrightarrow> r \<in> set rs \<Longrightarrow> rg_base r < rg_end r"
  by (simp add: ordered_def)

lemma attr_append: "attr (xs @ ys) x = (case attr xs x of None \<Rightarrow> attr ys x | Some a \<Rightarrow> Some a)"
  by (induction xs) auto

lemma attr_None: "attr rs x = None \<longleftrightarrow> (\<forall>r\<in>set rs. \<not> in_region r x)"
  by (induction rs) auto

lemma attr_below: "(\<And>r. r \<in> set rs \<Longrightarrow> x < rg_base r) \<Longrightarrow> attr rs x = None"
  by (auto simp: attr_None in_region_def not_le)

lemma attr_above: "(\<And>r. r \<in> set rs \<Longrightarrow> rg_end r \<le> x) \<Longrightarrow> attr rs x = None"
  by (auto simp: attr_None in_region_def not_less)

lemma total_of_simps [simp]: "total_of [] = 0" "total_of (r # rs) = rg_size r + total_of rs"
  "total_of (xs @ ys) = total_of xs + total_of ys"
  by (simp_all add: total_of_def)

text \<open>The two halves of a region split at an address.\<close>

definition lower :: "memblock_region \<Rightarrow> phys_addr_t \<Rightarrow> memblock_region" where
  "lower r p = r\<lparr>rg_size := p - rg_base r\<rparr>"

definition upper :: "memblock_region \<Rightarrow> phys_addr_t \<Rightarrow> memblock_region" where
  "upper r p = r\<lparr>rg_base := p, rg_size := rg_size r - (p - rg_base r)\<rparr>"

lemma lower_upper [simp]:
  "rg_base (lower r p) = rg_base r" "rg_end (lower r p) = p"
  "rg_base (upper r p) = p" "rg_end (upper r p) = rg_end r"
  "rg_flags (lower r p) = rg_flags r" "rg_flags (upper r p) = rg_flags r"
  "rg_nid (lower r p) = rg_nid r" "rg_nid (upper r p) = rg_nid r"
  "rg_size (lower r p) + rg_size (upper r p) = rg_size r"
  by (simp_all add: lower_def upper_def rg_end_def)

lemma attr_split:
  "rg_base r \<le> p \<Longrightarrow> p \<le> rg_end r \<Longrightarrow> attr (lower r p # upper r p # rs) = attr (r # rs)"
  by (auto simp: fun_eq_iff in_region_def)

subsection \<open>Inserting and removing one region\<close>

lemma insert_region_tbl:
  assumes "tbl t (as @ bs)" "length (as @ bs) < t_max t"
  shows "\<exists>t'. memblock_insert_region t (length as) b s nid flags = Some t' \<and> same_array t t' \<and>
    tbl t' (as @ \<lparr>rg_base = b, rg_size = s, rg_flags = flags, rg_nid = nid\<rparr> # bs) \<and>
    t_total_size t' = t_total_size t + s"
proof -
  from assms(1) obtain tl where tl: "t_regions t = as @ bs @ tl"
    and cnt: "t_cnt t = length as + length bs" and mx: "length (t_regions t) = t_max t"
    by (auto simp: tbl_def)
  with assms(2) obtain c cs where "tl = c # cs" by (cases tl) auto
  with tl have regs: "t_regions t = as @ bs @ c # cs" by simp
  let ?new = "\<lparr>rg_base = b, rg_size = s, rg_flags = flags, rg_nid = nid\<rparr>"
  have moved: "memmove (length as + 1) (length as) (length bs) (t_regions t)
      = Some (as @ take 1 (bs @ [c]) @ bs @ cs)"
    using memmove_insert [of as bs c cs] by (simp add: regs)
  have "arr_set (as @ take 1 (bs @ [c]) @ bs @ cs) (length as) ?new = Some (as @ ?new # bs @ cs)"
    by (cases bs) (simp_all add: arr_set_def)
  with moved assms(2) cnt mx show ?thesis
    by (auto simp: memblock_insert_region_def same_array_def tbl_def regs)
qed

lemma remove_region_tbl:
  assumes "tbl t (as @ r # bs)"
  shows "\<exists>t'. memblock_remove_region t (length as) = Some t' \<and> same_array t t' \<and>
    tbl t' (if as = [] \<and> bs = [] then [empty_region] else as @ bs) \<and>
    t_total_size t' = t_total_size t - rg_size r"
proof -
  from assms obtain cs where regs: "t_regions t = as @ r # bs @ cs"
    and cnt: "t_cnt t = length as + length bs + 1" and mx: "length (t_regions t) = t_max t"
    by (auto simp: tbl_def)
  have moved: "memmove (length as) (length as + 1) (length bs) (t_regions t)
      = Some (as @ bs @ drop (length bs) (r # bs @ cs))"
    using memmove_remove [of as bs r cs] by (simp add: regs)
  show ?thesis
  proof (cases "as = [] \<and> bs = []")
    case True
    with regs cnt mx moved show ?thesis
      by (auto simp: memblock_remove_region_def array_simps same_array_def tbl_def Let_def
          memblock_set_region_node_def empty_region_def)
  next
    case False
    with regs cnt mx moved show ?thesis
      by (auto simp: memblock_remove_region_def array_simps same_array_def tbl_def Let_def)
  qed
qed

subsection \<open>Merging neighbouring regions\<close>

fun merge_list :: "memblock_region list \<Rightarrow> memblock_region list" where
  "merge_list (a # b # rs) =
     (if mergeable a b then merge_list (a\<lparr>rg_size := rg_size a + rg_size b\<rparr> # rs)
      else a # merge_list (b # rs))"
| "merge_list rs = rs"

lemma rg_end_merge: "mergeable a b \<Longrightarrow> rg_end (a\<lparr>rg_size := rg_size a + rg_size b\<rparr>) = rg_end b"
  by (simp add: mergeable_def rg_end_def)

lemma merge_from_tbl:
  assumes "tbl t (pre @ rs)" "sorted_wrt (\<lambda>a b. rg_end a \<le> rg_base b) rs"
  shows "\<exists>t'. memblock_merge_from (length pre) t = Some t' \<and> same_array t t' \<and>
    tbl t' (pre @ merge_list rs) \<and> t_total_size t' = t_total_size t"
  using assms
proof (induction rs arbitrary: pre t rule: merge_list.induct)
  case (1 a b rs)
  have get: "arr_get (t_regions t) (length pre) = Some a"
    "arr_get (t_regions t) (Suc (length pre)) = Some b"
    using "1.prems"(1) by (rule tbl_get, rule tbl_get2)
  from "1.prems"(1) obtain cs where regs: "t_regions t = pre @ a # b # rs @ cs"
    and cnt: "t_cnt t = length pre + length rs + 2" and mx: "length (t_regions t) = t_max t"
    by (auto simp: tbl_def)
  show ?case
  proof (cases "mergeable a b")
    case False
    have "tbl t ((pre @ [a]) @ b # rs)" using "1.prems"(1) by simp
    from "1.IH"(2) [OF False this] "1.prems"(2) obtain t' where
      "memblock_merge_from (Suc (length pre)) t = Some t'" "same_array t t'"
      "tbl t' (pre @ a # merge_list (b # rs))" "t_total_size t' = t_total_size t"
      by auto
    moreover have "\<not> rg_base b < rg_base a + rg_size a"
      using "1.prems"(2) by (simp add: rg_end_def not_less)
    ultimately show ?thesis
      using False get cnt
      by (subst memblock_merge_from.simps)
        (auto simp: mergeable_def memblock_get_region_node_def rg_end_def bug_on_def)
  next
    case True
    let ?m = "a\<lparr>rg_size := rg_size a + rg_size b\<rparr>"
    let ?regs = "pre @ ?m # rs @ drop (length rs) (b # rs @ cs)"
    let ?t = "t\<lparr>t_regions := ?regs, t_cnt := t_cnt t - 1\<rparr>"
    have moved: "memmove (length pre + 1) (length pre + 2) (length rs) (pre @ ?m # b # rs @ cs) = Some ?regs"
      using memmove_remove [of "pre @ [?m]" rs b cs] by simp
    have "tbl ?t (pre @ ?m # rs)" using cnt mx regs by (simp add: tbl_def)
    moreover have "sorted_wrt (\<lambda>a b. rg_end a \<le> rg_base b) (?m # rs)"
      using "1.prems"(2) rg_end_merge [OF True] by simp
    ultimately obtain t' where t': "memblock_merge_from (length pre) ?t = Some t'" "same_array ?t t'"
      "tbl t' (pre @ merge_list (?m # rs))" "t_total_size t' = t_total_size ?t"
      using "1.IH"(1) [OF True] by blast
    have "memblock_merge_from (length pre) t = memblock_merge_from (length pre) ?t"
      using True get cnt moved
      by (subst memblock_merge_from.simps)
        (auto simp: mergeable_def memblock_get_region_node_def rg_end_def regs arr_set_def)
    with t' True show ?thesis by (auto simp: same_array_def)
  qed
next
  case "2_1"
  then show ?case by (subst memblock_merge_from.simps) (auto simp: tbl_def)
next
  case "2_2"
  then show ?case by (subst memblock_merge_from.simps) (auto simp: tbl_def)
qed

lemma merge_list_bases: "r \<in> set (merge_list rs) \<Longrightarrow> \<exists>s\<in>set rs. rg_base r = rg_base s"
  by (induction rs rule: merge_list.induct) (auto split: if_splits)

lemma merge_list_hd: "rs \<noteq> [] \<Longrightarrow> \<exists>r rs'. merge_list rs = r # rs' \<and> rg_base r = rg_base (hd rs) \<and>
   rg_nid r = rg_nid (hd rs) \<and> rg_flags r = rg_flags (hd rs)"
  by (induction rs rule: merge_list.induct) auto

lemma merge_list_ordered: "ordered rs \<Longrightarrow> ordered (merge_list rs)"
proof (induction rs rule: merge_list.induct)
  case (1 a b rs)
  show ?case
  proof (cases "mergeable a b")
    case True
    with 1 show ?thesis
      by (auto simp: ordered_Cons rg_end_merge [OF True] mergeable_def)
  next
    case False
    with 1 show ?thesis
      by (auto simp: ordered_Cons dest!: merge_list_bases)
  qed
qed auto

lemma merge_list_attr: "ordered rs \<Longrightarrow> attr (merge_list rs) = attr rs"
proof (induction rs rule: merge_list.induct)
  case (1 a b rs)
  show ?case
  proof (cases "mergeable a b")
    case True
    let ?m = "a\<lparr>rg_size := rg_size a + rg_size b\<rparr>"
    have "ordered (?m # rs)"
      using True "1.prems" by (auto simp: ordered_Cons rg_end_merge [OF True] mergeable_def)
    with "1.IH"(1) [OF True] True have "attr (merge_list (a # b # rs)) = attr (?m # rs)"
      by (simp del: attr.simps)
    also have "\<dots> = attr (a # b # rs)"
      using True "1.prems" rg_end_merge [OF True]
      by (auto simp: fun_eq_iff in_region_def mergeable_def ordered_Cons)
    finally show ?thesis .
  next
    case False
    with 1 show ?thesis by (auto simp: ordered_Cons fun_eq_iff)
  qed
qed auto

lemma merge_list_merged: "merged (merge_list rs)"
  unfolding merged_def
proof (induction rs rule: merge_list.induct)
  case (1 a b rs)
  then show ?case
    using merge_list_hd [of "b # rs"]
    by (auto simp: successively_Cons mergeable_def)
qed auto

lemma merge_list_total: "total_of (merge_list rs) = total_of rs"
  by (induction rs rule: merge_list.induct) (auto simp: add.assoc)

lemma merge_list_Nil [simp]: "merge_list rs = [] \<longleftrightarrow> rs = []"
  by (induction rs rule: merge_list.induct) auto

lemma merge_list_id: "merged rs \<Longrightarrow> merge_list rs = rs"
  by (induction rs rule: merge_list.induct) (auto simp: merged_def)

lemma merge_regions_tbl:
  assumes "tbl t rs" "ordered rs" "rs \<noteq> []"
  shows "\<exists>t'. memblock_merge_regions t = Some t' \<and> same_array t t' \<and> tbl t' (merge_list rs) \<and>
    t_total_size t' = t_total_size t"
  using merge_from_tbl [of t "[]" rs] assms
  by (auto simp: memblock_merge_regions_def ordered_def tbl_def)

subsection \<open>Filling the gaps of a range\<close>

text \<open>What a round of \<^verbatim>\<open>memblock_add_range\<close> does to the list of regions.\<close>

definition new_region :: "phys_addr_t \<Rightarrow> phys_addr_t \<Rightarrow> int \<Rightarrow> u32 \<Rightarrow> memblock_region" where
  "new_region base en nid flags =
     \<lparr>rg_base = base, rg_size = en - base, rg_flags = flags, rg_nid = nid\<rparr>"

definition gap :: "phys_addr_t \<Rightarrow> phys_addr_t \<Rightarrow> int \<Rightarrow> u32 \<Rightarrow> memblock_region list" where
  "gap base en nid flags = (if base < en then [new_region base en nid flags] else [])"

fun fill :: "phys_addr_t \<Rightarrow> int \<Rightarrow> u32 \<Rightarrow> phys_addr_t \<Rightarrow> memblock_region list \<Rightarrow> memblock_region list" where
  "fill en nid flags base [] = gap base en nid flags"
| "fill en nid flags base (r # rs) =
     (if en \<le> rg_base r then gap base en nid flags @ r # rs
      else if rg_end r \<le> base then r # fill en nid flags base rs
      else gap base (rg_base r) nid flags @ r # fill en nid flags (min (rg_end r) en) rs)"

lemma new_region_simps [simp]:
  "rg_base (new_region b e n f) = b" "rg_end (new_region b e n f) = e"
  "rg_nid (new_region b e n f) = n" "rg_flags (new_region b e n f) = f"
  "rg_size (new_region b e n f) = e - b"
  by (simp_all add: new_region_def rg_end_def)

lemma fill_length: "length rs \<le> length (fill en nid flags base rs)"
  by (induction rs arbitrary: base) (auto simp: gap_def le_SucI)

lemma fill_full: "en \<le> base \<Longrightarrow> fill en nid flags base rs = rs"
  by (induction rs arbitrary: base) (auto simp: gap_def min_def)

lemma add_range_round_count:
  assumes "tbl t (pre @ rs)"
  shows "add_range_round False en nid flags (length pre) base k t
     = Some (k + (length (fill en nid flags base rs) - length rs), t)"
  using assms
proof (induction rs arbitrary: pre base k)
  case Nil
  then show ?case
    by (subst add_range_round.simps) (auto simp: tbl_def add_range_rest_def gap_def)
next
  case (Cons r rs)
  have get: "arr_get (t_regions t) (length pre) = Some r" using Cons.prems by (rule tbl_get)
  have cnt: "length pre < t_cnt t" using Cons.prems by (simp add: tbl_def)
  have "tbl t ((pre @ [r]) @ rs)" using Cons.prems by simp
  note IH = Cons.IH [OF this]
  show ?case
    using get cnt IH fill_length [of rs en nid flags]
    by (subst add_range_round.simps)
      (auto simp: add_range_rest_def gap_def rg_end_def Let_def Suc_diff_le trans_le_add2 not_less not_le)
qed

lemma add_range_rest_insert:
  assumes "tbl t (pre @ rs)" "length (pre @ gap base en nid flags @ rs) \<le> t_max t"
  shows "\<exists>t'. add_range_rest True en nid flags (length pre) base k t
      = Some (k + length (gap base en nid flags), t') \<and> same_array t t' \<and>
    tbl t' (pre @ gap base en nid flags @ rs) \<and>
    t_total_size t' = t_total_size t + total_of (gap base en nid flags)"
  using insert_region_tbl [of t pre rs base "en - base" nid flags] assms
  by (auto simp: add_range_rest_def gap_def new_region_def)

lemma add_range_round_insert:
  assumes "tbl t (pre @ rs)" "length (pre @ fill en nid flags base rs) \<le> t_max t"
  shows "\<exists>t' k'. add_range_round True en nid flags (length pre) base k t = Some (k', t') \<and>
    same_array t t' \<and> k' = k + (length (fill en nid flags base rs) - length rs) \<and>
    tbl t' (pre @ fill en nid flags base rs) \<and>
    t_total_size t' + total_of rs = t_total_size t + total_of (fill en nid flags base rs)"
  using assms
proof (induction rs arbitrary: pre base k t)
  case Nil
  then show ?case
    using add_range_rest_insert [of t pre "[]" base en nid flags k]
    by (subst add_range_round.simps) (auto simp: tbl_def)
next
  case (Cons r rs)
  have get: "arr_get (t_regions t) (length pre) = Some r" using Cons.prems(1) by (rule tbl_get)
  have cnt: "length pre < t_cnt t" using Cons.prems(1) by (simp add: tbl_def)
  note unfold = add_range_round.simps [of True en nid flags "length pre" base k t]
  consider (above) "en \<le> rg_base r" | (below) "rg_base r < en" "rg_end r \<le> base"
    | (gap) "rg_base r < en" "base < rg_end r" "base < rg_base r"
    | (nogap) "rg_base r < en" "base < rg_end r" "rg_base r \<le> base"
    by fastforce
  then show ?case
  proof cases
    case above
    then show ?thesis
      using add_range_rest_insert [OF Cons.prems(1), of base en nid flags k] Cons.prems(2) get cnt
      by (auto simp: unfold Let_def)
  next
    case below
    have "tbl t ((pre @ [r]) @ rs)" using Cons.prems(1) by simp
    from Cons.IH [OF this, of base k] below Cons.prems(2) get cnt show ?thesis
      by (auto simp: unfold Let_def rg_end_def algebra_simps)
  next
    case gap
    let ?new = "new_region base (rg_base r) nid flags"
    have "tbl t (pre @ (r # rs))" "length (pre @ r # rs) < t_max t"
      using Cons.prems gap fill_length [of rs en nid flags "min (rg_end r) en"]
      by (auto simp: gap_def split: if_splits)
    from insert_region_tbl [OF this, of base "rg_base r - base" nid flags]
    obtain t1 where t1: "memblock_insert_region t (length pre) base (rg_base r - base) nid flags = Some t1"
      "same_array t t1" "tbl t1 (pre @ ?new # r # rs)" "t_total_size t1 = t_total_size t + (rg_base r - base)"
      by (auto simp: new_region_def)
    have room: "Suc (Suc (length pre + length (fill en nid flags (min (rg_end r) en) rs))) \<le> t_max t"
      using Cons.prems(2) gap by (auto simp: gap_def split: if_splits)
    have "tbl t1 ((pre @ [?new, r]) @ rs)" using t1(3) by simp
    from Cons.IH [OF this, of "min (rg_end r) en" "k + 1"] room gap t1(2)
    obtain t' where t': "add_range_round True en nid flags (Suc (Suc (length pre))) (min (rg_end r) en) (k + 1) t1
        = Some (k + 1 + (length (fill en nid flags (min (rg_end r) en) rs) - length rs), t')"
      "same_array t1 t'" "tbl t' ((pre @ [?new, r]) @ fill en nid flags (min (rg_end r) en) rs)"
      "t_total_size t' + total_of rs = t_total_size t1 + total_of (fill en nid flags (min (rg_end r) en) rs)"
      by (auto simp: gap_def same_array_def)
    have "same_array t t'" using t1(2) t'(2) by (rule same_array_trans)
    with t1 t' gap get cnt fill_length [of rs en nid flags "min (rg_end r) en"] show ?thesis
      by (auto simp: unfold Let_def rg_end_def gap_def not_le algebra_simps)
  next
    case nogap
    have room: "Suc (length pre + length (fill en nid flags (min (rg_end r) en) rs)) \<le> t_max t"
      using Cons.prems(2) nogap by (auto simp: gap_def split: if_splits)
    have "tbl t ((pre @ [r]) @ rs)" using Cons.prems(1) by simp
    from Cons.IH [OF this, of "min (rg_end r) en" k] nogap room get cnt show ?thesis
      by (auto simp: unfold Let_def rg_end_def gap_def not_le not_less algebra_simps)
  qed
qed

lemma fill_bases:
  "r \<in> set (fill en nid flags base rs) \<Longrightarrow> lb \<le> base \<Longrightarrow> (\<And>s. s \<in> set rs \<Longrightarrow> lb \<le> rg_base s) \<Longrightarrow>
     lb \<le> en \<Longrightarrow> (\<And>s. s \<in> set rs \<Longrightarrow> lb \<le> rg_end s) \<Longrightarrow> lb \<le> rg_base r"
proof (induction rs arbitrary: base)
  case (Cons s rs)
  then show ?case by (fastforce simp: gap_def split: if_splits)
qed (auto simp: gap_def split: if_splits)

lemma fill_ordered: "ordered rs \<Longrightarrow> ordered (fill en nid flags base rs)"
proof (induction rs arbitrary: base)
  case Nil
  then show ?case by (auto simp: gap_def ordered_Cons)
next
  case (Cons r rs)
  have r: "rg_base r < rg_end r" "ordered rs" "\<And>s. s \<in> set rs \<Longrightarrow> rg_end r \<le> rg_base s"
    using Cons.prems by (auto simp: ordered_Cons)
  have ends: "rg_end r \<le> rg_end s" if "s \<in> set rs" for s
    using r(3) [OF that] ordered_bounds [OF r(2) that] by simp
  have above: "rg_end r \<le> rg_base s"
    if "s \<in> set (fill en nid flags b rs)" "rg_end r \<le> b" "rg_end r \<le> en" for s b
    using fill_bases [OF that(1,2) r(3) that(3) ends] by blast
  have tail: "ordered (r # fill en nid flags (min (rg_end r) en) rs)"
  proof (cases "rg_end r \<le> en")
    case True
    with above Cons.IH [OF r(2)] r(1) show ?thesis by (auto simp: ordered_Cons min_def)
  next
    case False
    then show ?thesis using Cons.prems by (simp add: min_def fill_full)
  qed
  have gap_tail: "ordered (gap base (rg_base r) nid flags @ r # xs)" if "ordered (r # xs)" for xs
    using that r(1) by (auto simp: gap_def ordered_Cons)
  consider "en \<le> rg_base r" | "rg_base r < en" "rg_end r \<le> base" | "rg_base r < en" "base < rg_end r"
    by fastforce
  then show ?case
  proof cases
    case 1
    with Cons.prems show ?thesis by (auto simp: gap_def ordered_Cons)
  next
    case 2
    show ?thesis
    proof (cases "base < en")
      case True
      with 2 above Cons.IH [OF r(2)] r(1) show ?thesis by (auto simp: ordered_Cons)
    next
      case False
      with Cons.prems show ?thesis by (subst fill_full) auto
    qed
  next
    case 3
    with gap_tail [OF tail] show ?thesis by (auto simp: not_le [symmetric])
  qed
qed

lemma fill_attr:
  assumes "ordered rs"
  shows "attr (fill en nid flags base rs) x =
    (case attr rs x of Some a \<Rightarrow> Some a
     | None \<Rightarrow> if base \<le> x \<and> x < en then Some (flags, nid) else None)"
  using assms
proof (induction rs arbitrary: base)
  case Nil
  then show ?case by (auto simp: gap_def in_region_def)
next
  case (Cons r rs)
  have r: "rg_base r < rg_end r" "ordered rs" "\<And>s. s \<in> set rs \<Longrightarrow> rg_end r \<le> rg_base s"
    using Cons.prems by (auto simp: ordered_Cons)
  have low: "attr rs x = None" if "x < rg_end r" using r(3) that by (intro attr_below) fastforce
  show ?case
    using Cons.IH [OF r(2)] r(1) low
    by (auto simp: gap_def in_region_def min_def split: option.splits)
qed

end
