(* ===== verification/Memblock_Isolate.thy ===== *)
theory Memblock_Isolate
  imports Memblock_Table_Correct
begin

section \<open>Isolating and removing a range\<close>

text \<open>
  The splitting loop of \<^verbatim>\<open>memblock_isolate_range\<close> cuts the regions at the two ends of a range and
  returns the indices of the regions inside it; the removal loops delete regions by index.
\<close>

subsection \<open>What the loop does to the list of regions\<close>

fun iso_mid :: "phys_addr_t \<Rightarrow> memblock_region list \<Rightarrow> memblock_region list \<times> memblock_region list" where
  "iso_mid en [] = ([], [])"
| "iso_mid en (r # rs) =
     (if en \<le> rg_base r then ([], r # rs)
      else if en < rg_end r then ([lower r en], upper r en # rs)
      else (case iso_mid en rs of (mid, high) \<Rightarrow> (r # mid, high)))"

fun iso :: "phys_addr_t \<Rightarrow> phys_addr_t \<Rightarrow> memblock_region list
    \<Rightarrow> memblock_region list \<times> memblock_region list \<times> memblock_region list" where
  "iso base en [] = ([], [], [])"
| "iso base en (r # rs) =
     (if en \<le> rg_base r then ([], [], r # rs)
      else if rg_end r \<le> base then (case iso base en rs of (low, mid, high) \<Rightarrow> (r # low, mid, high))
      else if rg_base r < base then
        (case iso_mid en (upper r base # rs) of (mid, high) \<Rightarrow> ([lower r base], mid, high))
      else (case iso_mid en (r # rs) of (mid, high) \<Rightarrow> ([], mid, high)))"

lemma split_tbl:
  assumes "tbl t (pre @ r # rs)" "length (pre @ r # rs) < t_max t"
  shows "\<exists>regs t'. arr_set (t_regions t) (length pre)
      (r\<lparr>rg_base := p, rg_size := rg_size r - (p - rg_base r)\<rparr>) = Some regs \<and>
    memblock_insert_region (t\<lparr>t_regions := regs, t_total_size := t_total_size t - (p - rg_base r)\<rparr>)
      (length pre) (rg_base r) (p - rg_base r) (memblock_get_region_node r) (rg_flags r) = Some t' \<and>
    same_array t t' \<and> tbl t' (pre @ lower r p # upper r p # rs) \<and> t_total_size t' = t_total_size t"
proof -
  from assms obtain cs where regs: "t_regions t = pre @ r # rs @ cs"
    and cnt: "t_cnt t = length pre + length rs + 1" and mx: "length (t_regions t) = t_max t"
    by (auto simp: tbl_def)
  let ?regs = "pre @ upper r p # rs @ cs"
  let ?t = "t\<lparr>t_regions := ?regs, t_total_size := t_total_size t - (p - rg_base r)\<rparr>"
  have set: "arr_set (t_regions t) (length pre)
      (r\<lparr>rg_base := p, rg_size := rg_size r - (p - rg_base r)\<rparr>) = Some ?regs"
    by (simp add: arr_set_def regs upper_def)
  have low: "\<lparr>rg_base = rg_base r, rg_size = p - rg_base r, rg_flags = rg_flags r,
      rg_nid = memblock_get_region_node r\<rparr> = lower r p"
    by (simp add: lower_def memblock_get_region_node_def)
  have "tbl ?t (pre @ upper r p # rs)" "length (pre @ upper r p # rs) < t_max ?t"
    using assms regs cnt mx by (auto simp: tbl_def)
  from insert_region_tbl [OF this, of "rg_base r" "p - rg_base r" "memblock_get_region_node r" "rg_flags r"]
  show ?thesis using set by (auto simp: low same_array_def)
qed

text \<open>One lemma per branch of the loop body.\<close>

lemma isolate_end:
  assumes "tbl t pre" shows "isolate_loop base en (length pre) s e t = Some (s, e, t)"
  using assms by (subst isolate_loop.simps) (simp add: tbl_def)

lemma isolate_above:
  assumes "tbl t (pre @ r # rs)" "en \<le> rg_base r"
  shows "isolate_loop base en (length pre) s e t = Some (s, e, t)"
  using tbl_get [OF assms(1)] tbl_cnt [OF assms(1)] assms(2)
  by (subst isolate_loop.simps) (simp add: Let_def)

lemma isolate_below:
  assumes "tbl t (pre @ r # rs)" "rg_base r < en" "rg_end r \<le> base"
  shows "isolate_loop base en (length pre) s e t = isolate_loop base en (Suc (length pre)) s e t"
  using tbl_get [OF assms(1)] tbl_cnt [OF assms(1)] assms(2,3)
  by (subst isolate_loop.simps) (simp add: Let_def rg_end_def word_order)

lemma isolate_inside:
  assumes "tbl t (pre @ r # rs)" "base \<le> rg_base r" "rg_base r < en" "base < rg_end r" "rg_end r \<le> en"
  shows "isolate_loop base en (length pre) s e t =
    isolate_loop base en (Suc (length pre)) (if e = 0 then length pre else s) (Suc (length pre)) t"
  using tbl_get [OF assms(1)] tbl_cnt [OF assms(1)] assms(2-)
  by (subst isolate_loop.simps) (simp add: Let_def rg_end_def word_order)

lemma isolate_split_low:
  assumes "tbl t (pre @ r # rs)" "length (pre @ r # rs) < t_max t"
    "rg_base r < base" "rg_base r < en" "base < rg_end r"
  shows "\<exists>t'. isolate_loop base en (length pre) s e t = isolate_loop base en (Suc (length pre)) s e t' \<and>
    same_array t t' \<and> tbl t' (pre @ lower r base # upper r base # rs) \<and> t_total_size t' = t_total_size t"
proof -
  from split_tbl [OF assms(1,2), of base] obtain regs t' where
    "arr_set (t_regions t) (length pre) (r\<lparr>rg_base := base, rg_size := rg_size r - (base - rg_base r)\<rparr>) = Some regs"
    "memblock_insert_region (t\<lparr>t_regions := regs, t_total_size := t_total_size t - (base - rg_base r)\<rparr>)
       (length pre) (rg_base r) (base - rg_base r) (memblock_get_region_node r) (rg_flags r) = Some t'"
    and rest: "same_array t t'" "tbl t' (pre @ lower r base # upper r base # rs)" "t_total_size t' = t_total_size t"
    by blast
  then have "isolate_loop base en (length pre) s e t = isolate_loop base en (Suc (length pre)) s e t'"
    using tbl_get [OF assms(1)] tbl_cnt [OF assms(1)] assms(3-)
    by (subst isolate_loop.simps) (simp add: Let_def rg_end_def word_order)
  with rest show ?thesis by blast
qed

lemma isolate_split_high:
  assumes "tbl t (pre @ r # rs)" "length (pre @ r # rs) < t_max t"
    "base \<le> rg_base r" "rg_base r < en" "en < rg_end r"
  shows "\<exists>t'. isolate_loop base en (length pre) s e t = isolate_loop base en (length pre) s e t' \<and>
    same_array t t' \<and> tbl t' (pre @ lower r en # upper r en # rs) \<and> t_total_size t' = t_total_size t"
proof -
  from split_tbl [OF assms(1,2), of en] obtain regs t' where
    "arr_set (t_regions t) (length pre) (r\<lparr>rg_base := en, rg_size := rg_size r - (en - rg_base r)\<rparr>) = Some regs"
    "memblock_insert_region (t\<lparr>t_regions := regs, t_total_size := t_total_size t - (en - rg_base r)\<rparr>)
       (length pre) (rg_base r) (en - rg_base r) (memblock_get_region_node r) (rg_flags r) = Some t'"
    and rest: "same_array t t'" "tbl t' (pre @ lower r en # upper r en # rs)" "t_total_size t' = t_total_size t"
    by blast
  moreover have "\<not> en \<le> rg_base r" "\<not> rg_end r \<le> base" "\<not> rg_base r < base" using assms(3-) by auto
  ultimately have "isolate_loop base en (length pre) s e t = isolate_loop base en (length pre) s e t'"
    using tbl_get [OF assms(1)] tbl_cnt [OF assms(1)] assms(5)
    by (subst isolate_loop.simps) (simp add: Let_def rg_end_def)
  with rest show ?thesis by blast
qed

subsection \<open>The whole loop\<close>

lemma isolate_mid_loop:
  assumes "tbl t (pre @ rs)" "ordered rs" "\<And>r. r \<in> set rs \<Longrightarrow> base \<le> rg_base r" "base < en"
    "iso_mid en rs = (mid, high)" "length (pre @ mid @ high) \<le> t_max t"
  shows "\<exists>t'. isolate_loop base en (length pre) s e t =
      Some (if mid = [] \<or> e \<noteq> 0 then s else length pre,
            if mid = [] then e else length pre + length mid, t') \<and>
    same_array t t' \<and> tbl t' (pre @ mid @ high) \<and> t_total_size t' = t_total_size t"
  using assms
proof (induction rs arbitrary: pre t s e mid high)
  case Nil
  then show ?case using isolate_end [of t pre] by simp
next
  case (Cons r rs)
  have r: "rg_base r < rg_end r" "base \<le> rg_base r" using Cons.prems by (auto simp: ordered_Cons)
  then have br: "base < rg_end r" by simp
  consider (above) "en \<le> rg_base r" | (split) "rg_base r < en" "en < rg_end r"
    | (inside) "rg_base r < en" "rg_end r \<le> en" by fastforce
  then show ?case
  proof cases
    case above
    with Cons.prems show ?thesis using isolate_above [OF Cons.prems(1) above] by auto
  next
    case split
    then have mid: "mid = [lower r en]" "high = upper r en # rs" using Cons.prems(5) by (auto simp: word_order)
    have "length (pre @ r # rs) < t_max t" using Cons.prems(6) mid by simp
    from isolate_split_high [OF Cons.prems(1) this r(2) split, of s e] obtain t' where
      t': "isolate_loop base en (length pre) s e t = isolate_loop base en (length pre) s e t'"
      "same_array t t'" "tbl t' (pre @ lower r en # upper r en # rs)" "t_total_size t' = t_total_size t"
      by blast
    have "tbl t' ((pre @ [lower r en]) @ upper r en # rs)" using t'(3) by simp
    from isolate_above [OF this, of en base] isolate_inside [OF t'(3), of base en s e] t' split r br
      Cons.prems(4) mid
    show ?thesis by auto
  next
    case inside
    obtain mid' where mid: "mid = r # mid'" "iso_mid en rs = (mid', high)"
      using Cons.prems(5) inside by (auto split: prod.splits if_splits)
    have "tbl t ((pre @ [r]) @ rs)" using Cons.prems(1) by simp
    from Cons.IH [OF this, of mid' high "if e = 0 then length pre else s" "Suc (length pre)"] Cons.prems mid
    show ?thesis
      using isolate_inside [OF Cons.prems(1) r(2) inside(1) br inside(2), of s e]
      by (auto simp: ordered_Cons split: if_splits)
  qed
qed

lemma iso_mid_length: "iso_mid en rs = (mid, high) \<Longrightarrow> length rs \<le> length mid + length high"
  by (induction rs arbitrary: mid high) (auto split: if_splits prod.splits)

lemma isolate_loop_iso:
  assumes "tbl t (pre @ rs)" "ordered rs" "base < en"
    "iso base en rs = (low, mid, high)" "length (pre @ low @ mid @ high) \<le> t_max t"
  shows "\<exists>t'. isolate_loop base en (length pre) 0 0 t =
      Some (if mid = [] then 0 else length pre + length low,
            if mid = [] then 0 else length pre + length low + length mid, t') \<and>
    same_array t t' \<and> tbl t' (pre @ low @ mid @ high) \<and> t_total_size t' = t_total_size t"
  using assms
proof (induction rs arbitrary: pre t low mid high)
  case Nil
  then show ?case using isolate_end [of t pre] by simp
next
  case (Cons r rs)
  have rs: "rg_base r < rg_end r" "ordered rs" "\<And>s. s \<in> set rs \<Longrightarrow> rg_end r \<le> rg_base s"
    using Cons.prems(2) by (auto simp: ordered_Cons)
  consider (above) "en \<le> rg_base r" | (below) "rg_base r < en" "rg_end r \<le> base"
    | (split) "rg_base r < en" "base < rg_end r" "rg_base r < base"
    | (mid) "rg_base r < en" "base < rg_end r" "base \<le> rg_base r" by fastforce
  then show ?case
  proof cases
    case above
    with Cons.prems isolate_above [OF Cons.prems(1) above] show ?thesis by auto
  next
    case below
    then obtain low' where low: "low = r # low'" "iso base en rs = (low', mid, high)"
      using Cons.prems(4) by (auto split: prod.splits if_splits)
    have "tbl t ((pre @ [r]) @ rs)" using Cons.prems(1) by simp
    from Cons.IH [OF this rs(2) Cons.prems(3) low(2)] Cons.prems(5) low(1)
    show ?thesis using isolate_below [OF Cons.prems(1) below] by auto
  next
    case split
    then have low: "low = [lower r base]" and im: "iso_mid en (upper r base # rs) = (mid, high)"
      using Cons.prems(4) by (auto split: prod.splits if_splits)
    have "length (pre @ r # rs) < t_max t"
      using Cons.prems(5) low iso_mid_length [OF im] by simp
    from isolate_split_low [OF Cons.prems(1) this split(3,1,2)] obtain t' where
      t': "isolate_loop base en (length pre) 0 0 t = isolate_loop base en (Suc (length pre)) 0 0 t'"
      "same_array t t'" "tbl t' (pre @ lower r base # upper r base # rs)" "t_total_size t' = t_total_size t"
      by blast
    have "tbl t' ((pre @ [lower r base]) @ upper r base # rs)" using t'(3) by simp
    moreover have "ordered (upper r base # rs)" using Cons.prems(2) split by (auto simp: ordered_Cons)
    moreover have "base \<le> rg_base s" if "s \<in> set (upper r base # rs)" for s
      using that split rs(3) by fastforce
    ultimately show ?thesis
      using isolate_mid_loop [of t' "pre @ [lower r base]" "upper r base # rs" base en mid high 0 0]
        t' im Cons.prems(3,5) low same_array_trans [OF t'(2)]
      by (auto simp: same_array_max)
  next
    case mid
    then have low: "low = []" and im: "iso_mid en (r # rs) = (mid, high)"
      using Cons.prems(4) by (auto split: prod.splits if_splits)
    have "base \<le> rg_base s" if "s \<in> set (r # rs)" for s
      using that mid rs(3) by fastforce
    from isolate_mid_loop [OF Cons.prems(1,2) this Cons.prems(3) im, of 0 0] Cons.prems(5) low
    show ?thesis by auto
  qed
qed

subsection \<open>What isolating means\<close>

lemma iso_mid_props:
  assumes "ordered rs" "iso_mid en rs = (mid, high)"
  shows "attr (mid @ high) = attr rs \<and> total_of (mid @ high) = total_of rs \<and>
    ordered (mid @ high) \<and> (\<forall>r\<in>set mid. rg_end r \<le> en) \<and> (\<forall>r\<in>set high. en \<le> rg_base r) \<and>
    length (mid @ high) \<le> length rs + 1 \<and>
    (\<forall>lb. (\<forall>r\<in>set rs. lb \<le> rg_base r) \<longrightarrow> lb \<le> en \<longrightarrow> (\<forall>r\<in>set (mid @ high). lb \<le> rg_base r))"
  using assms
proof (induction rs arbitrary: mid high)
  case (Cons r rs)
  have rs: "rg_base r < rg_end r" "ordered rs" "\<And>s. s \<in> set rs \<Longrightarrow> rg_end r \<le> rg_base s"
    using Cons.prems(1) by (auto simp: ordered_Cons)
  consider (above) "en \<le> rg_base r" | (split) "rg_base r < en" "en < rg_end r"
    | (inside) "rg_base r < en" "rg_end r \<le> en" by fastforce
  then show ?case
  proof cases
    case above
    with Cons.prems(2) have "mid = []" "high = r # rs" by auto
    with above Cons.prems rs show ?thesis by (fastforce simp: ordered_Cons)
  next
    case split
    with Cons.prems(2) have eqs: "mid = [lower r en]" "high = upper r en # rs"
      by (auto simp: word_order)
    have attr: "attr (mid @ high) = attr (r # rs)"
      using attr_split [of r en rs] split by (simp add: eqs del: attr.simps)
    have "total_of (mid @ high) = total_of (r # rs)"
      using lower_upper(9) [of r en] by (simp add: eqs add.assoc [symmetric])
    with attr split rs Cons.prems(1) show ?thesis by (fastforce simp: eqs ordered_Cons)
  next
    case inside
    then obtain mid' where mid: "mid = r # mid'" "iso_mid en rs = (mid', high)"
      using Cons.prems(2) by (auto split: prod.splits if_splits)
    note IH = Cons.IH [OF rs(2) mid(2)]
    have "\<forall>s\<in>set (mid' @ high). rg_end r \<le> rg_base s" using IH rs(3) inside(2) by blast
    with IH inside rs mid(1) show ?thesis by (auto simp: ordered_Cons fun_eq_iff)
  qed
qed simp

lemmas iso_mid_facts =
  iso_mid_props [THEN conjunct1]
  iso_mid_props [THEN conjunct2, THEN conjunct1]
  iso_mid_props [THEN conjunct2, THEN conjunct2, THEN conjunct1]
  iso_mid_props [THEN conjunct2, THEN conjunct2, THEN conjunct2, THEN conjunct1]
  iso_mid_props [THEN conjunct2, THEN conjunct2, THEN conjunct2, THEN conjunct2, THEN conjunct1]
  iso_mid_props [THEN conjunct2, THEN conjunct2, THEN conjunct2, THEN conjunct2, THEN conjunct2, THEN conjunct1]
  iso_mid_props [THEN conjunct2, THEN conjunct2, THEN conjunct2, THEN conjunct2, THEN conjunct2, THEN conjunct2]

lemma iso_props:
  assumes "ordered rs" "base < en" "iso base en rs = (low, mid, high)"
  shows "attr (low @ mid @ high) = attr rs \<and> total_of (low @ mid @ high) = total_of rs \<and>
    ordered (low @ mid @ high) \<and> (\<forall>r\<in>set low. rg_end r \<le> base) \<and>
    (\<forall>r\<in>set mid. base \<le> rg_base r \<and> rg_end r \<le> en) \<and> (\<forall>r\<in>set high. en \<le> rg_base r) \<and>
    length (low @ mid @ high) \<le> length rs + 2 \<and>
    (\<forall>lb. (\<forall>r\<in>set rs. lb \<le> rg_base r) \<longrightarrow> lb \<le> en \<longrightarrow> (\<forall>r\<in>set (low @ mid @ high). lb \<le> rg_base r))"
  using assms
proof (induction rs arbitrary: low mid high)
  case (Cons r rs)
  have rs: "rg_base r < rg_end r" "ordered rs" "\<And>s. s \<in> set rs \<Longrightarrow> rg_end r \<le> rg_base s"
    using Cons.prems(1) by (auto simp: ordered_Cons)
  consider (above) "en \<le> rg_base r" | (below) "rg_base r < en" "rg_end r \<le> base"
    | (split) "rg_base r < en" "base < rg_end r" "rg_base r < base"
    | (mid) "rg_base r < en" "base < rg_end r" "base \<le> rg_base r" by fastforce
  then show ?case
  proof cases
    case above
    with Cons.prems(3) have "low = []" "mid = []" "high = r # rs" by auto
    with above Cons.prems rs show ?thesis by (fastforce simp: ordered_Cons)
  next
    case below
    then obtain low' where low: "low = r # low'" "iso base en rs = (low', mid, high)"
      using Cons.prems(3) by (auto split: prod.splits if_splits)
    note IH = Cons.IH [OF rs(2) Cons.prems(2) low(2)]
    have "rg_end r \<le> en" using below(2) Cons.prems(2) by simp
    then have "\<forall>s\<in>set (low' @ mid @ high). rg_end r \<le> rg_base s" using IH rs(3) by blast
    with IH below rs low(1) show ?thesis by (auto simp: ordered_Cons fun_eq_iff)
  next
    case split
    then have low: "low = [lower r base]" and im: "iso_mid en (upper r base # rs) = (mid, high)"
      using Cons.prems(3) by (auto split: prod.splits if_splits)
    have "ordered (upper r base # rs)" using Cons.prems(1) split by (auto simp: ordered_Cons)
    note M = iso_mid_props [OF this im]
    have ge: "\<forall>s\<in>set (mid @ high). base \<le> rg_base s"
    proof -
      have "\<forall>s\<in>set (upper r base # rs). base \<le> rg_base s" using split rs(3) by fastforce
      with M Cons.prems(2) show ?thesis by (meson less_imp_le)
    qed
    have "attr ([lower r base] @ (mid @ high)) = attr ([lower r base] @ (upper r base # rs))"
      by (rule ext) (simp only: attr_append [of "[lower r base]"] conjunct1 [OF M])
    then have attr: "attr (low @ mid @ high) = attr (r # rs)"
      using attr_split [of r base rs] split by (simp add: low del: attr.simps)
    have tot: "total_of (low @ mid @ high) = total_of (r # rs)"
      using lower_upper(9) [of r base] M by (simp add: low add.assoc [symmetric])
    have ord: "ordered (low @ mid @ high)"
      using M ge split(3) by (auto simp: low ordered_Cons)
    have lb: "\<forall>s\<in>set (low @ mid @ high). lb \<le> rg_base s"
      if "\<forall>s\<in>set (r # rs). lb \<le> rg_base s" for lb
    proof -
      have "lb \<le> base" using that split(3) by auto
      with that ge show ?thesis by (auto simp: low intro: order_trans)
    qed
    have len: "length (low @ mid @ high) \<le> length (r # rs) + 2" using M by (simp add: low)
    have "\<forall>s\<in>set low. rg_end s \<le> base" by (simp add: low)
    moreover have "\<forall>s\<in>set mid. base \<le> rg_base s \<and> rg_end s \<le> en" "\<forall>s\<in>set high. en \<le> rg_base s"
      using M ge by auto
    ultimately show ?thesis using attr tot ord lb len by blast
  next
    case mid
    then have low: "low = []" and im: "iso_mid en (r # rs) = (mid, high)"
      using Cons.prems(3) by (auto split: prod.splits if_splits)
    note M = iso_mid_facts [OF Cons.prems(1) im]
    have pre: "base \<le> rg_base s" if "s \<in> set (r # rs)" for s using that mid rs(3) by fastforce
    have ge: "\<forall>s\<in>set (mid @ high). base \<le> rg_base s"
      using M(7) [rule_format, OF pre] Cons.prems(2) by (simp del: set_append)
    have "\<forall>s\<in>set mid. base \<le> rg_base s \<and> rg_end s \<le> en" using M(4) ge by simp
    moreover have "length (mid @ high) \<le> length (r # rs) + 2" using M(6) by simp
    moreover have "\<forall>s\<in>set low. rg_end s \<le> base" by (simp add: low)
    ultimately show ?thesis unfolding low append_Nil using M(1,2,3,5,7) by (intro conjI)
  qed
qed simp

text \<open>Addresses below, inside and above the range.\<close>

lemma attr_parts:
  assumes "base \<le> en" "\<forall>r\<in>set low. rg_end r \<le> base" "\<forall>r\<in>set mid. base \<le> rg_base r \<and> rg_end r \<le> en"
    "\<forall>r\<in>set high. en \<le> rg_base r"
  shows "attr (low @ mid @ high) x =
    (if x < base then attr low x else if x < en then attr mid x else attr high x)"
proof -
  have "attr low x = None" if "base \<le> x" using assms(2) that by (intro attr_above) fastforce
  moreover have "attr mid x = None" if "x < base" using assms(3) that by (intro attr_below) fastforce
  moreover have "attr mid x = None" if "en \<le> x" using assms(3) that by (intro attr_above) fastforce
  moreover have "attr high x = None" if "x < en" using assms(4) that by (intro attr_below) fastforce
  ultimately show ?thesis
    using assms(1) by (auto simp: attr_append not_less split: option.splits)
qed

lemma attr_update:
  assumes "\<And>r. rg_base (f r) = rg_base r" "\<And>r. rg_size (f r) = rg_size r"
    "\<And>r. (rg_flags (f r), rg_nid (f r)) = g (rg_flags r, rg_nid r)"
  shows "attr (map f rs) x = map_option g (attr rs x)"
  using assms by (induction rs) (auto simp: in_region_def rg_end_def)

subsection \<open>Removing a block of regions\<close>

lemma remove_regions_down_tbl:
  assumes "tbl t (low @ mid @ high)"
  shows "\<exists>t'. remove_regions_down (length low) (length low + length mid) t = Some t' \<and> same_array t t' \<and>
    tbl t' (if mid \<noteq> [] \<and> low = [] \<and> high = [] then [empty_region] else low @ high) \<and>
    t_total_size t' = t_total_size t - total_of mid"
  using assms
proof (induction mid arbitrary: t high rule: rev_induct)
  case Nil
  then show ?case by (subst remove_regions_down.simps) simp
next
  case (snoc r mid)
  have "tbl t ((low @ mid) @ r # high)" using snoc.prems by simp
  from remove_region_tbl [OF this] obtain t1 where
    t1: "memblock_remove_region t (length low + length mid) = Some t1" "same_array t t1"
    "tbl t1 (if low @ mid = [] \<and> high = [] then [empty_region] else (low @ mid) @ high)"
    "t_total_size t1 = t_total_size t - rg_size r"
    by auto
  have step: "remove_regions_down (length low) (length low + length (mid @ [r])) t
      = remove_regions_down (length low) (length low + length mid) t1"
    using t1(1) by (subst remove_regions_down.simps) simp
  show ?case
  proof (cases "low @ mid = [] \<and> high = []")
    case True
    with t1 step show ?thesis by (subst (asm) remove_regions_down.simps) (simp add: remove_regions_down.simps)
  next
    case False
    then have "tbl t1 (low @ mid @ high)" using t1(3) by (simp split: if_splits)
    from snoc.IH [OF this] False t1(2,4) step show ?thesis
      by (auto simp: algebra_simps intro: same_array_trans split: if_splits)
  qed
qed

end
