(* ===== verification/Memblock_Iter_Correct.thy ===== *)
theory Memblock_Iter_Correct
  imports Memblock_Iter Memblock_Table_Correct
begin

section \<open>The iterators enumerate exactly the free memory\<close>

text \<open>
  Both tables are only required to be weakly ordered, so that the empty entry of an empty table
  is covered. The areas before, between and behind the excluded regions are numbered as in the
  source. \<open>cov_rev\<close> is the free memory a backward iteration has still to visit, \<open>cov_fwd\<close> that of
  a forward iteration: each call of the iterator splits one range off it.
\<close>

definition weak_ordered :: "memblock_region list \<Rightarrow> bool" where
  "weak_ordered rs \<longleftrightarrow>
     sorted_wrt (\<lambda>a b. rg_end a \<le> rg_base b) rs \<and> (\<forall>r\<in>set rs. rg_base r \<le> rg_end r)"

lemma ordered_weak: "ordered rs \<Longrightarrow> weak_ordered rs"
  by (auto simp: ordered_def weak_ordered_def)

lemma weak_ordered_empty [simp]: "weak_ordered [empty_region]"
  by (simp add: weak_ordered_def empty_region_def rg_end_def)

definition area_start :: "memblock_region list \<Rightarrow> int \<Rightarrow> phys_addr_t" where
  "area_start rs b = (if b = 0 then 0 else rg_end (rs ! nat (b - 1)))"

definition area_end :: "memblock_region list \<Rightarrow> int \<Rightarrow> phys_addr_t" where
  "area_end rs b = (if b < int (length rs) then rg_base (rs ! nat b) else PHYS_ADDR_MAX)"

definition in_area :: "memblock_region list \<Rightarrow> int \<Rightarrow> phys_addr_t \<Rightarrow> bool" where
  "in_area rs b x \<longleftrightarrow> area_start rs b \<le> x \<and> x < area_end rs b"

lemma PHYS_ADDR_MAX_greatest [simp]: "x \<le> PHYS_ADDR_MAX"
  by (simp add: PHYS_ADDR_MAX_def)

lemma area_before_tbl:
  assumes "tbl t rs" "0 \<le> b" "b \<le> int (length rs)"
  shows "area_before t b = Some (area_start rs b, area_end rs b)"
proof -
  have get: "arr_get (t_regions t) i = Some (rs ! i)" if "i < length rs" for i
    using assms(1) that by (auto simp: tbl_def arr_get_def nth_append)
  show ?thesis
    using assms get [of "nat (b - 1)"] get [of "nat b"]
    by (auto simp: area_before_def area_start_def area_end_def rg_end_def tbl_cnt nat_less_iff)
qed

lemma weak_ordered_nth:
  assumes "weak_ordered rs" "i \<le> j" "j < length rs"
  shows "rg_base (rs ! i) \<le> rg_base (rs ! j)" "rg_end (rs ! i) \<le> rg_end (rs ! j)"
    "rg_base (rs ! i) \<le> rg_end (rs ! i)" "i < j \<Longrightarrow> rg_end (rs ! i) \<le> rg_base (rs ! j)"
proof -
  have b: "rg_base (rs ! k) \<le> rg_end (rs ! k)" if "k < length rs" for k
    using assms(1) that by (auto simp: weak_ordered_def)
  have lt: "rg_end (rs ! i) \<le> rg_base (rs ! j)" if "i < j"
    using assms that by (auto simp: weak_ordered_def sorted_wrt_iff_nth_less)
  show "rg_base (rs ! i) \<le> rg_end (rs ! i)" using b assms by simp
  show "rg_base (rs ! i) \<le> rg_base (rs ! j)" "rg_end (rs ! i) \<le> rg_end (rs ! j)"
    using lt b [of i] b [of j] assms by (cases "i = j"; fastforce)+
qed (use assms in \<open>auto simp: weak_ordered_def sorted_wrt_iff_nth_less\<close>)

lemma area_start_le_end:
  assumes "weak_ordered rs" "0 \<le> j" "j \<le> int (length rs)"
  shows "area_start rs j \<le> area_end rs j"
  using weak_ordered_nth(4) [OF assms(1), of "nat (j - 1)" "nat j"] assms
  by (auto simp: area_start_def area_end_def)

lemma area_end_le_start:
  assumes "weak_ordered rs" "0 \<le> j" "j < k" "k \<le> int (length rs)"
  shows "area_end rs j \<le> area_start rs k"
proof -
  have "rg_base (rs ! nat j) \<le> rg_end (rs ! nat j)"
    using weak_ordered_nth(3) [OF assms(1) order_refl, of "nat j"] assms by auto
  also have "\<dots> \<le> rg_end (rs ! nat (k - 1))"
    using weak_ordered_nth(2) [OF assms(1), of "nat j" "nat (k - 1)"] assms by auto
  finally show ?thesis using assms by (simp add: area_start_def area_end_def)
qed

lemma area_mono:
  assumes "weak_ordered rs" "0 \<le> j" "j \<le> k" "k \<le> int (length rs)"
  shows "area_start rs j \<le> area_start rs k" "area_end rs j \<le> area_end rs k"
proof -
  have "area_start rs j \<le> area_end rs j" "area_start rs k \<le> area_end rs k"
    using area_start_le_end [OF assms(1)] assms by auto
  moreover have "area_end rs j \<le> area_start rs k" if "j \<noteq> k"
    using area_end_le_start [OF assms(1)] assms that by simp
  ultimately show "area_start rs j \<le> area_start rs k" "area_end rs j \<le> area_end rs k"
    by (cases "j = k"; force)+
qed

text \<open>An address lies in some area exactly if it lies in no excluded region.\<close>

lemma in_area_iff:
  assumes "weak_ordered rs" "x < PHYS_ADDR_MAX"
  shows "(\<exists>j. 0 \<le> j \<and> j \<le> int (length rs) \<and> in_area rs j x) \<longleftrightarrow> (\<forall>r\<in>set rs. \<not> in_region r x)"
proof (intro iffI ballI notI)
  fix r
  assume "\<exists>j. 0 \<le> j \<and> j \<le> int (length rs) \<and> in_area rs j x" and "r \<in> set rs" and in_r: "in_region r x"
  then obtain j i where j: "0 \<le> j" "j \<le> int (length rs)" "in_area rs j x"
    and i: "i < length rs" "r = rs ! i"
    by (metis in_set_conv_nth)
  show False
  proof (cases "int i < j")
    case True
    then have "rg_end r \<le> area_start rs j"
      using weak_ordered_nth(2) [OF assms(1), of i "nat (j - 1)"] i j by (auto simp: area_start_def)
    with j(3) in_r show False by (auto simp: in_area_def in_region_def)
  next
    case False
    then have "area_end rs j \<le> rg_base r"
      using weak_ordered_nth(1) [OF assms(1), of "nat j" i] i j by (auto simp: area_end_def)
    with j(3) in_r show False by (auto simp: in_area_def in_region_def)
  qed
next
  assume out: "\<forall>r\<in>set rs. \<not> in_region r x"
  let ?P = "\<lambda>k. k = length rs \<or> x < rg_base (rs ! k)"
  define k where "k = (LEAST k. ?P k)"
  have k: "?P k" "k \<le> length rs" unfolding k_def by (rule LeastI [of ?P "length rs"], simp) (rule Least_le, simp)
  have "rg_end (rs ! (k - 1)) \<le> x" if "k \<noteq> 0"
  proof -
    have "\<not> ?P (k - 1)" unfolding k_def using that k_def not_less_Least [of "k - 1" ?P] by auto
    then have "rg_base (rs ! (k - 1)) \<le> x" by (simp add: not_less)
    moreover have "\<not> in_region (rs ! (k - 1)) x" using out that k(2) by simp
    ultimately show ?thesis by (simp add: in_region_def not_less)
  qed
  with k assms(2) have "in_area rs (int k) x"
    by (auto simp: in_area_def area_start_def area_end_def nat_diff_distrib)
  with k(2) show "\<exists>j. 0 \<le> j \<and> j \<le> int (length rs) \<and> in_area rs j x" by (intro exI [of _ "int k"]) simp
qed

subsection \<open>Backward iteration\<close>

definition cov_rev :: "memblock_region list \<Rightarrow> memblock_region list \<Rightarrow> (memblock_region \<Rightarrow> bool)
    \<Rightarrow> int \<Rightarrow> int \<Rightarrow> (int \<times> int \<times> phys_addr_t) set" where
  "cov_rev ms rs sel a b = {(i, j, x). 0 \<le> i \<and> i \<le> a \<and> 0 \<le> j \<and> j \<le> b \<and>
     sel (ms ! nat i) \<and> in_region (ms ! nat i) x \<and> in_area rs j x}"

lemma cov_rev_empty: "a < 0 \<or> b < 0 \<Longrightarrow> cov_rev ms rs sel a b = {}"
  by (auto simp: cov_rev_def)

text \<open>Dropping the last region, or the last area, loses what only that one contributed.\<close>

lemma cov_rev_drop_a:
  assumes "0 \<le> a"
  shows "cov_rev ms rs sel a b = cov_rev ms rs sel (a - 1) b \<union>
    {(i, j, x). i = a \<and> sel (ms ! nat a) \<and> 0 \<le> j \<and> j \<le> b \<and> in_region (ms ! nat a) x \<and> in_area rs j x}"
proof -
  have "(0 \<le> i \<and> i \<le> a) \<longleftrightarrow> (0 \<le> i \<and> i \<le> a - 1) \<or> i = a" for i using assms by auto
  then show ?thesis unfolding cov_rev_def by blast
qed

lemma cov_rev_drop_b:
  assumes "0 \<le> b"
  shows "cov_rev ms rs sel a b = cov_rev ms rs sel a (b - 1) \<union>
    {(i, j, x). j = b \<and> 0 \<le> i \<and> i \<le> a \<and> sel (ms ! nat i) \<and> in_region (ms ! nat i) x \<and> in_area rs b x}"
proof -
  have "(0 \<le> i \<and> i \<le> b) \<longleftrightarrow> (0 \<le> i \<and> i \<le> b - 1) \<or> i = b" for i using assms by auto
  then show ?thesis unfolding cov_rev_def by blast
qed

lemma scan_areas_rev_tbl:
  assumes "tbl t rs" "-1 \<le> b" "b \<le> int (length rs)"
  shows "\<exists>b' hit. scan_areas_rev s e t b = Some (b', hit) \<and> -1 \<le> b' \<and> b' \<le> b \<and>
    (\<forall>j. b' < j \<and> j \<le> b \<longrightarrow> e \<le> area_start rs j) \<and>
    (case hit of None \<Rightarrow> b' = -1 \<or> area_end rs b' \<le> s
     | Some (u, v) \<Rightarrow> 0 \<le> b' \<and> u = area_start rs b' \<and> v = area_end rs b' \<and> s < v \<and> u < e)"
  using assms
proof (induction s e t b rule: scan_areas_rev.induct)
  case (1 s e t b)
  show ?case
  proof (cases "0 \<le> b")
    case False
    with 1 show ?thesis by (subst scan_areas_rev.simps) auto
  next
    case True
    note area = area_before_tbl [OF "1.prems"(1) True "1.prems"(3)]
    show ?thesis
    proof (cases "area_end rs b \<le> s \<or> area_start rs b < e")
      case stop: True
      with True area show ?thesis
        by (subst scan_areas_rev.simps) (auto simp: not_le)
    next
      case False
      then have eq: "scan_areas_rev s e t b = scan_areas_rev s e t (b - 1)"
        using True area by (subst scan_areas_rev.simps) auto
      obtain b' hit where IH: "scan_areas_rev s e t (b - 1) = Some (b', hit)" "-1 \<le> b'" "b' \<le> b - 1"
        "\<forall>j. b' < j \<and> j \<le> b - 1 \<longrightarrow> e \<le> area_start rs j"
        "case hit of None \<Rightarrow> b' = -1 \<or> area_end rs b' \<le> s
         | Some (u, v) \<Rightarrow> 0 \<le> b' \<and> u = area_start rs b' \<and> v = area_end rs b' \<and> s < v \<and> u < e"
        using "1.IH" True False area "1.prems" by fastforce
      have "e \<le> area_start rs j" if "b' < j" "j \<le> b" for j
        using IH(4) False that by (cases "j = b") auto
      with eq IH show ?thesis by (intro exI [of _ b'] exI [of _ hit]) simp
    qed
  qed
qed

lemma cov_rev_scanned:
  assumes "weak_ordered ms" "a < int (length ms)" "b' \<le> b"
    "\<forall>j. b' < j \<and> j \<le> b \<longrightarrow> rg_end (ms ! nat a) \<le> area_start rs j"
  shows "cov_rev ms rs sel a b = cov_rev ms rs sel a b'"
proof -
  have "\<not> in_area rs j x" if "0 \<le> i" "i \<le> a" "in_region (ms ! nat i) x" "b' < j" "j \<le> b" for i j x
  proof -
    have "rg_end (ms ! nat i) \<le> rg_end (ms ! nat a)"
      using weak_ordered_nth(2) [OF assms(1), of "nat i" "nat a"] assms(2) that by simp
    also have "\<dots> \<le> area_start rs j" using assms(4) that by simp
    finally show ?thesis using that(3) by (auto simp: in_area_def in_region_def)
  qed
  then have "(j \<le> b \<and> in_area rs j x) = (j \<le> b' \<and> in_area rs j x)"
    if "0 \<le> i" "i \<le> a" "in_region (ms ! nat i) x" for i j x
    using that assms(3) by (meson not_le order_trans)
  then show ?thesis unfolding cov_rev_def by blast
qed

lemma cov_rev_past:
  assumes "weak_ordered rs" "0 \<le> a" "b \<le> int (length rs)" "b = -1 \<or> area_end rs b \<le> rg_base (ms ! nat a)"
  shows "cov_rev ms rs sel a b = cov_rev ms rs sel (a - 1) b"
proof -
  have "\<not> in_area rs j x" if "in_region (ms ! nat a) x" "0 \<le> j" "j \<le> b" for j x
    using area_mono(2) [OF assms(1), of j b] assms(3,4) that by (auto simp: in_area_def in_region_def)
  then show ?thesis by (subst cov_rev_drop_a [OF assms(2)]) blast
qed

lemma range_set:
  "{max (rg_base m) (area_start rs b) ..< min (rg_end m) (area_end rs b)} =
     {x. in_region m x \<and> in_area rs b x}"
  by (auto simp: in_region_def in_area_def)

lemma cov_rev_hit_a:
  assumes "weak_ordered rs" "0 \<le> a" "0 \<le> b" "b \<le> int (length rs)" "sel (ms ! nat a)"
    "area_start rs b \<le> rg_base (ms ! nat a)"
  shows "cov_rev ms rs sel a b =
    {a} \<times> {b} \<times> {max (rg_base (ms ! nat a)) (area_start rs b) ..< min (rg_end (ms ! nat a)) (area_end rs b)}
    \<union> cov_rev ms rs sel (a - 1) b"
proof -
  have "j = b" if "in_region (ms ! nat a) x" "0 \<le> j" "j \<le> b" "in_area rs j x" for j x
    using area_end_le_start [OF assms(1), of j b] assms(4,6) that
    by (force simp: in_area_def in_region_def)
  then show ?thesis
    unfolding cov_rev_drop_a [OF assms(2)] range_set using assms(3,5) by blast
qed

lemma cov_rev_hit_b:
  assumes "weak_ordered ms" "0 \<le> a" "a < int (length ms)" "0 \<le> b" "sel (ms ! nat a)"
    "rg_base (ms ! nat a) < area_start rs b"
  shows "cov_rev ms rs sel a b =
    {a} \<times> {b} \<times> {max (rg_base (ms ! nat a)) (area_start rs b) ..< min (rg_end (ms ! nat a)) (area_end rs b)}
    \<union> cov_rev ms rs sel a (b - 1)"
proof -
  have "i = a" if "in_area rs b x" "0 \<le> i" "i \<le> a" "in_region (ms ! nat i) x" for i x
    using weak_ordered_nth(4) [OF assms(1), of "nat i" "nat a"] assms(3,6) that
    by (force simp: in_area_def in_region_def)
  then show ?thesis
    unfolding cov_rev_drop_b [OF assms(4)] range_set using assms(2,5) by blast
qed

text \<open>What one call delivers: nothing was left, or the range is the intersection of the selected
  region \<open>i\<close> with the area \<open>j\<close>, and that intersection is split off what was left.\<close>

definition next_ok :: "(int \<Rightarrow> int \<Rightarrow> (int \<times> int \<times> phys_addr_t) set) \<Rightarrow> memblock_region list
    \<Rightarrow> memblock_region list \<Rightarrow> (memblock_region \<Rightarrow> bool) \<Rightarrow> (int \<times> int \<times> phys_addr_t) set
    \<Rightarrow> (int \<times> int \<times> phys_addr_t \<times> phys_addr_t \<times> int) option \<Rightarrow> bool" where
  "next_ok cov ms rs sel before res = (case res of
     None \<Rightarrow> before = {}
   | Some (a', b', s, e, n) \<Rightarrow> \<exists>i j. 0 \<le> i \<and> i < int (length ms) \<and> 0 \<le> j \<and> j \<le> int (length rs) \<and>
       before = {i} \<times> {j} \<times> {s..<e} \<union> cov a' b' \<and> sel (ms ! nat i) \<and> n = rg_nid (ms ! nat i) \<and>
       {s..<e} = {x. in_region (ms ! nat i) x \<and> in_area rs j x})"

lemma next_okI:
  "before = {i} \<times> {j} \<times> {max (rg_base (ms ! nat i)) (area_start rs j) ..<
      min (rg_end (ms ! nat i)) (area_end rs j)} \<union> cov a b \<Longrightarrow>
   0 \<le> i \<Longrightarrow> i < int (length ms) \<Longrightarrow> 0 \<le> j \<Longrightarrow> j \<le> int (length rs) \<Longrightarrow> sel (ms ! nat i) \<Longrightarrow>
   next_ok cov ms rs sel before (Some (a, b, max (rg_base (ms ! nat i)) (area_start rs j),
      min (rg_end (ms ! nat i)) (area_end rs j), rg_nid (ms ! nat i)))"
  unfolding next_ok_def range_set [symmetric] by auto

definition rev_within :: "int \<Rightarrow> int \<Rightarrow> (int \<times> int \<times> phys_addr_t \<times> phys_addr_t \<times> int) option \<Rightarrow> bool" where
  "rev_within a b res = (case res of None \<Rightarrow> True
     | Some (a', b', _) \<Rightarrow> -1 \<le> a' \<and> a' \<le> a \<and> 0 \<le> b' \<and> b' \<le> b \<and> a' + b' < a + b)"

lemma rev_within_mono: "rev_within a' b' res \<Longrightarrow> a' \<le> a \<Longrightarrow> b' \<le> b \<Longrightarrow> rev_within a b res"
  by (auto simp: rev_within_def split: option.splits)

lemma next_range_rev_loop_tbl:
  assumes "tbl ta ms" "tbl tb rs" "weak_ordered ms" "weak_ordered rs"
    "-1 \<le> a" "a < int (length ms)" "-1 \<le> b" "b \<le> int (length rs)"
  shows "\<exists>res. next_range_rev_loop nid flags ta (Some tb) a b = Some res \<and>
    next_ok (cov_rev ms rs (\<lambda>m. \<not> should_skip_region m nid flags)) ms rs
      (\<lambda>m. \<not> should_skip_region m nid flags)
      (cov_rev ms rs (\<lambda>m. \<not> should_skip_region m nid flags) a b) res \<and> rev_within a b res"
  using assms(5-)
proof (induction "nat (a + 1)" arbitrary: a b)
  case 0
  then have "a = -1" by simp
  then show ?case
    by (subst next_range_rev_loop.simps) (simp add: next_ok_def cov_rev_empty rev_within_def)
next
  case (Suc k)
  let ?sel = "\<lambda>m. \<not> should_skip_region m nid flags"
  let ?m = "ms ! nat a"
  have a: "0 \<le> a" using Suc.hyps(2) by simp
  have get: "arr_get (t_regions ta) (nat a) = Some ?m"
    using assms(1) Suc.prems a by (auto simp: tbl_def arr_get_def nth_append nat_less_iff)
  note unfold = next_range_rev_loop.simps [of nid flags ta "Some tb" a b]
  have IH: "\<exists>res. next_range_rev_loop nid flags ta (Some tb) (a - 1) b' = Some res \<and>
      next_ok (cov_rev ms rs ?sel) ms rs ?sel (cov_rev ms rs ?sel (a - 1) b') res \<and> rev_within (a - 1) b' res"
    if "-1 \<le> b'" "b' \<le> int (length rs)" for b'
    by (rule Suc.hyps(1)) (use Suc.hyps(2) Suc.prems(2) a that in auto)
  show ?case
  proof (cases "should_skip_region ?m nid flags")
    case True
    have "cov_rev ms rs ?sel a b = cov_rev ms rs ?sel (a - 1) b"
      using True by (subst cov_rev_drop_a [OF a]) auto
    moreover have "next_range_rev_loop nid flags ta (Some tb) a b = next_range_rev_loop nid flags ta (Some tb) (a - 1) b"
      using True get a by (simp add: unfold Let_def)
    ultimately show ?thesis
      using IH [OF Suc.prems(3,4)] rev_within_mono [of "a - 1" b _ a b] by auto
  next
    case sel: False
    from scan_areas_rev_tbl [OF assms(2) Suc.prems(3,4), of "rg_base ?m" "rg_end ?m"]
    obtain b' hit where scan: "scan_areas_rev (rg_base ?m) (rg_end ?m) tb b = Some (b', hit)"
      "-1 \<le> b'" "b' \<le> b" "\<forall>j. b' < j \<and> j \<le> b \<longrightarrow> rg_end ?m \<le> area_start rs j"
      and hit: "case hit of None \<Rightarrow> b' = -1 \<or> area_end rs b' \<le> rg_base ?m
         | Some (u, v) \<Rightarrow> 0 \<le> b' \<and> u = area_start rs b' \<and> v = area_end rs b' \<and> rg_base ?m < v \<and> u < rg_end ?m"
      by blast
    have b': "b' \<le> int (length rs)" using scan(3) Suc.prems(4) by simp
    have cov: "cov_rev ms rs ?sel a b = cov_rev ms rs ?sel a b'"
      by (rule cov_rev_scanned [OF assms(3) Suc.prems(2) scan(3,4)])
    show ?thesis
    proof (cases hit)
      case None
      then have "cov_rev ms rs ?sel a b = cov_rev ms rs ?sel (a - 1) b'"
        using cov cov_rev_past [OF assms(4) a b'] hit by simp
      moreover have "next_range_rev_loop nid flags ta (Some tb) a b = next_range_rev_loop nid flags ta (Some tb) (a - 1) b'"
        using None sel get a scan(1) by (simp add: unfold Let_def rg_end_def)
      ultimately show ?thesis
        using IH [OF scan(2) b'] rev_within_mono [of "a - 1" b' _ a b] scan(3) by auto
    next
      case (Some uv)
      then obtain u v where uv: "hit = Some (u, v)" by (cases uv) auto
      with hit have h: "0 \<le> b'" "u = area_start rs b'" "v = area_end rs b'" by auto
      show ?thesis
      proof (cases "u \<le> rg_base ?m")
        case True
        with cov_rev_hit_a [OF assms(4) a h(1) b', of ?sel ms] sel h
        have step: "cov_rev ms rs ?sel a b =
          {a} \<times> {b'} \<times> {max (rg_base ?m) u ..< min (rg_end ?m) v} \<union> cov_rev ms rs ?sel (a - 1) b'"
          by (simp add: cov)
        have "next_range_rev_loop nid flags ta (Some tb) a b =
            Some (Some (a - 1, b', max (rg_base ?m) u, min (rg_end ?m) v, rg_nid ?m))"
          using sel True uv scan(1) get a
          by (simp add: unfold Let_def rg_end_def memblock_get_region_node_def)
        moreover have "rev_within a b (Some (a - 1, b', max (rg_base ?m) u, min (rg_end ?m) v, rg_nid ?m))"
          using a h(1) scan(3) by (simp add: rev_within_def)
        ultimately show ?thesis using next_okI [where cov = "cov_rev ms rs ?sel" and sel = ?sel,
            OF step [unfolded h] a Suc.prems(2) h(1) b'] sel by (auto simp: h)
      next
        case False
        with cov_rev_hit_b [OF assms(3) a Suc.prems(2) h(1), of ?sel rs] sel h
        have step: "cov_rev ms rs ?sel a b =
          {a} \<times> {b'} \<times> {max (rg_base ?m) u ..< min (rg_end ?m) v} \<union> cov_rev ms rs ?sel a (b' - 1)"
          by (simp add: cov not_le)
        have "next_range_rev_loop nid flags ta (Some tb) a b =
            Some (Some (a, b' - 1, max (rg_base ?m) u, min (rg_end ?m) v, rg_nid ?m))"
          using sel False uv scan(1) get a
          by (simp add: unfold Let_def rg_end_def memblock_get_region_node_def)
        moreover have "b' \<noteq> 0" using False h(2) by (auto simp: area_start_def)
        then have "rev_within a b (Some (a, b' - 1, max (rg_base ?m) u, min (rg_end ?m) v, rg_nid ?m))"
          using a h(1) scan(3) by (simp add: rev_within_def)
        ultimately show ?thesis using next_okI [where cov = "cov_rev ms rs ?sel" and sel = ?sel,
            OF step [unfolded h] a Suc.prems(2) h(1) b'] sel by (auto simp: h)
      qed
    qed
  qed
qed

subsection \<open>Forward iteration\<close>

definition cov_fwd :: "memblock_region list \<Rightarrow> memblock_region list \<Rightarrow> (memblock_region \<Rightarrow> bool)
    \<Rightarrow> int \<Rightarrow> int \<Rightarrow> (int \<times> int \<times> phys_addr_t) set" where
  "cov_fwd ms rs sel a b = {(i, j, x). a \<le> i \<and> i < int (length ms) \<and> b \<le> j \<and> j \<le> int (length rs) \<and>
     sel (ms ! nat i) \<and> in_region (ms ! nat i) x \<and> in_area rs j x}"

lemma cov_fwd_empty: "int (length ms) \<le> a \<or> int (length rs) < b \<Longrightarrow> cov_fwd ms rs sel a b = {}"
  by (auto simp: cov_fwd_def)

lemma cov_fwd_drop_a:
  assumes "a < int (length ms)"
  shows "cov_fwd ms rs sel a b = cov_fwd ms rs sel (a + 1) b \<union>
    {(i, j, x). i = a \<and> sel (ms ! nat a) \<and> b \<le> j \<and> j \<le> int (length rs) \<and>
        in_region (ms ! nat a) x \<and> in_area rs j x}"
proof -
  have "(a \<le> i \<and> i < int (length ms)) \<longleftrightarrow> (a + 1 \<le> i \<and> i < int (length ms)) \<or> i = a" for i
    using assms by auto
  then show ?thesis unfolding cov_fwd_def by blast
qed

lemma cov_fwd_drop_b:
  assumes "b \<le> int (length rs)"
  shows "cov_fwd ms rs sel a b = cov_fwd ms rs sel a (b + 1) \<union>
    {(i, j, x). j = b \<and> a \<le> i \<and> i < int (length ms) \<and> sel (ms ! nat i) \<and>
        in_region (ms ! nat i) x \<and> in_area rs b x}"
proof -
  have "(b \<le> j \<and> j \<le> int (length rs)) \<longleftrightarrow> (b + 1 \<le> j \<and> j \<le> int (length rs)) \<or> j = b" for j
    using assms by auto
  then show ?thesis unfolding cov_fwd_def by blast
qed

lemma scan_areas_tbl:
  assumes "tbl t rs" "0 \<le> b" "b \<le> int (length rs) + 1"
  shows "\<exists>b' hit. scan_areas s e t b = Some (b', hit) \<and> b \<le> b' \<and> b' \<le> int (length rs) + 1 \<and>
    (\<forall>j. b \<le> j \<and> j < b' \<longrightarrow> area_end rs j \<le> s) \<and>
    (case hit of None \<Rightarrow> b' = int (length rs) + 1 \<or> e \<le> area_start rs b'
     | Some (u, v) \<Rightarrow> b' \<le> int (length rs) \<and> u = area_start rs b' \<and> v = area_end rs b' \<and> s < v \<and> u < e)"
  using assms
proof (induction s e t b rule: scan_areas.induct)
  case (1 s e t b)
  show ?case
  proof (cases "b \<le> int (length rs)")
    case False
    with 1 show ?thesis by (subst scan_areas.simps) (auto simp: tbl_cnt)
  next
    case True
    note area = area_before_tbl [OF "1.prems"(1,2) True]
    note cnt = tbl_cnt [OF "1.prems"(1)]
    show ?thesis
    proof (cases "e \<le> area_start rs b \<or> s < area_end rs b")
      case stop: True
      with True area "1.prems"(2) cnt show ?thesis
        by (subst scan_areas.simps) (auto simp: not_le)
    next
      case False
      then have eq: "scan_areas s e t b = scan_areas s e t (b + 1)"
        using True area "1.prems"(2) cnt by (subst scan_areas.simps) auto
      obtain b' hit where IH: "scan_areas s e t (b + 1) = Some (b', hit)" "b + 1 \<le> b'"
        "b' \<le> int (length rs) + 1" "\<forall>j. b + 1 \<le> j \<and> j < b' \<longrightarrow> area_end rs j \<le> s"
        "case hit of None \<Rightarrow> b' = int (length rs) + 1 \<or> e \<le> area_start rs b'
         | Some (u, v) \<Rightarrow> b' \<le> int (length rs) \<and> u = area_start rs b' \<and> v = area_end rs b' \<and> s < v \<and> u < e"
        using "1.IH" True False area "1.prems" cnt by fastforce
      have "area_end rs j \<le> s" if "b \<le> j" "j < b'" for j
        using IH(4) False that by (cases "j = b") auto
      with eq IH show ?thesis by (intro exI [of _ b'] exI [of _ hit]) simp
    qed
  qed
qed

lemma cov_fwd_scanned:
  assumes "weak_ordered ms" "0 \<le> a" "b \<le> b'"
    "\<forall>j. b \<le> j \<and> j < b' \<longrightarrow> area_end rs j \<le> rg_base (ms ! nat a)"
  shows "cov_fwd ms rs sel a b = cov_fwd ms rs sel a b'"
proof -
  have "\<not> in_area rs j x" if "a \<le> i" "i < int (length ms)" "in_region (ms ! nat i) x" "b \<le> j" "j < b'" for i j x
  proof -
    have "area_end rs j \<le> rg_base (ms ! nat a)" using assms(4) that by simp
    also have "\<dots> \<le> rg_base (ms ! nat i)"
      using weak_ordered_nth(1) [OF assms(1), of "nat a" "nat i"] assms(2) that by simp
    finally show ?thesis using that(3) by (auto simp: in_area_def in_region_def)
  qed
  then have "(b \<le> j \<and> in_area rs j x) = (b' \<le> j \<and> in_area rs j x)"
    if "a \<le> i" "i < int (length ms)" "in_region (ms ! nat i) x" for i j x
    using that assms(3) by (meson not_le order_trans)
  then show ?thesis unfolding cov_fwd_def by blast
qed

lemma cov_fwd_past:
  assumes "weak_ordered rs" "a < int (length ms)" "0 \<le> b"
    "b = int (length rs) + 1 \<or> rg_end (ms ! nat a) \<le> area_start rs b"
  shows "cov_fwd ms rs sel a b = cov_fwd ms rs sel (a + 1) b"
proof -
  have "\<not> in_area rs j x" if "in_region (ms ! nat a) x" "b \<le> j" "j \<le> int (length rs)" for j x
    using area_mono(1) [OF assms(1,3), of j] assms(4) that by (auto simp: in_area_def in_region_def)
  then show ?thesis by (subst cov_fwd_drop_a [OF assms(2)]) blast
qed

lemma cov_fwd_hit_a:
  assumes "weak_ordered rs" "a < int (length ms)" "0 \<le> b" "b \<le> int (length rs)" "sel (ms ! nat a)"
    "rg_end (ms ! nat a) \<le> area_end rs b"
  shows "cov_fwd ms rs sel a b =
    {a} \<times> {b} \<times> {max (rg_base (ms ! nat a)) (area_start rs b) ..< min (rg_end (ms ! nat a)) (area_end rs b)}
    \<union> cov_fwd ms rs sel (a + 1) b"
proof -
  have "j = b" if "in_region (ms ! nat a) x" "b \<le> j" "j \<le> int (length rs)" "in_area rs j x" for j x
    using area_end_le_start [OF assms(1,3), of j] assms(6) that
    by (force simp: in_area_def in_region_def)
  then show ?thesis
    unfolding cov_fwd_drop_a [OF assms(2)] range_set using assms(4,5) by blast
qed

lemma cov_fwd_hit_b:
  assumes "weak_ordered ms" "0 \<le> a" "a < int (length ms)" "b \<le> int (length rs)" "sel (ms ! nat a)"
    "area_end rs b < rg_end (ms ! nat a)"
  shows "cov_fwd ms rs sel a b =
    {a} \<times> {b} \<times> {max (rg_base (ms ! nat a)) (area_start rs b) ..< min (rg_end (ms ! nat a)) (area_end rs b)}
    \<union> cov_fwd ms rs sel a (b + 1)"
proof -
  have "i = a" if "in_area rs b x" "a \<le> i" "i < int (length ms)" "in_region (ms ! nat i) x" for i x
    using weak_ordered_nth(4) [OF assms(1), of "nat a" "nat i"] assms(2,6) that
    by (force simp: in_area_def in_region_def)
  then show ?thesis
    unfolding cov_fwd_drop_b [OF assms(4)] range_set using assms(3,5) by blast
qed

definition fwd_within :: "memblock_region list \<Rightarrow> memblock_region list \<Rightarrow> int \<Rightarrow> int
    \<Rightarrow> (int \<times> int \<times> phys_addr_t \<times> phys_addr_t \<times> int) option \<Rightarrow> bool" where
  "fwd_within ms rs a b res = (case res of None \<Rightarrow> True
     | Some (a', b', _) \<Rightarrow> a \<le> a' \<and> a' \<le> int (length ms) \<and> b \<le> b' \<and> b' \<le> int (length rs) + 1 \<and>
         a + b < a' + b')"

lemma fwd_within_mono: "fwd_within ms rs a' b' res \<Longrightarrow> a \<le> a' \<Longrightarrow> b \<le> b' \<Longrightarrow> fwd_within ms rs a b res"
  by (auto simp: fwd_within_def split: option.splits)

lemma next_range_loop_tbl:
  assumes "tbl ta ms" "tbl tb rs" "weak_ordered ms" "weak_ordered rs"
    "0 \<le> a" "a \<le> int (length ms)" "0 \<le> b" "b \<le> int (length rs) + 1"
  shows "\<exists>res. next_range_loop nid flags ta (Some tb) a b = Some res \<and>
    next_ok (cov_fwd ms rs (\<lambda>m. \<not> should_skip_region m nid flags)) ms rs
      (\<lambda>m. \<not> should_skip_region m nid flags)
      (cov_fwd ms rs (\<lambda>m. \<not> should_skip_region m nid flags) a b) res \<and> fwd_within ms rs a b res"
  using assms(5-)
proof (induction "nat (int (length ms) - a)" arbitrary: a b)
  case 0
  then have "a = int (length ms)" by simp
  with assms(1) show ?case
    by (subst next_range_loop.simps) (simp add: next_ok_def cov_fwd_empty fwd_within_def tbl_cnt)
next
  case (Suc k)
  let ?sel = "\<lambda>m. \<not> should_skip_region m nid flags"
  let ?m = "ms ! nat a"
  have a: "0 \<le> a" "a < int (length ms)" using Suc.hyps(2) Suc.prems by auto
  have cnt: "t_cnt ta = length ms" using assms(1) by (rule tbl_cnt)
  have get: "arr_get (t_regions ta) (nat a) = Some ?m"
    using assms(1) a by (auto simp: tbl_def arr_get_def nth_append nat_less_iff)
  note unfold = next_range_loop.simps [of nid flags ta "Some tb" a b]
  have IH: "\<exists>res. next_range_loop nid flags ta (Some tb) (a + 1) b' = Some res \<and>
      next_ok (cov_fwd ms rs ?sel) ms rs ?sel (cov_fwd ms rs ?sel (a + 1) b') res \<and> fwd_within ms rs (a + 1) b' res"
    if "0 \<le> b'" "b' \<le> int (length rs) + 1" for b'
    by (rule Suc.hyps(1)) (use Suc.hyps(2) a that in auto)
  show ?case
  proof (cases "should_skip_region ?m nid flags")
    case True
    have "cov_fwd ms rs ?sel a b = cov_fwd ms rs ?sel (a + 1) b"
      using True by (subst cov_fwd_drop_a [OF a(2)]) auto
    moreover have "next_range_loop nid flags ta (Some tb) a b = next_range_loop nid flags ta (Some tb) (a + 1) b"
      using True get a cnt by (simp add: unfold Let_def)
    ultimately show ?thesis
      using IH [OF Suc.prems(3,4)] fwd_within_mono [of ms rs "a + 1" b _ a b] by auto
  next
    case sel: False
    from scan_areas_tbl [OF assms(2) Suc.prems(3,4), of "rg_base ?m" "rg_end ?m"]
    obtain b' hit where scan: "scan_areas (rg_base ?m) (rg_end ?m) tb b = Some (b', hit)"
      "b \<le> b'" "b' \<le> int (length rs) + 1" "\<forall>j. b \<le> j \<and> j < b' \<longrightarrow> area_end rs j \<le> rg_base ?m"
      and hit: "case hit of None \<Rightarrow> b' = int (length rs) + 1 \<or> rg_end ?m \<le> area_start rs b'
         | Some (u, v) \<Rightarrow> b' \<le> int (length rs) \<and> u = area_start rs b' \<and> v = area_end rs b' \<and>
             rg_base ?m < v \<and> u < rg_end ?m"
      by blast
    have b': "0 \<le> b'" using scan(2) Suc.prems(3) by simp
    have cov: "cov_fwd ms rs ?sel a b = cov_fwd ms rs ?sel a b'"
      by (rule cov_fwd_scanned [OF assms(3) a(1) scan(2,4)])
    show ?thesis
    proof (cases hit)
      case None
      then have "cov_fwd ms rs ?sel a b = cov_fwd ms rs ?sel (a + 1) b'"
        using cov cov_fwd_past [OF assms(4) a(2) b'] hit by simp
      moreover have "next_range_loop nid flags ta (Some tb) a b = next_range_loop nid flags ta (Some tb) (a + 1) b'"
        using None sel get a scan(1) cnt by (simp add: unfold Let_def rg_end_def)
      ultimately show ?thesis
        using IH [OF b' scan(3)] fwd_within_mono [of ms rs "a + 1" b' _ a b] scan(2) by auto
    next
      case (Some uv)
      then obtain u v where uv: "hit = Some (u, v)" by (cases uv) auto
      with hit have h: "b' \<le> int (length rs)" "u = area_start rs b'" "v = area_end rs b'" by auto
      show ?thesis
      proof (cases "rg_end ?m \<le> v")
        case True
        with cov_fwd_hit_a [OF assms(4) a(2) b' h(1), of ?sel] sel h
        have step: "cov_fwd ms rs ?sel a b =
          {a} \<times> {b'} \<times> {max (rg_base ?m) u ..< min (rg_end ?m) v} \<union> cov_fwd ms rs ?sel (a + 1) b'"
          by (simp add: cov)
        have "next_range_loop nid flags ta (Some tb) a b =
            Some (Some (a + 1, b', max (rg_base ?m) u, min (rg_end ?m) v, rg_nid ?m))"
          using sel True uv scan(1) get a cnt
          by (simp add: unfold Let_def rg_end_def memblock_get_region_node_def)
        moreover have "fwd_within ms rs a b (Some (a + 1, b', max (rg_base ?m) u, min (rg_end ?m) v, rg_nid ?m))"
          using a h(1) scan(2) by (simp add: fwd_within_def)
        ultimately show ?thesis
          using next_okI [where cov = "cov_fwd ms rs ?sel" and sel = ?sel,
            OF step [unfolded h(2,3)] a b' h(1)] sel by (auto simp: h)
      next
        case False
        with cov_fwd_hit_b [OF assms(3) a h(1), of ?sel] sel h
        have step: "cov_fwd ms rs ?sel a b =
          {a} \<times> {b'} \<times> {max (rg_base ?m) u ..< min (rg_end ?m) v} \<union> cov_fwd ms rs ?sel a (b' + 1)"
          by (simp add: cov not_le)
        have "next_range_loop nid flags ta (Some tb) a b =
            Some (Some (a, b' + 1, max (rg_base ?m) u, min (rg_end ?m) v, rg_nid ?m))"
          using sel False uv scan(1) get a cnt
          by (simp add: unfold Let_def rg_end_def memblock_get_region_node_def)
        moreover have "fwd_within ms rs a b (Some (a, b' + 1, max (rg_base ?m) u, min (rg_end ?m) v, rg_nid ?m))"
          using a h(1) scan(2) by (simp add: fwd_within_def)
        ultimately show ?thesis
          using next_okI [where cov = "cov_fwd ms rs ?sel" and sel = ?sel,
            OF step [unfolded h(2,3)] a b' h(1)] sel by (auto simp: h)
      qed
    qed
  qed
qed

subsection \<open>The iteration contract\<close>

text \<open>
  What the macros \<^verbatim>\<open>for_each_mem_range\<close> and \<^verbatim>\<open>for_each_mem_range_rev\<close> rely on. The parameter \<open>c\<close>
  stands for the selector and the two tables; \<open>rest\<close> is what the iteration has still to visit,
  as triples of a region index, an area index and an address; \<open>piece\<close> is the intersection of a
  region with an area.
\<close>

locale range_iteration =
  fixes nxt :: "'c \<Rightarrow> u64 \<Rightarrow> (u64 \<times> (phys_addr_t \<times> phys_addr_t \<times> int) option) option"
    and ok :: "'c \<Rightarrow> u64 \<Rightarrow> bool"
    and rest :: "'c \<Rightarrow> u64 \<Rightarrow> (int \<times> int \<times> phys_addr_t) set"
    and left :: "'c \<Rightarrow> u64 \<Rightarrow> nat"
    and piece :: "'c \<Rightarrow> int \<Rightarrow> int \<Rightarrow> phys_addr_t set"
  assumes nxt_step: "ok c i \<Longrightarrow> \<exists>i' out. nxt c i = Some (i', out) \<and>
      (if i' = ULLONG_MAX then rest c i = {}
       else \<exists>s e n k j. out = Some (s, e, n) \<and> rest c i = {k} \<times> {j} \<times> {s..<e} \<union> rest c i' \<and>
         {s..<e} = piece c k j \<and> ok c i' \<and> left c i' < left c i)"
begin

text \<open>The loop terminates, and an invariant that relates the accumulator to what is left is kept
  until the loop returns or nothing is left.\<close>

lemma for_each_rule:
  assumes "ok c i" "left c i < fuel" "I acc (rest c i)"
    and step: "\<And>acc s e k j R. I acc ({k} \<times> {j} \<times> {s..<e} \<union> R) \<Longrightarrow> {s..<e} = piece c k j \<Longrightarrow>
       (case visit acc s e of Inl r \<Rightarrow> Q r | Inr acc' \<Rightarrow> I acc' R)"
  shows "\<exists>res. for_each_range fuel (nxt c) visit acc i = Some res \<and>
     (case res of Inl r \<Rightarrow> Q r | Inr acc' \<Rightarrow> I acc' {})"
  using assms(1-3)
proof (induction fuel arbitrary: acc i)
  case (Suc fuel)
  from nxt_step [OF Suc.prems(1)] obtain i' out where nxt: "nxt c i = Some (i', out)"
    and cont: "if i' = ULLONG_MAX then rest c i = {}
       else \<exists>s e n k j. out = Some (s, e, n) \<and> rest c i = {k} \<times> {j} \<times> {s..<e} \<union> rest c i' \<and>
         {s..<e} = piece c k j \<and> ok c i' \<and> left c i' < left c i" by blast
  show ?case
  proof (cases "i' = ULLONG_MAX")
    case True
    with nxt cont Suc.prems(3) show ?thesis by simp
  next
    case False
    with cont obtain s e n k j where out: "out = Some (s, e, n)"
      and split: "rest c i = {k} \<times> {j} \<times> {s..<e} \<union> rest c i'" "{s..<e} = piece c k j"
      and i': "ok c i'" "left c i' < left c i" by auto
    from step [of acc k j s e "rest c i'"] Suc.prems(3) split
    have v: "case visit acc s e of Inl r \<Rightarrow> Q r | Inr acc' \<Rightarrow> I acc' (rest c i')" by simp
    show ?thesis
    proof (cases "visit acc s e")
      case (Inl r)
      with nxt False out v show ?thesis by simp
    next
      case (Inr acc')
      have "left c i' < fuel" using i'(2) Suc.prems(2) by simp
      from Suc.IH [OF i'(1) this, of acc'] Inr nxt False out v show ?thesis by simp
    qed
  qed
qed simp

end

text \<open>Both iterators meet the contract while the tables are in order and their counters fit an
  \<^verbatim>\<open>int\<close>.\<close>

definition tables_ok :: "memblock_type \<Rightarrow> memblock_type \<Rightarrow> bool" where
  "tables_ok ta tb \<longleftrightarrow> tbl ta (live ta) \<and> tbl tb (live tb) \<and> weak_ordered (live ta) \<and>
     weak_ordered (live tb) \<and> t_cnt ta < 2 ^ 31 - 1 \<and> t_cnt tb < 2 ^ 31 - 1"

definition node_of :: "int \<Rightarrow> int" where
  "node_of nid = (if nid = MAX_NUMNODES then NUMA_NO_NODE else nid)"

type_synonym range_query = "int \<times> u32 \<times> memblock_type \<times> memblock_type"

definition query_sel :: "range_query \<Rightarrow> memblock_region \<Rightarrow> bool" where
  "query_sel = (\<lambda>(nid, flags, ta, tb) m. \<not> should_skip_region m (node_of nid) flags)"

definition query_piece :: "range_query \<Rightarrow> int \<Rightarrow> int \<Rightarrow> phys_addr_t set" where
  "query_piece = (\<lambda>(nid, flags, ta, tb) i j.
     {x. 0 \<le> i \<and> i < int (length (live ta)) \<and> 0 \<le> j \<and> j \<le> int (length (live tb)) \<and>
         query_sel (nid, flags, ta, tb) (live ta ! nat i) \<and>
         in_region (live ta ! nat i) x \<and> in_area (live tb) j x})"

definition fwd_nxt where
  "fwd_nxt = (\<lambda>(nid, flags, ta, tb). next_mem_range nid flags ta (Some tb))"

definition fwd_ok :: "range_query \<Rightarrow> u64 \<Rightarrow> bool" where
  "fwd_ok = (\<lambda>(nid, flags, ta, tb) idx. tables_ok ta tb \<and>
     0 \<le> idx_a_of idx \<and> idx_a_of idx \<le> int (t_cnt ta) \<and>
     0 \<le> idx_b_of idx \<and> idx_b_of idx \<le> int (t_cnt tb) + 1)"

definition fwd_rest :: "range_query \<Rightarrow> u64 \<Rightarrow> (int \<times> int \<times> phys_addr_t) set" where
  "fwd_rest = (\<lambda>(nid, flags, ta, tb) idx.
     cov_fwd (live ta) (live tb) (query_sel (nid, flags, ta, tb)) (idx_a_of idx) (idx_b_of idx))"

definition fwd_left :: "range_query \<Rightarrow> u64 \<Rightarrow> nat" where
  "fwd_left = (\<lambda>(nid, flags, ta, tb) idx.
     nat (int (t_cnt ta) + int (t_cnt tb) + 1 - idx_a_of idx - idx_b_of idx))"

interpretation fwd: range_iteration fwd_nxt fwd_ok fwd_rest fwd_left query_piece
proof
  fix c :: range_query and i
  assume ok: "fwd_ok c i"
  obtain nid flags ta tb where c: "c = (nid, flags, ta, tb)" by (cases c)
  let ?a = "idx_a_of i" and ?b = "idx_b_of i"
  have t: "tbl ta (live ta)" "tbl tb (live tb)" "weak_ordered (live ta)" "weak_ordered (live tb)"
    "t_cnt ta < 2 ^ 31 - 1" "t_cnt tb < 2 ^ 31 - 1"
    and ab: "0 \<le> ?a" "?a \<le> int (length (live ta))" "0 \<le> ?b" "?b \<le> int (length (live tb)) + 1"
    using ok tbl_cnt by (auto simp: c fwd_ok_def tables_ok_def dest!: tbl_cnt)
  from next_range_loop_tbl [OF t(1-4) ab, of "node_of nid" flags] obtain res where
    res: "next_range_loop (node_of nid) flags ta (Some tb) ?a ?b = Some res"
    "next_ok (cov_fwd (live ta) (live tb) (query_sel c)) (live ta) (live tb) (query_sel c) (fwd_rest c i) res"
    "fwd_within (live ta) (live tb) ?a ?b res"
    by (auto simp: c query_sel_def fwd_rest_def)
  show "\<exists>i' out. fwd_nxt c i = Some (i', out) \<and>
      (if i' = ULLONG_MAX then fwd_rest c i = {}
       else \<exists>s e n k j. out = Some (s, e, n) \<and> fwd_rest c i = {k} \<times> {j} \<times> {s..<e} \<union> fwd_rest c i' \<and>
         {s..<e} = query_piece c k j \<and> fwd_ok c i' \<and> fwd_left c i' < fwd_left c i)"
  proof (cases res)
    case None
    with res(1,2) show ?thesis
      by (auto simp: c fwd_nxt_def next_mem_range_def node_of_def next_ok_def)
  next
    case (Some r)
    then obtain a' b' s e n where r: "res = Some (a', b', s, e, n)" by (cases r) auto
    from res(3) have w: "?a \<le> a'" "a' \<le> int (t_cnt ta)" "?b \<le> b'" "b' \<le> int (t_cnt tb) + 1" "?a + ?b < a' + b'"
      using tbl_cnt [OF t(1)] tbl_cnt [OF t(2)] by (auto simp: r fwd_within_def)
    have pk: "idx_a_of (idx_pack a' b') = a'" "idx_b_of (idx_pack a' b') = b'" "idx_pack a' b' \<noteq> ULLONG_MAX"
      using idx_a_pack [of a' b'] idx_b_pack [of b' a'] idx_pack_not_max [of a' b'] w ab t(5,6) by auto
    from res(2) obtain k j where kj: "0 \<le> k" "k < int (length (live ta))" "0 \<le> j" "j \<le> int (length (live tb))"
      "fwd_rest c i = {k} \<times> {j} \<times> {s..<e} \<union> cov_fwd (live ta) (live tb) (query_sel c) a' b'"
      "query_sel c (live ta ! nat k)"
      "{s..<e} = {x. in_region (live ta ! nat k) x \<and> in_area (live tb) j x}"
      by (auto simp: r next_ok_def)
    have "fwd_rest c (idx_pack a' b') = cov_fwd (live ta) (live tb) (query_sel c) a' b'"
      by (simp add: c fwd_rest_def pk)
    moreover have "{s..<e} = query_piece c k j"
      using kj unfolding c query_piece_def by auto
    moreover have "fwd_ok c (idx_pack a' b')"
      using ok w ab by (auto simp: c fwd_ok_def pk)
    moreover have "fwd_left c (idx_pack a' b') < fwd_left c i"
      using w by (simp add: c fwd_left_def pk)
    moreover have "fwd_nxt c i = Some (idx_pack a' b', Some (s, e, n))"
      using res(1) by (simp add: c fwd_nxt_def next_mem_range_def node_of_def r)
    ultimately show ?thesis using kj(5) pk(3) by auto
  qed
qed

text \<open>The backward iterator starts at \<^verbatim>\<open>ULLONG_MAX\<close>, which stands for the last region and the area
  behind the last excluded region.\<close>

definition rev_pos :: "memblock_type \<Rightarrow> memblock_type \<Rightarrow> u64 \<Rightarrow> int \<times> int" where
  "rev_pos ta tb idx =
     (if idx = ULLONG_MAX then (int (t_cnt ta) - 1, int (t_cnt tb)) else (idx_a_of idx, idx_b_of idx))"

definition rev_nxt where
  "rev_nxt = (\<lambda>(nid, flags, ta, tb). next_mem_range_rev nid flags ta (Some tb))"

definition rev_ok :: "range_query \<Rightarrow> u64 \<Rightarrow> bool" where
  "rev_ok = (\<lambda>(nid, flags, ta, tb) idx. tables_ok ta tb \<and> (case rev_pos ta tb idx of (a, b) \<Rightarrow>
     -1 \<le> a \<and> a < int (t_cnt ta) \<and> 0 \<le> b \<and> b \<le> int (t_cnt tb)))"

definition rev_rest :: "range_query \<Rightarrow> u64 \<Rightarrow> (int \<times> int \<times> phys_addr_t) set" where
  "rev_rest = (\<lambda>(nid, flags, ta, tb) idx. case rev_pos ta tb idx of (a, b) \<Rightarrow>
     cov_rev (live ta) (live tb) (query_sel (nid, flags, ta, tb)) a b)"

definition rev_left :: "range_query \<Rightarrow> u64 \<Rightarrow> nat" where
  "rev_left = (\<lambda>(nid, flags, ta, tb) idx. case rev_pos ta tb idx of (a, b) \<Rightarrow> nat (a + b + 1))"

interpretation bwd: range_iteration rev_nxt rev_ok rev_rest rev_left query_piece
proof
  fix c :: range_query and i
  assume ok: "rev_ok c i"
  obtain nid flags ta tb where c: "c = (nid, flags, ta, tb)" by (cases c)
  obtain a b where pos: "rev_pos ta tb i = (a, b)" by fastforce
  have t: "tbl ta (live ta)" "tbl tb (live tb)" "weak_ordered (live ta)" "weak_ordered (live tb)"
    "t_cnt ta < 2 ^ 31 - 1" "t_cnt tb < 2 ^ 31 - 1"
    and ab: "-1 \<le> a" "a < int (length (live ta))" "0 \<le> b" "b \<le> int (length (live tb))"
    using ok by (auto simp: c rev_ok_def tables_ok_def pos dest!: tbl_cnt)
  have b1: "-1 \<le> b" using ab(3) by simp
  from next_range_rev_loop_tbl [OF t(1-4) ab(1,2) b1 ab(4), of "node_of nid" flags] obtain res where
    res: "next_range_rev_loop (node_of nid) flags ta (Some tb) a b = Some res"
    "next_ok (cov_rev (live ta) (live tb) (query_sel c)) (live ta) (live tb) (query_sel c) (rev_rest c i) res"
    "rev_within a b res"
    by (auto simp: c query_sel_def rev_rest_def pos)
  have nxt: "rev_nxt c i = (case res of None \<Rightarrow> Some (ULLONG_MAX, None)
      | Some (a', b', out) \<Rightarrow> Some (idx_pack a' b', Some out))"
    using res(1) pos by (auto simp: c rev_nxt_def next_mem_range_rev_def node_of_def rev_pos_def Let_def split: if_splits)
  show "\<exists>i' out. rev_nxt c i = Some (i', out) \<and>
      (if i' = ULLONG_MAX then rev_rest c i = {}
       else \<exists>s e n k j. out = Some (s, e, n) \<and> rev_rest c i = {k} \<times> {j} \<times> {s..<e} \<union> rev_rest c i' \<and>
         {s..<e} = query_piece c k j \<and> rev_ok c i' \<and> rev_left c i' < rev_left c i)"
  proof (cases res)
    case None
    with res(2) nxt show ?thesis by (auto simp: next_ok_def)
  next
    case (Some r)
    then obtain a' b' s e n where r: "res = Some (a', b', s, e, n)" by (cases r) auto
    from res(3) have w: "-1 \<le> a'" "a' \<le> a" "0 \<le> b'" "b' \<le> b" "a' + b' < a + b"
      by (auto simp: r rev_within_def)
    have cnts: "int (length (live ta)) = int (t_cnt ta)" "int (length (live tb)) = int (t_cnt tb)"
      using tbl_cnt [OF t(1)] tbl_cnt [OF t(2)] by auto
    have pk: "idx_a_of (idx_pack a' b') = a'" "idx_b_of (idx_pack a' b') = b'" "idx_pack a' b' \<noteq> ULLONG_MAX"
      using idx_a_pack [of a' b'] idx_b_pack [of b' a'] idx_pack_not_max [of a' b'] w ab cnts t(5,6) by auto
    then have pos': "rev_pos ta tb (idx_pack a' b') = (a', b')" by (simp add: rev_pos_def)
    from res(2) obtain k j where kj: "0 \<le> k" "k < int (length (live ta))" "0 \<le> j" "j \<le> int (length (live tb))"
      "rev_rest c i = {k} \<times> {j} \<times> {s..<e} \<union> cov_rev (live ta) (live tb) (query_sel c) a' b'"
      "query_sel c (live ta ! nat k)"
      "{s..<e} = {x. in_region (live ta ! nat k) x \<and> in_area (live tb) j x}"
      by (auto simp: r next_ok_def)
    have "rev_rest c (idx_pack a' b') = cov_rev (live ta) (live tb) (query_sel c) a' b'"
      by (simp add: c rev_rest_def pos')
    moreover have "{s..<e} = query_piece c k j"
      using kj unfolding c query_piece_def by auto
    moreover have "rev_ok c (idx_pack a' b')"
      using ok w ab cnts by (auto simp: c rev_ok_def pos' pos)
    moreover have "rev_left c (idx_pack a' b') < rev_left c i"
      using w ab by (simp add: c rev_left_def pos' pos)
    moreover have "rev_nxt c i = Some (idx_pack a' b', Some (s, e, n))" using nxt by (simp add: r)
    ultimately show ?thesis using kj(5) pk(3) by auto
  qed
qed

text \<open>At the start of either iteration, everything is still to be visited.\<close>

lemma iteration_start:
  assumes "tables_ok ta tb"
  shows "rev_ok (nid, flags, ta, tb) ULLONG_MAX" "fwd_ok (nid, flags, ta, tb) 0"
    "rev_rest (nid, flags, ta, tb) ULLONG_MAX = {(i, j, x). x \<in> query_piece (nid, flags, ta, tb) i j}"
    "fwd_rest (nid, flags, ta, tb) 0 = {(i, j, x). x \<in> query_piece (nid, flags, ta, tb) i j}"
    "rev_left (nid, flags, ta, tb) ULLONG_MAX \<le> t_cnt ta + t_cnt tb"
    "fwd_left (nid, flags, ta, tb) 0 \<le> t_cnt ta + t_cnt tb + 1"
  using assms tbl_cnt
  by (auto simp: rev_ok_def fwd_ok_def rev_rest_def fwd_rest_def rev_left_def fwd_left_def rev_pos_def
      tables_ok_def cov_rev_def cov_fwd_def query_piece_def idx_a_of_def idx_b_of_def dest!: tbl_cnt)

text \<open>The visited addresses are the selected memory outside the excluded regions.\<close>

lemma query_piece_iff:
  assumes "tables_ok ta tb"
  shows "(\<exists>i j. x \<in> query_piece (nid, flags, ta, tb) i j) \<longleftrightarrow>
    (\<exists>m\<in>set (live ta). query_sel (nid, flags, ta, tb) m \<and> in_region m x) \<and> (\<forall>r\<in>set (live tb). \<not> in_region r x)"
    (is "?L \<longleftrightarrow> ?M \<and> ?F")
proof -
  have max: "x < PHYS_ADDR_MAX" if "in_region m x" for m
    using that by (auto simp: in_region_def intro: less_le_trans)
  have area: "(\<exists>j. 0 \<le> j \<and> j \<le> int (length (live tb)) \<and> in_area (live tb) j x) = ?F" if "in_region m x" for m
    using in_area_iff [of "live tb" x] assms max [OF that] by (simp add: tables_ok_def)
  have mem: "?M \<longleftrightarrow> (\<exists>i. 0 \<le> i \<and> i < int (length (live ta)) \<and> query_sel (nid, flags, ta, tb) (live ta ! nat i) \<and>
      in_region (live ta ! nat i) x)"
  proof
    assume ?M
    then obtain k where "k < length (live ta)" "query_sel (nid, flags, ta, tb) (live ta ! k)" "in_region (live ta ! k) x"
      by (auto simp: in_set_conv_nth)
    then show "\<exists>i. 0 \<le> i \<and> i < int (length (live ta)) \<and> query_sel (nid, flags, ta, tb) (live ta ! nat i) \<and>
      in_region (live ta ! nat i) x" by (intro exI [of _ "int k"]) simp
  next
    assume "\<exists>i. 0 \<le> i \<and> i < int (length (live ta)) \<and> query_sel (nid, flags, ta, tb) (live ta ! nat i) \<and>
      in_region (live ta ! nat i) x"
    then show ?M by (metis nat_less_iff nth_mem)
  qed
  show ?thesis unfolding mem query_piece_def using area by auto
qed

end
