(* ===== verification/Memblock_Correct.thy ===== *)
theory Memblock_Correct
  imports Memblock Memblock_Isolate Memblock_Iter_Correct
begin

section \<open>Correctness of the range operations\<close>

text \<open>
  The tables of \<^verbatim>\<open>mm/memblock.c\<close> represent partial maps from addresses to attributes. This theory
  states the invariant of a table and shows that every operation that changes a table keeps the
  invariant and does to the map what its name says: \<^verbatim>\<open>memblock_add_range\<close> adds the addresses that
  were not there, \<^verbatim>\<open>memblock_remove_range\<close> removes a range, \<^verbatim>\<open>memblock_setclr_flag\<close> and
  \<^verbatim>\<open>memblock_set_node\<close> change the attributes inside a range.
\<close>

subsection \<open>The invariant\<close>

definition dummy :: "memblock_region \<Rightarrow> bool" where
  "dummy r \<longleftrightarrow> rg_base r = 0 \<and> rg_size r = 0"

definition regions_ok :: "memblock_region list \<Rightarrow> bool" where
  "regions_ok rs \<longleftrightarrow> rs \<noteq> [] \<and> (ordered rs \<or> (\<exists>d. rs = [d] \<and> dummy d))"

definition type_inv :: "memblock_type \<Rightarrow> bool" where
  "type_inv t \<longleftrightarrow> tbl t (live t) \<and> t_total_size t = total_of (live t) \<and> regions_ok (live t) \<and>
     t_max t < 2 ^ 31 - 1"

definition memblock_inv :: "memblock \<Rightarrow> bool" where
  "memblock_inv m \<longleftrightarrow> type_inv (mb_memory m) \<and> type_inv (mb_reserved m)"

definition table_map :: "table \<Rightarrow> memblock \<Rightarrow> phys_addr_t \<rightharpoonup> u32 \<times> int" where
  "table_map w m = attr (live (get_table w m))"

definition range_map :: "phys_addr_t \<Rightarrow> phys_addr_t \<Rightarrow> u32 \<times> int \<Rightarrow> phys_addr_t \<rightharpoonup> u32 \<times> int" where
  "range_map base en a = (\<lambda>x. if base \<le> x \<and> x < en then Some a else None)"

text \<open>The end of a range as the operations compute it.\<close>

definition range_end :: "phys_addr_t \<Rightarrow> phys_addr_t \<Rightarrow> phys_addr_t" where
  "range_end base sz = base + memblock_cap_size base sz"

lemma get_set_table [simp]: "get_table w (set_table w t m) = t"
  "w \<noteq> w' \<Longrightarrow> get_table w (set_table w' t m) = get_table w m"
  "set_table w t (set_table w t' m) = set_table w t m" "set_table w (get_table w m) m = m"
  by (cases w; cases w'; simp)+

lemma set_table_fields [simp]:
  "mb_bottom_up (set_table w t m) = mb_bottom_up m" "mb_current_limit (set_table w t m) = mb_current_limit m"
  "mb_has_mirror (set_table w t m) = mb_has_mirror m" "mb_can_resize (set_table w t m) = mb_can_resize m"
  "mb_max_low_pfn (set_table w t m) = mb_max_low_pfn m"
  "mb_memory (set_table Reserved t m) = mb_memory m" "mb_reserved (set_table Memory t m) = mb_reserved m"
  "mb_memory (set_table Memory t m) = t" "mb_reserved (set_table Reserved t m) = t"
  by (cases w; simp)+

lemma memblock_inv_table: "memblock_inv m \<longleftrightarrow> (\<forall>w. type_inv (get_table w m))"
  unfolding memblock_inv_def by (metis (full_types) get_table.simps table.exhaust)

lemma memblock_inv_set: "memblock_inv m \<Longrightarrow> type_inv t \<Longrightarrow> memblock_inv (set_table w t m)"
  unfolding memblock_inv_table by (metis get_set_table(1,2))

lemma cap_end:
  "base \<le> range_end base sz" "unat (range_end base sz) = min (unat base + unat sz) (2 ^ 32 - 1)"
  "memblock_cap_size base sz \<noteq> 0 \<Longrightarrow> base < range_end base sz"
  "memblock_cap_size base sz = 0 \<Longrightarrow> range_end base sz = base"
proof -
  have b: "unat base < 2 ^ 32" using unsigned_less [of base, where 'a = nat] by simp
  have "unat (PHYS_ADDR_MAX - base) = 2 ^ 32 - 1 - unat base"
    by (simp add: PHYS_ADDR_MAX_def unat_sub unsigned_minus_1_eq_mask mask_eq_exp_minus_1)
  then have cap: "unat (memblock_cap_size base sz) = min (unat sz) (2 ^ 32 - 1 - unat base)"
    by (simp add: memblock_cap_size_def min_def word_le_nat_alt)
  with b have "unat base + unat (memblock_cap_size base sz) < 2 ^ LENGTH(32)" by simp
  then have sum: "unat (range_end base sz) = unat base + unat (memblock_cap_size base sz)"
    unfolding range_end_def by (rule unat_add_lem [THEN iffD1])
  with cap b show "unat (range_end base sz) = min (unat base + unat sz) (2 ^ 32 - 1)" by simp
  show "base \<le> range_end base sz" using sum by (simp add: word_le_nat_alt)
  show "memblock_cap_size base sz \<noteq> 0 \<Longrightarrow> base < range_end base sz"
    using sum by (simp add: word_less_nat_alt unat_gt_0)
  show "memblock_cap_size base sz = 0 \<Longrightarrow> range_end base sz = base" by (simp add: range_end_def)
qed

lemma range_end_size: "range_end base sz - base = memblock_cap_size base sz"
  by (simp add: range_end_def)

lemma attr_dummy: "dummy d \<Longrightarrow> attr [d] = Map.empty"
  by (auto simp: dummy_def in_region_def rg_end_def)

lemma regions_okE:
  assumes "type_inv t"
  obtains (ord) "ordered (live t)" "live t \<noteq> []" | (dum) d where "live t = [d]" "dummy d"
  using assms by (auto simp: type_inv_def regions_ok_def)

lemma type_inv_tbl: "type_inv t \<Longrightarrow> tbl t (live t)"
  by (simp add: type_inv_def)

lemma type_invI:
  assumes "tbl t rs" "t_total_size t = total_of rs" "regions_ok rs" "t_max t < 2 ^ 31 - 1"
  shows "type_inv t"
  using assms tbl_live [OF assms(1)] by (simp add: type_inv_def)

lemma init_inv: "memblock_inv memblock_init"
proof -
  have reps: "replicate 128 zero_region = zero_region # replicate 127 zero_region"
    by (simp add: numeral_eq_Suc)
  have "tbl init_type [zero_region]"
    unfolding tbl_def init_type_def INIT_MEMBLOCK_REGIONS_def reps by simp
  then have "type_inv init_type"
    by (rule type_invI) (auto simp: init_type_def zero_region_def regions_ok_def dummy_def INIT_MEMBLOCK_REGIONS_def)
  then show ?thesis by (simp add: memblock_inv_def memblock_init_def)
qed

subsection \<open>Room in the tables\<close>

lemma double_array_fixed: "\<not> mb_can_resize m \<Longrightarrow> memblock_double_array w a s m = Some (-1, m)"
  by (simp add: memblock_double_array_def resize_fuel_def numeral_eq_Suc)

lemma ensure_room_fits:
  "t_cnt (get_table w m) + need \<le> t_max (get_table w m) \<Longrightarrow>
     ensure_room resize_fuel dbl w need base sz m = Some (True, m)"
  by (simp add: resize_fuel_def numeral_eq_Suc)

lemma ensure_room_full:
  assumes "\<not> t_cnt (get_table w m) + need \<le> t_max (get_table w m)" "\<not> mb_can_resize m"
  shows "ensure_room resize_fuel memblock_double_array w need base sz m = Some (False, m)"
  using assms double_array_fixed [OF assms(2)] by (simp add: resize_fuel_def numeral_eq_Suc)

subsection \<open>Adding a range\<close>

text \<open>How many regions an addition creates: none where the range is already covered.\<close>

definition new_regions :: "phys_addr_t \<Rightarrow> phys_addr_t \<Rightarrow> int \<Rightarrow> u32 \<Rightarrow> memblock_region list \<Rightarrow> nat" where
  "new_regions base en nid flags rs = length (fill en nid flags base rs) - length rs"

lemma fill_same: "length (fill en nid flags base rs) = length rs \<Longrightarrow> fill en nid flags base rs = rs"
proof (induction rs arbitrary: base)
  case (Cons r rs)
  then show ?case
    using fill_length [of rs en nid flags "min (rg_end r) en"] fill_length [of rs en nid flags base]
    by (auto simp: gap_def split: if_splits)
qed (auto simp: gap_def)

lemma merge_list_length: "length (merge_list rs) \<le> length rs"
  by (induction rs rule: merge_list.induct) auto

lemma live_first:
  assumes "tbl t (r # rs)" shows "arr_get (t_regions t) 0 = Some r"
  using tbl_get [of t "[]" r rs] assms by simp

lemma ordered_size: "ordered (r # rs) \<Longrightarrow> rg_size r \<noteq> 0"
  by (auto simp: ordered_Cons rg_end_def)

lemma add_range_nothing:
  "memblock_cap_size base sz = 0 \<Longrightarrow> add_range_with dbl w base sz nid flags m = Some (0, m)"
  by (simp add: add_range_with_def)

lemma add_range_dummy:
  assumes "type_inv (get_table w m)" "live (get_table w m) = [d]" "dummy d" "memblock_cap_size base sz \<noteq> 0"
  shows "\<exists>t'. add_range_with dbl w base sz nid flags m = Some (0, set_table w t' m) \<and> type_inv t' \<and>
    same_array (get_table w m) t' \<and> live t' = [new_region base (range_end base sz) nid flags]"
proof -
  let ?t = "get_table w m" and ?new = "new_region base (range_end base sz) nid flags"
  have t: "tbl ?t [d]" using type_inv_tbl [OF assms(1)] assms(2) by simp
  then obtain tail where regs: "t_regions ?t = d # tail" and cnt: "t_cnt ?t = 1" "length (t_regions ?t) = t_max ?t"
    by (auto simp: tbl_def)
  have new: "memblock_set_region_node (d\<lparr>rg_base := base, rg_size := memblock_cap_size base sz, rg_flags := flags\<rparr>) nid = ?new"
    by (simp add: memblock_set_region_node_def new_region_def range_end_size)
  let ?t' = "?t\<lparr>t_regions := ?new # tail, t_total_size := memblock_cap_size base sz\<rparr>"
  have "add_range_with dbl w base sz nid flags m = Some (0, set_table w ?t' m)"
    using assms(3,4) regs new by (simp add: add_range_with_def arr_get_def arr_set_def dummy_def Let_def)
  moreover have t': "tbl ?t' [?new]" using regs cnt by (simp add: tbl_def)
  moreover have "type_inv ?t'"
    using assms(1) cap_end(3) [OF assms(4)]
    by (intro type_invI [OF t']) (simp_all add: range_end_size regions_ok_def ordered_Cons type_inv_def)
  ultimately show ?thesis using tbl_live [OF t'] by (auto simp: same_array_def)
qed

lemma add_range_ordered:
  fixes base sz nid flags
  assumes inv: "type_inv (get_table w m)" and ord: "ordered (live (get_table w m))"
    and cap: "memblock_cap_size base sz \<noteq> 0"
    and room: "t_cnt (get_table w m) + new_regions base (range_end base sz) nid flags (live (get_table w m))
      \<le> t_max (get_table w m)"
  defines "rs \<equiv> fill (range_end base sz) nid flags base (live (get_table w m))"
  shows "\<exists>t'. add_range_with dbl w base sz nid flags m = Some (0, set_table w t' m) \<and> type_inv t' \<and>
    same_array (get_table w m) t' \<and> live t' = (if rs = live (get_table w m) then rs else merge_list rs)"
proof -
  let ?t = "get_table w m" and ?en = "range_end base sz"
  have t: "tbl ?t (live ?t)" and ne: "live ?t \<noteq> []" using inv by (auto simp: type_inv_def regions_ok_def)
  then obtain r0 rest where live: "live ?t = r0 # rest" by (cases "live ?t") auto
  have r0: "arr_get (t_regions ?t) 0 = Some r0" "rg_size r0 \<noteq> 0"
    using live_first [of ?t r0 rest] t ord ordered_size [of r0 rest] by (auto simp: live)
  let ?k = "new_regions base ?en nid flags (live ?t)"
  have count: "add_range_round False ?en nid flags 0 base 0 ?t = Some (?k, ?t)"
    using add_range_round_count [of ?t "[]" "live ?t" ?en nid flags base 0] t by (simp add: new_regions_def)
  show ?thesis
  proof (cases "?k = 0")
    case True
    then have "rs = live ?t"
      using fill_same [of ?en nid flags base "live ?t"] fill_length [of "live ?t" ?en nid flags base]
      by (simp add: new_regions_def rs_def)
    moreover have "add_range_with dbl w base sz nid flags m = Some (0, m)"
      using cap r0 count True by (simp add: add_range_with_def range_end_def)
    ultimately show ?thesis using inv by (intro exI [of _ ?t]) simp
  next
    case False
    have len: "length rs \<le> t_max ?t"
      using room tbl_cnt [OF t] fill_length [of "live ?t" ?en nid flags base] by (simp add: new_regions_def rs_def)
    with add_range_round_insert [of ?t "[]" "live ?t" ?en nid flags base 0] t obtain t1 where
      t1: "add_range_round True ?en nid flags 0 base 0 ?t = Some (?k, t1)" "same_array ?t t1" "tbl t1 rs"
      "t_total_size t1 + total_of (live ?t) = t_total_size ?t + total_of rs"
      by (auto simp: new_regions_def rs_def)
    have ors: "ordered rs" "rs \<noteq> []" using fill_ordered [OF ord] fill_length [of "live ?t"] ne
      by (auto simp: rs_def) (metis fill_length le_zero_eq length_0_conv list.size(3))
    from merge_regions_tbl [OF t1(3) ors] obtain t2 where
      t2: "memblock_merge_regions t1 = Some t2" "same_array t1 t2" "tbl t2 (merge_list rs)"
      "t_total_size t2 = t_total_size t1" by blast
    have "add_range_with dbl w base sz nid flags m = Some (0, set_table w t2 m)"
      using cap r0 count False ensure_room_fits [OF room] t1(1) t2(1)
      by (simp add: add_range_with_def range_end_def)
    moreover have "t_total_size t1 = total_of rs" using t1(4) inv by (simp add: type_inv_def)
    moreover have "t_max t2 = t_max ?t" using t1(2) t2(2) by (simp add: same_array_def)
    ultimately have "type_inv t2"
      using t2 ors inv by (intro type_invI [OF t2(3)]) (simp_all add: merge_list_total regions_ok_def merge_list_ordered type_inv_def)
    moreover have "rs \<noteq> live ?t" using False by (auto simp: new_regions_def rs_def)
    ultimately show ?thesis
      using \<open>add_range_with dbl w base sz nid flags m = _\<close> t1(2) t2(2) tbl_live [OF t2(3)] same_array_trans
      by (intro exI [of _ t2]) auto
  qed
qed

text \<open>\<^verbatim>\<open>memblock_add_range\<close> with room for the new regions.\<close>

lemma add_range_ok:
  assumes inv: "type_inv (get_table w m)"
    and room: "t_cnt (get_table w m) + new_regions base (range_end base sz) nid flags (live (get_table w m))
      \<le> t_max (get_table w m)"
  shows "\<exists>t'. add_range_with dbl w base sz nid flags m = Some (0, set_table w t' m) \<and> type_inv t' \<and>
    same_array (get_table w m) t' \<and>
    attr (live t') = range_map base (range_end base sz) (flags, nid) ++ attr (live (get_table w m)) \<and>
    t_cnt t' \<le> t_cnt (get_table w m) + new_regions base (range_end base sz) nid flags (live (get_table w m)) \<and>
    (merged (live (get_table w m)) \<longrightarrow> merged (live t'))"
proof (cases "memblock_cap_size base sz = 0")
  case True
  then have "range_map base (range_end base sz) (flags, nid) = Map.empty"
    by (auto simp: cap_end(4) range_map_def fun_eq_iff)
  with True inv add_range_nothing [OF True, of dbl w nid flags m] show ?thesis
    by (intro exI [of _ "get_table w m"]) simp
next
  case False
  from inv show ?thesis
  proof (cases rule: regions_okE)
    case ord
    from add_range_ordered [OF inv ord(1) False room, of dbl] obtain t' where t':
      "add_range_with dbl w base sz nid flags m = Some (0, set_table w t' m)" "type_inv t'"
      "same_array (get_table w m) t'"
      "live t' = (if fill (range_end base sz) nid flags base (live (get_table w m)) = live (get_table w m)
         then fill (range_end base sz) nid flags base (live (get_table w m))
         else merge_list (fill (range_end base sz) nid flags base (live (get_table w m))))" by blast
    have "attr (live t') = attr (fill (range_end base sz) nid flags base (live (get_table w m)))"
      by (simp add: t'(4) merge_list_attr fill_ordered ord(1))
    also have "\<dots> = range_map base (range_end base sz) (flags, nid) ++ attr (live (get_table w m))"
      by (auto simp: fun_eq_iff fill_attr [OF ord(1)] range_map_def map_add_def split: option.splits)
    finally have "attr (live t') = range_map base (range_end base sz) (flags, nid) ++ attr (live (get_table w m))" .
    moreover have "length (live t') \<le> length (fill (range_end base sz) nid flags base (live (get_table w m)))"
      by (simp add: t'(4) merge_list_length)
    then have "t_cnt t' \<le> t_cnt (get_table w m) + new_regions base (range_end base sz) nid flags (live (get_table w m))"
      using tbl_cnt [OF type_inv_tbl [OF t'(2)]] tbl_cnt [OF type_inv_tbl [OF inv]]
        fill_length [of "live (get_table w m)" "range_end base sz" nid flags base] by (simp add: new_regions_def)
    ultimately show ?thesis using t' merge_list_merged by auto
  next
    case (dum d)
    from add_range_dummy [OF inv dum False, of dbl nid flags] obtain t' where t':
      "add_range_with dbl w base sz nid flags m = Some (0, set_table w t' m)" "type_inv t'"
      "same_array (get_table w m) t'" "live t' = [new_region base (range_end base sz) nid flags]" by blast
    have "attr (live t') = range_map base (range_end base sz) (flags, nid) ++ attr (live (get_table w m))"
      by (auto simp: t'(4) attr_dummy [OF dum(2)] dum(1) range_map_def in_region_def)
    with t' dum show ?thesis
      using tbl_cnt [OF type_inv_tbl [OF t'(2)]] tbl_cnt [OF type_inv_tbl [OF inv]] by (auto simp: merged_def)
  qed
qed

text \<open>Without room, and while the tables must not grow, the call fails and changes nothing.\<close>

lemma add_range_full:
  assumes inv: "type_inv (get_table w m)" and ord: "ordered (live (get_table w m))"
    and cap: "memblock_cap_size base sz \<noteq> 0" and fixed: "\<not> mb_can_resize m"
    and room: "\<not> t_cnt (get_table w m) + new_regions base (range_end base sz) nid flags (live (get_table w m))
      \<le> t_max (get_table w m)"
  shows "memblock_add_range w base sz nid flags m = Some (- ENOMEM, m)"
proof -
  let ?t = "get_table w m" and ?en = "range_end base sz"
  have t: "tbl ?t (live ?t)" and ne: "live ?t \<noteq> []" using inv by (auto simp: type_inv_def regions_ok_def)
  then obtain r0 rest where live: "live ?t = r0 # rest" by (cases "live ?t") auto
  have r0: "arr_get (t_regions ?t) 0 = Some r0" "rg_size r0 \<noteq> 0"
    using live_first [of ?t r0 rest] t ord ordered_size [of r0 rest] by (auto simp: live)
  let ?k = "new_regions base ?en nid flags (live ?t)"
  have count: "add_range_round False ?en nid flags 0 base 0 ?t = Some (?k, ?t)"
    using add_range_round_count [of ?t "[]" "live ?t" ?en nid flags base 0] t by (simp add: new_regions_def)
  have "?k \<noteq> 0" using room tbl_le_max [OF t] tbl_cnt [OF t] by auto
  then show ?thesis
    using cap r0 count ensure_room_full [OF room fixed, of base "memblock_cap_size base sz"]
    by (simp add: memblock_add_range_def add_range_with_def range_end_def)
qed

text \<open>An addition creates at most one region more than the table has.\<close>

lemma fill_length_le: "length (fill en nid flags base rs) \<le> 2 * length rs + 1"
proof (induction rs arbitrary: base)
  case (Cons r rs)
  from Cons.IH [of base] Cons.IH [of "min (rg_end r) en"] show ?case by (auto simp: gap_def)
qed (simp add: gap_def)

lemma new_regions_le: "new_regions base en nid flags rs \<le> length rs + 1"
  using fill_length_le [of en nid flags base rs] by (simp add: new_regions_def)

subsection \<open>Isolating and removing a range\<close>

lemma isolate_range_nothing:
  "memblock_cap_size base sz = 0 \<Longrightarrow> isolate_range_with dbl w base sz m = Some (0, 0, 0, m)"
  by (simp add: isolate_range_with_def)

lemma isolate_range_full:
  assumes "memblock_cap_size base sz \<noteq> 0" "\<not> mb_can_resize m" "t_max (get_table w m) < t_cnt (get_table w m) + 2"
  shows "memblock_isolate_range w base sz m = Some (- ENOMEM, 0, 0, m)"
  using assms ensure_room_full [of w m 2] by (simp add: memblock_isolate_range_def isolate_range_with_def)

text \<open>The regions of the table after isolating: those below, inside and above the range.\<close>

definition isolation :: "phys_addr_t \<Rightarrow> phys_addr_t \<Rightarrow> memblock_region list
    \<Rightarrow> memblock_region list \<Rightarrow> memblock_region list \<Rightarrow> memblock_region list \<Rightarrow> bool" where
  "isolation base en rs low mid high \<longleftrightarrow>
     attr (low @ mid @ high) = attr rs \<and> total_of (low @ mid @ high) = total_of rs \<and>
     length (low @ mid @ high) \<le> length rs + 2 \<and>
     (\<forall>r\<in>set low. rg_end r \<le> base) \<and> (\<forall>r\<in>set mid. base \<le> rg_base r \<and> rg_end r \<le> en) \<and>
     (\<forall>r\<in>set high. en \<le> rg_base r) \<and>
     (ordered (low @ mid @ high) \<and> low @ mid @ high \<noteq> [] \<or> (\<exists>d. dummy d \<and> low = [d] \<and> mid = [] \<and> high = []))"

lemma isolate_loop_dummy:
  assumes "tbl t [d]" "dummy d" "base < en"
  shows "isolate_loop base en 0 0 0 t = Some (0, 0, t)"
proof -
  have "isolate_loop base en 0 0 0 t = isolate_loop base en (Suc 0) 0 0 t"
    using isolate_below [of t "[]" d "[]" en base 0 0] assms by (simp add: dummy_def rg_end_def word_neq_0_conv)
      (metis word_greater_zero_iff word_neq_0_conv order_le_less_trans word_zero_le)
  then show ?thesis using isolate_end [OF assms(1), of base en 0 0] by simp
qed

lemma isolate_range_ok:
  assumes inv: "type_inv (get_table w m)" and cap: "memblock_cap_size base sz \<noteq> 0"
    and room: "t_cnt (get_table w m) + 2 \<le> t_max (get_table w m)"
  shows "\<exists>low mid high s e t'. isolate_range_with dbl w base sz m = Some (0, s, e, set_table w t' m) \<and>
    same_array (get_table w m) t' \<and> tbl t' (low @ mid @ high) \<and> t_total_size t' = t_total_size (get_table w m) \<and>
    isolation base (range_end base sz) (live (get_table w m)) low mid high \<and>
    (if mid = [] then s = 0 \<and> e = 0 else s = length low \<and> e = length low + length mid)"
proof -
  let ?t = "get_table w m" and ?en = "range_end base sz"
  have t: "tbl ?t (live ?t)" using inv by (rule type_inv_tbl)
  have be: "base < ?en" using cap_end(3) [OF cap] .
  have run: "isolate_range_with dbl w base sz m =
      do { (s, e, t') \<leftarrow> isolate_loop base ?en 0 0 0 ?t; Some (0, s, e, set_table w t' m) }"
    using cap ensure_room_fits [OF room] by (simp add: isolate_range_with_def range_end_def)
  from inv show ?thesis
  proof (cases rule: regions_okE)
    case ord
    obtain low mid high where iso: "iso base ?en (live ?t) = (low, mid, high)" by (cases "iso base ?en (live ?t)")
    note props = iso_props [OF ord(1) be iso]
    have len: "length ([] @ low @ mid @ high) \<le> t_max ?t" using props room tbl_cnt [OF t] by simp
    from isolate_loop_iso [of ?t "[]", OF _ ord(1) be iso len] t obtain t' where t':
      "isolate_loop base ?en 0 0 0 ?t = Some (if mid = [] then 0 else length low,
         if mid = [] then 0 else length low + length mid, t')"
      "same_array ?t t'" "tbl t' (low @ mid @ high)" "t_total_size t' = t_total_size ?t" by auto
    have ne: "low @ mid @ high \<noteq> []"
      using props ord by (metis attr.simps(1) attr_None in_region_def last_in_set linorder_not_le order_refl ordered_bounds)
    have "isolation base ?en (live ?t) low mid high"
      unfolding isolation_def using props ne by blast
    moreover have "isolate_range_with dbl w base sz m = Some (0, if mid = [] then 0 else length low,
         if mid = [] then 0 else length low + length mid, set_table w t' m)"
      using t'(1) run by simp
    ultimately show ?thesis using t'(2-4)
      by (intro exI [of _ low] exI [of _ mid] exI [of _ high] exI [of _ "if mid = [] then 0 else length low"]
          exI [of _ "if mid = [] then 0 else length low + length mid"] exI [of _ t'] conjI) simp_all
  next
    case (dum d)
    have "rg_end d \<le> base" using dum(2) by (simp add: dummy_def rg_end_def)
    then have "isolation base ?en (live ?t) [d] [] []" using dum by (auto simp: isolation_def)
    moreover have "isolate_loop base ?en 0 0 0 ?t = Some (0, 0, ?t)"
      using isolate_loop_dummy [OF _ dum(2) be] t dum(1) by simp
    ultimately show ?thesis
      using run t dum(1)
      by (intro exI [of _ "[d]"] exI [of _ "[]"] exI [of _ "[]"] exI [of _ 0] exI [of _ ?t] conjI) auto
  qed
qed

lemma isolation_attr:
  assumes "isolation base en rs low mid high" "base \<le> en"
  shows "attr rs x = (if x < base then attr low x else if x < en then attr mid x else attr high x)"
proof -
  have *: "\<forall>r\<in>set low. rg_end r \<le> base" "\<forall>r\<in>set mid. base \<le> rg_base r \<and> rg_end r \<le> en"
    "\<forall>r\<in>set high. en \<le> rg_base r" and a: "attr (low @ mid @ high) = attr rs"
    using assms(1) unfolding isolation_def by blast+
  show ?thesis using attr_parts [OF assms(2) *, of x] a by simp
qed

lemma isolation_removed:
  assumes "isolation base en rs low mid high" "base \<le> en"
  shows "attr (low @ high) = attr rs |` (- {base..<en})"
proof
  fix x
  have *: "\<forall>r\<in>set low. rg_end r \<le> base" "\<forall>r\<in>set []. base \<le> rg_base r \<and> rg_end r \<le> en"
    "\<forall>r\<in>set high. en \<le> rg_base r" using assms(1) unfolding isolation_def by auto
  have "attr (low @ high) x = (if x < base then attr low x else if x < en then None else attr high x)"
    using attr_parts [OF assms(2) *, of x] by simp
  then show "attr (low @ high) x = (attr rs |` (- {base..<en})) x"
    using isolation_attr [OF assms, of x] by (auto simp: restrict_map_def)
qed

text \<open>\<^verbatim>\<open>memblock_remove_range\<close> removes the addresses of the range and nothing else.\<close>

lemma remove_range_ok:
  assumes inv: "type_inv (get_table w m)"
    and room: "t_cnt (get_table w m) + 2 \<le> t_max (get_table w m)"
  shows "\<exists>t'. remove_range_with dbl w base sz m = Some (0, set_table w t' m) \<and> type_inv t' \<and>
    same_array (get_table w m) t' \<and> t_cnt t' \<le> t_cnt (get_table w m) + 2 \<and>
    attr (live t') = attr (live (get_table w m)) |` (- {base..<range_end base sz})"
proof (cases "memblock_cap_size base sz = 0")
  case True
  then have "remove_range_with dbl w base sz m = Some (0, set_table w (get_table w m) m)"
    using isolate_range_nothing [OF True, of dbl w m]
    by (simp add: remove_range_with_def remove_regions_down.simps [of 0 0])
  with True inv show ?thesis by (intro exI [of _ "get_table w m"]) (auto simp: cap_end(4) restrict_map_def)
next
  case False
  let ?t = "get_table w m" and ?en = "range_end base sz"
  from isolate_range_ok [OF inv False room, of dbl] obtain low mid high s e t1 where
    t1: "isolate_range_with dbl w base sz m = Some (0, s, e, set_table w t1 m)" "same_array ?t t1"
    "tbl t1 (low @ mid @ high)" "t_total_size t1 = t_total_size ?t"
    and iso: "isolation base ?en (live ?t) low mid high"
    and se: "if mid = [] then s = 0 \<and> e = 0 else s = length low \<and> e = length low + length mid" by blast
  let ?rs = "if mid \<noteq> [] \<and> low = [] \<and> high = [] then [empty_region] else low @ high"
  obtain t2 where t2: "remove_regions_down s e t1 = Some t2" "same_array t1 t2" "tbl t2 ?rs"
    "t_total_size t2 = t_total_size t1 - total_of mid"
  proof (cases "mid = []")
    case True
    with se t1(3) that show ?thesis by (simp add: remove_regions_down.simps [of 0 0])
  next
    case False
    with se remove_regions_down_tbl [OF t1(3)] that show ?thesis by auto
  qed
  have dummy: "dummy empty_region" by (simp add: dummy_def empty_region_def)
  have "t_total_size t1 = total_of low + total_of mid + total_of high"
    using t1(4) inv iso by (simp add: type_inv_def isolation_def add.assoc)
  then have "t_total_size t2 = total_of ?rs" using t2(4) by (auto simp: empty_region_def)
  moreover have "regions_ok ?rs"
    using iso dummy by (auto simp: isolation_def regions_ok_def ordered_append)
  moreover have "t_max t2 < 2 ^ 31 - 1"
    using inv t1(2) t2(2) by (simp add: same_array_def type_inv_def)
  ultimately have "type_inv t2" by (intro type_invI [OF t2(3)])
  moreover have "attr ?rs = attr (low @ high)" using attr_dummy [OF dummy] by auto
  moreover have "t_cnt t2 \<le> t_cnt ?t + 2"
    using tbl_cnt [OF t2(3)] tbl_cnt [OF type_inv_tbl [OF inv]] iso by (auto simp: isolation_def)
  ultimately show ?thesis
    using t1(1,2) t2(1,2) tbl_live [OF t2(3)] isolation_removed [OF iso cap_end(1)] same_array_trans
    by (intro exI [of _ t2]) (auto simp: remove_range_with_def)
qed

lemma remove_range_full:
  assumes "memblock_cap_size base sz \<noteq> 0" "\<not> mb_can_resize m" "t_max (get_table w m) < t_cnt (get_table w m) + 2"
  shows "memblock_remove_range w base sz m = Some (- ENOMEM, m)"
  using isolate_range_full [OF assms]
  by (simp add: memblock_remove_range_def remove_range_with_def memblock_isolate_range_def ENOMEM_def)

subsection \<open>Changing the attributes inside a range\<close>

lemma update_regions_list:
  "update_regions f (length low) (length low + length mid) (low @ mid @ tail) = Some (low @ map f mid @ tail)"
proof (induction mid arbitrary: low)
  case Nil
  then show ?case by (simp add: update_regions.simps)
next
  case (Cons r mid)
  from Cons.IH [of "low @ [f r]"] show ?case
    by (subst update_regions.simps) (simp add: arr_get_def arr_set_def nth_append list_update_append)
qed

definition update_range where
  "update_range f w base sz m = do {
     (ret, start_rgn, end_rgn, m') \<leftarrow> memblock_isolate_range w base sz m;
     if ret \<noteq> 0 then Some (ret, m')
     else do {
       let t = get_table w m';
       regs \<leftarrow> update_regions f start_rgn end_rgn (t_regions t);
       t' \<leftarrow> memblock_merge_regions (t\<lparr>t_regions := regs\<rparr>);
       Some (0, set_table w t' m') } }"

lemma setclr_flag_update: "memblock_setclr_flag base sz on flag = update_range (setclr on flag) Memory base sz"
  by (simp add: fun_eq_iff memblock_setclr_flag_def update_range_def Let_def cong: if_cong)

lemma set_node_update: "memblock_set_node base sz w nid = update_range (\<lambda>r. memblock_set_region_node r nid) w base sz"
  by (simp add: fun_eq_iff memblock_set_node_def update_range_def)

lemma merge_regions_ok:
  assumes "tbl t rs" "regions_ok rs"
  shows "\<exists>t'. memblock_merge_regions t = Some t' \<and> same_array t t' \<and> tbl t' (merge_list rs) \<and>
    t_total_size t' = t_total_size t \<and> regions_ok (merge_list rs) \<and> attr (merge_list rs) = attr rs"
proof (cases "ordered rs")
  case True
  with assms merge_regions_tbl [OF assms(1) True] show ?thesis
    by (auto simp: regions_ok_def merge_list_ordered merge_list_attr)
next
  case False
  with assms obtain d where d: "rs = [d]" "dummy d" by (auto simp: regions_ok_def)
  with assms(1) have "memblock_merge_regions t = Some t"
    by (simp add: memblock_merge_regions_def memblock_merge_from.simps [of 0 t] tbl_def)
  with assms d show ?thesis by auto
qed

lemma update_range_ok:
  assumes inv: "type_inv (get_table w m)"
    and room: "t_cnt (get_table w m) + 2 \<le> t_max (get_table w m)"
    and f: "\<And>r. rg_base (f r) = rg_base r" "\<And>r. rg_size (f r) = rg_size r"
      "\<And>r. (rg_flags (f r), rg_nid (f r)) = g (rg_flags r, rg_nid r)"
  shows "\<exists>t'. update_range f w base sz m = Some (0, set_table w t' m) \<and> type_inv t' \<and>
    same_array (get_table w m) t' \<and> merged (live t') \<and>
    attr (live t') = (\<lambda>x. if base \<le> x \<and> x < range_end base sz
       then map_option g (attr (live (get_table w m)) x) else attr (live (get_table w m)) x)"
proof -
  let ?t = "get_table w m" and ?en = "range_end base sz"
  have max: "t_max ?t < 2 ^ 31 - 1" using inv by (simp add: type_inv_def)
  have "\<exists>s e t1 rs regs. memblock_isolate_range w base sz m = Some (0, s, e, set_table w t1 m) \<and>
      same_array ?t t1 \<and> t_total_size t1 = total_of rs \<and> update_regions f s e (t_regions t1) = Some regs \<and>
      tbl (t1\<lparr>t_regions := regs\<rparr>) rs \<and> regions_ok rs \<and> attr rs = (\<lambda>x. if base \<le> x \<and> x < ?en
       then map_option g (attr (live ?t) x) else attr (live ?t) x)"
  proof (cases "memblock_cap_size base sz = 0")
    case True
    have "(\<lambda>x. if base \<le> x \<and> x < ?en then map_option g (attr (live ?t) x) else attr (live ?t) x) = attr (live ?t)"
      using cap_end(4) [OF True] by (auto simp: fun_eq_iff)
    with True inv show ?thesis
      by (intro exI [of _ 0] exI [of _ ?t] exI [of _ "live ?t"] exI [of _ "t_regions ?t"])
        (simp add: type_inv_def memblock_isolate_range_def isolate_range_nothing [OF True] update_regions.simps)
  next
    case False
    from isolate_range_ok [OF inv False room, of memblock_double_array] obtain low mid high s e t1 where
      t1: "memblock_isolate_range w base sz m = Some (0, s, e, set_table w t1 m)" "same_array ?t t1"
      "tbl t1 (low @ mid @ high)" "t_total_size t1 = t_total_size ?t"
      and iso: "isolation base ?en (live ?t) low mid high"
      and se: "if mid = [] then s = 0 \<and> e = 0 else s = length low \<and> e = length low + length mid"
      by (auto simp: memblock_isolate_range_def)
    from t1(3) obtain tail where regs: "t_regions t1 = low @ mid @ high @ tail" by (auto simp: tbl_def)
    let ?rs = "low @ map f mid @ high"
    have upd: "update_regions f s e (t_regions t1) = Some (?rs @ tail)"
      using se update_regions_list [of f low mid "high @ tail"]
      by (auto simp: regs update_regions.simps [of f 0 0] split: if_splits)
    have ends: "rg_end (f r) = rg_end r" for r by (simp add: rg_end_def f)
    have tot: "total_of (map f mid) = total_of mid" by (simp add: total_of_def comp_def f)
    have omap: "ordered (map f mid) = ordered mid" by (simp add: ordered_def sorted_wrt_map ends f)
    have ord: "ordered ?rs" if "ordered (low @ mid @ high)"
      using that omap by (auto simp: ordered_append ends f)
    have ok: "regions_ok ?rs"
      using iso ord unfolding isolation_def regions_ok_def by auto
    have *: "\<forall>r\<in>set low. rg_end r \<le> base" "\<forall>r\<in>set (map f mid). base \<le> rg_base r \<and> rg_end r \<le> ?en"
      "\<forall>r\<in>set high. ?en \<le> rg_base r" using iso by (auto simp: isolation_def f ends)
    have "attr ?rs x = (if base \<le> x \<and> x < ?en then map_option g (attr (live ?t) x) else attr (live ?t) x)" for x
      using attr_parts [OF cap_end(1) *, of x] isolation_attr [OF iso cap_end(1), of x] attr_update [of f, OF f, of mid x]
      by auto
    then have "attr ?rs = (\<lambda>x. if base \<le> x \<and> x < ?en then map_option g (attr (live ?t) x) else attr (live ?t) x)"
      by (rule ext)
    moreover have "tbl (t1\<lparr>t_regions := ?rs @ tail\<rparr>) ?rs" using t1(3) regs by (simp add: tbl_def)
    moreover have "t_total_size t1 = total_of ?rs"
      using t1(4) inv iso tot by (simp add: type_inv_def isolation_def)
    ultimately show ?thesis using t1(1,2) upd ok by blast
  qed
  then obtain s e t1 rs regs where *: "memblock_isolate_range w base sz m = Some (0, s, e, set_table w t1 m)"
      "same_array ?t t1" "t_total_size t1 = total_of rs" "update_regions f s e (t_regions t1) = Some regs"
      "tbl (t1\<lparr>t_regions := regs\<rparr>) rs" "regions_ok rs" and a: "attr rs = (\<lambda>x. if base \<le> x \<and> x < ?en
       then map_option g (attr (live ?t) x) else attr (live ?t) x)" by blast
  from merge_regions_ok [OF *(5,6)] obtain t2 where t2: "memblock_merge_regions (t1\<lparr>t_regions := regs\<rparr>) = Some t2"
    "same_array (t1\<lparr>t_regions := regs\<rparr>) t2" "tbl t2 (merge_list rs)" "t_total_size t2 = total_of (merge_list rs)"
    "regions_ok (merge_list rs)" "attr (merge_list rs) = attr rs" using *(3) merge_list_total by auto
  have sa: "same_array ?t t2" using t2(2) *(2) by (simp add: same_array_def)
  have "type_inv t2" using t2 sa max by (intro type_invI [OF t2(3)]) (simp_all add: same_array_def)
  with sa t2 * a show ?thesis
    using merge_list_merged [of rs] tbl_live [OF t2(3)]
    by (intro exI [of _ t2]) (simp add: update_range_def)
qed

subsection \<open>The contract of a table\<close>

text \<open>
  What the clients of a table rely on: adding a range defines the addresses that were not there,
  removing a range undefines it, and a table with enough free entries does not fail. Both tables
  of the allocator meet the contract.
\<close>

locale range_store =
  fixes inv :: "'s \<Rightarrow> bool"
    and amap :: "'s \<Rightarrow> phys_addr_t \<rightharpoonup> u32 \<times> int"
    and used :: "'s \<Rightarrow> nat"
    and space :: "'s \<Rightarrow> nat"
    and add :: "phys_addr_t \<Rightarrow> phys_addr_t \<Rightarrow> int \<Rightarrow> u32 \<Rightarrow> 's \<Rightarrow> (int \<times> 's) option"
    and del :: "phys_addr_t \<Rightarrow> phys_addr_t \<Rightarrow> 's \<Rightarrow> (int \<times> 's) option"
  assumes add_law: "inv s \<Longrightarrow> 2 * used s + 1 \<le> space s \<Longrightarrow>
      \<exists>s'. add base sz nid flags s = Some (0, s') \<and> inv s' \<and> space s' = space s \<and> used s' \<le> 2 * used s + 1 \<and>
        amap s' = range_map base (range_end base sz) (flags, nid) ++ amap s"
    and del_law: "inv s \<Longrightarrow> used s + 2 \<le> space s \<Longrightarrow>
      \<exists>s'. del base sz s = Some (0, s') \<and> inv s' \<and> space s' = space s \<and> used s' \<le> used s + 2 \<and>
        amap s' = amap s |` (- {base..<range_end base sz})"
begin

text \<open>Adding a range that was free and removing it again restores the map.\<close>

lemma add_del:
  assumes "inv s" "2 * used s + 3 \<le> space s" "\<And>x. base \<le> x \<Longrightarrow> x < range_end base sz \<Longrightarrow> amap s x = None"
  shows "\<exists>s1 s2. add base sz nid flags s = Some (0, s1) \<and> del base sz s1 = Some (0, s2) \<and> inv s2 \<and> amap s2 = amap s"
proof -
  from add_law [of s base sz nid flags] assms(1,2) obtain s1 where
    s1: "add base sz nid flags s = Some (0, s1)" "inv s1" "space s1 = space s" "used s1 \<le> 2 * used s + 1"
    "amap s1 = range_map base (range_end base sz) (flags, nid) ++ amap s" by auto
  from del_law [of s1 base sz] s1 assms(2) obtain s2 where
    s2: "del base sz s1 = Some (0, s2)" "inv s2" "amap s2 = amap s1 |` (- {base..<range_end base sz})" by auto
  have "amap s2 = amap s"
    using assms(3) by (auto simp: s2(3) s1(5) fun_eq_iff restrict_map_def range_map_def map_add_def split: option.splits)
  with s1(1) s2(1,2) show ?thesis by blast
qed

text \<open>A removed range is free.\<close>

lemma del_free:
  assumes "inv s" "used s + 2 \<le> space s"
  shows "\<exists>s'. del base sz s = Some (0, s') \<and> (\<forall>x. base \<le> x \<and> x < range_end base sz \<longrightarrow> amap s' x = None)"
  using del_law [OF assms, of base sz] by (auto simp: restrict_map_def)

end

lemma table_add_law:
  assumes "memblock_inv m" "2 * t_cnt (get_table w m) + 1 \<le> t_max (get_table w m)"
  shows "\<exists>m'. memblock_add_range w base sz nid flags m = Some (0, m') \<and> memblock_inv m' \<and>
    t_max (get_table w m') = t_max (get_table w m) \<and> t_cnt (get_table w m') \<le> 2 * t_cnt (get_table w m) + 1 \<and>
    table_map w m' = range_map base (range_end base sz) (flags, nid) ++ table_map w m"
proof -
  have ti: "type_inv (get_table w m)" using assms(1) by (simp add: memblock_inv_table)
  have le: "new_regions base (range_end base sz) nid flags (live (get_table w m)) \<le> t_cnt (get_table w m) + 1"
    using new_regions_le [of base _ nid flags "live (get_table w m)"] tbl_cnt [OF type_inv_tbl [OF ti]] by simp
  then have room: "t_cnt (get_table w m) + new_regions base (range_end base sz) nid flags (live (get_table w m)) \<le> t_max (get_table w m)"
    using assms(2) by linarith
  from add_range_ok [OF ti room, of memblock_double_array] obtain t' where
    t': "memblock_add_range w base sz nid flags m = Some (0, set_table w t' m)" "type_inv t'" "same_array (get_table w m) t'"
    "attr (live t') = range_map base (range_end base sz) (flags, nid) ++ attr (live (get_table w m))"
    "t_cnt t' \<le> t_cnt (get_table w m) + new_regions base (range_end base sz) nid flags (live (get_table w m))"
    by (auto simp: memblock_add_range_def)
  then show ?thesis
    using memblock_inv_set [OF assms(1) t'(2)] le by (auto simp: table_map_def same_array_def)
qed

lemma table_del_law:
  assumes "memblock_inv m" "t_cnt (get_table w m) + 2 \<le> t_max (get_table w m)"
  shows "\<exists>m'. memblock_remove_range w base sz m = Some (0, m') \<and> memblock_inv m' \<and>
    t_max (get_table w m') = t_max (get_table w m) \<and> t_cnt (get_table w m') \<le> t_cnt (get_table w m) + 2 \<and>
    table_map w m' = table_map w m |` (- {base..<range_end base sz})"
proof -
  have ti: "type_inv (get_table w m)" using assms(1) by (simp add: memblock_inv_table)
  from remove_range_ok [OF ti assms(2), of memblock_double_array base sz] show ?thesis
    using memblock_inv_set [OF assms(1)] by (auto simp: table_map_def same_array_def memblock_remove_range_def)
qed

interpretation memory_store: range_store memblock_inv "table_map Memory" "\<lambda>m. t_cnt (mb_memory m)" "\<lambda>m. t_max (mb_memory m)"
  "memblock_add_range Memory" "memblock_remove_range Memory"
  using table_add_law [of _ Memory] table_del_law [of _ Memory] by unfold_locales auto

interpretation reserved_store: range_store memblock_inv "table_map Reserved" "\<lambda>m. t_cnt (mb_reserved m)" "\<lambda>m. t_max (mb_reserved m)"
  "memblock_add_range Reserved" "memblock_remove_range Reserved"
  using table_add_law [of _ Reserved] table_del_law [of _ Reserved] by unfold_locales auto

end
