(* ===== verification/Memblock_Find.thy ===== *)
theory Memblock_Find
  imports Memblock_Correct
begin

section \<open>Searching for free memory\<close>

text \<open>
  The two search routines \<^verbatim>\<open>__memblock_find_range_top_down\<close> and \<^verbatim>\<open>__memblock_find_range_bottom_up\<close>
  are shown to return an aligned block of free memory inside the given bounds whenever there is
  one, on top of the contract of the range iterators.
\<close>

subsection \<open>Rounding\<close>

lemma and_not_mask_eq: "(x :: 'a::len word) AND NOT (mask n) = push_bit n (drop_bit n x)"
  by (rule bit_word_eqI) (auto simp: bit_simps)

lemma pow_minus_mask: "n < 32 \<Longrightarrow> (2 ^ n - 1 :: u32) = mask n"
  by (simp add: mask_eq_exp_minus_1)

lemma unat_align_down:
  "unat (push_bit n (drop_bit n (x :: 'a::len word))) = unat x div 2 ^ n * 2 ^ n"
proof -
  have "unat x div 2 ^ n * 2 ^ n \<le> unat x" by simp
  also have "\<dots> < 2 ^ LENGTH('a)" using unsigned_less [of x, where 'a = nat] by simp
  finally show ?thesis
    by (subst unsigned_push_bit_eq, subst unsigned_drop_bit_eq)
      (simp add: push_bit_eq_mult drop_bit_eq_div take_bit_nat_eq_self mult.commute)
qed

lemma unat_round_down: "n < 32 \<Longrightarrow> unat (round_down x (2 ^ n)) = unat x div 2 ^ n * 2 ^ n"
  by (simp add: round_down_def pow_minus_mask and_not_mask_eq unat_align_down)

lemma round_down_props:
  assumes "n < 32"
  shows "round_down x (2 ^ n) \<le> x" "2 ^ n dvd unat (round_down x (2 ^ n))"
    "2 ^ n dvd unat c \<Longrightarrow> c \<le> x \<Longrightarrow> c \<le> round_down x (2 ^ n)"
proof -
  show "round_down x (2 ^ n) \<le> x" by (simp add: word_le_nat_alt unat_round_down [OF assms])
  show "2 ^ n dvd unat (round_down x (2 ^ n))" by (simp add: unat_round_down [OF assms])
  assume c: "2 ^ n dvd unat c" "c \<le> x"
  then have "unat c div 2 ^ n * 2 ^ n \<le> unat x div 2 ^ n * 2 ^ n"
    by (intro mult_le_mono1 div_le_mono) (simp add: word_le_nat_alt)
  with c(1) show "c \<le> round_down x (2 ^ n)" by (simp add: word_le_nat_alt unat_round_down [OF assms])
qed

subsection \<open>Blocks of free memory\<close>

definition block :: "phys_addr_t \<Rightarrow> phys_addr_t \<Rightarrow> phys_addr_t set" where
  "block c sz = {x. unat c \<le> unat x \<and> unat x < unat c + unat sz}"

text \<open>An aligned block within the bounds that lies in one region of memory that the node and the
  flags select, and that meets no reserved region.\<close>

definition free_block ::
  "memblock \<Rightarrow> phys_addr_t \<Rightarrow> phys_addr_t \<Rightarrow> phys_addr_t \<Rightarrow> nat \<Rightarrow> int \<Rightarrow> u32 \<Rightarrow> phys_addr_t \<Rightarrow> bool" where
  "free_block m start en sz align nid flags c \<longleftrightarrow>
     align dvd unat c \<and> start \<le> c \<and> unat c + unat sz \<le> unat en \<and>
     (\<exists>r\<in>set (live (mb_memory m)). \<not> should_skip_region r (node_of nid) flags \<and> (\<forall>x\<in>block c sz. in_region r x)) \<and>
     (\<forall>x\<in>block c sz. table_map Reserved m x = None)"

definition fits :: "range_query \<Rightarrow> phys_addr_t \<Rightarrow> phys_addr_t \<Rightarrow> phys_addr_t \<Rightarrow> nat \<Rightarrow> phys_addr_t \<Rightarrow> int \<Rightarrow> int \<Rightarrow> bool" where
  "fits q start en sz align c i j \<longleftrightarrow>
     align dvd unat c \<and> start \<le> c \<and> unat c + unat sz \<le> unat en \<and> block c sz \<subseteq> query_piece q i j"

lemma regions_ok_weak: "regions_ok rs \<Longrightarrow> weak_ordered rs"
  by (auto simp: regions_ok_def dummy_def weak_ordered_def rg_end_def ordered_def)

lemma memblock_inv_tables:
  assumes "memblock_inv m"
  shows "tables_ok (mb_memory m) (mb_reserved m)" "regions_ok (live (mb_memory m))" "regions_ok (live (mb_reserved m))"
proof -
  have t: "tbl (mb_memory m) (live (mb_memory m))" "tbl (mb_reserved m) (live (mb_reserved m))"
    "t_max (mb_memory m) < 2 ^ 31 - 1" "t_max (mb_reserved m) < 2 ^ 31 - 1"
    and ok: "regions_ok (live (mb_memory m))" "regions_ok (live (mb_reserved m))"
    using assms by (auto simp: memblock_inv_def type_inv_def)
  then show "tables_ok (mb_memory m) (mb_reserved m)"
    using tbl_le_max [OF t(1)] tbl_le_max [OF t(2)] tbl_cnt [OF t(1)] tbl_cnt [OF t(2)]
    by (auto simp: tables_ok_def regions_ok_weak)
  show "regions_ok (live (mb_memory m))" "regions_ok (live (mb_reserved m))" by (fact ok)+
qed

lemma block_start: "0 < sz \<Longrightarrow> c \<in> block c sz"
  by (simp add: block_def word_less_nat_alt)

text \<open>A block that meets no excluded region lies in a single area between them.\<close>

lemma block_in_area:
  assumes ok: "regions_ok rs" and free: "\<forall>x\<in>block c sz. attr rs x = None \<and> x < PHYS_ADDR_MAX" and sz: "0 < sz"
  shows "\<exists>j. 0 \<le> j \<and> j \<le> int (length rs) \<and> (\<forall>x\<in>block c sz. in_area rs j x)"
proof -
  have w: "weak_ordered rs" using ok by (rule regions_ok_weak)
  have c: "c \<in> block c sz" using sz by (rule block_start)
  with in_area_iff [OF w, of c] free obtain j where j: "0 \<le> j" "j \<le> int (length rs)" "in_area rs j c"
    by (auto simp: attr_None)
  have "in_area rs j x" if x: "x \<in> block c sz" for x
  proof -
    have cx: "c \<le> x" using x by (simp add: block_def word_le_nat_alt)
    have "x < area_end rs j"
    proof (rule ccontr)
      assume "\<not> x < area_end rs j"
      then have e: "area_end rs j \<le> x" by simp
      with free x have jl: "j < int (length rs)" by (auto simp: area_end_def split: if_splits)
      let ?r = "rs ! nat j"
      have b: "area_end rs j = rg_base ?r" and r: "?r \<in> set rs" using jl j(1) by (auto simp: area_end_def)
      have cb: "c < rg_base ?r" using j(3) b by (simp add: in_area_def)
      then have "rg_base ?r \<in> block c sz"
        using e b x by (auto simp: block_def word_less_nat_alt word_le_nat_alt)
      with free r have "\<not> in_region ?r (rg_base ?r)" by (auto simp: attr_None)
      moreover have "rg_base ?r < rg_end ?r"
        using ok r cb ordered_bounds [of rs ?r] by (auto simp: regions_ok_def dummy_def)
      ultimately show False by (simp add: in_region_def)
    qed
    with j(3) cx show ?thesis by (auto simp: in_area_def)
  qed
  with j show ?thesis by blast
qed

lemma fits_free_block:
  assumes inv: "memblock_inv m" and sz: "0 < sz"
  shows "(\<exists>i j. fits (nid, flags, mb_memory m, mb_reserved m) start en sz align c i j) \<longleftrightarrow>
    free_block m start en sz align nid flags c" (is "?L \<longleftrightarrow> ?R")
proof
  let ?q = "(nid, flags, mb_memory m, mb_reserved m)" and ?ms = "live (mb_memory m)" and ?rs = "live (mb_reserved m)"
  assume ?L
  then obtain i j where f: "fits ?q start en sz align c i j" by blast
  then have sub: "block c sz \<subseteq> query_piece ?q i j" by (simp add: fits_def)
  with block_start [OF sz, of c] have i: "0 \<le> i" "i < int (length ?ms)" "query_sel ?q (?ms ! nat i)"
    by (auto simp: query_piece_def)
  have "table_map Reserved m x = None" if "x \<in> block c sz" for x
  proof -
    have "x \<in> query_piece ?q i j" using sub that by blast
    then have "\<exists>i j. x \<in> query_piece ?q i j" by blast
    then show ?thesis
      unfolding query_piece_iff [OF memblock_inv_tables(1) [OF inv]] by (simp add: table_map_def attr_None)
  qed
  moreover have "\<forall>x\<in>block c sz. in_region (?ms ! nat i) x" using sub by (auto simp: query_piece_def)
  moreover have "?ms ! nat i \<in> set ?ms" using i by simp
  moreover have "\<not> should_skip_region (?ms ! nat i) (node_of nid) flags" using i(3) by (simp add: query_sel_def)
  ultimately show ?R using f unfolding free_block_def fits_def by blast
next
  let ?q = "(nid, flags, mb_memory m, mb_reserved m)" and ?ms = "live (mb_memory m)" and ?rs = "live (mb_reserved m)"
  assume R: ?R
  then obtain r where r: "r \<in> set ?ms" "\<not> should_skip_region r (node_of nid) flags" "\<forall>x\<in>block c sz. in_region r x"
    by (auto simp: free_block_def)
  then obtain i where i: "i < length ?ms" "?ms ! i = r" by (auto simp: in_set_conv_nth)
  have "x < PHYS_ADDR_MAX" if "in_region r x" for x using that by (auto simp: in_region_def intro: less_le_trans)
  with R r have "\<forall>x\<in>block c sz. attr ?rs x = None \<and> x < PHYS_ADDR_MAX"
    by (auto simp: free_block_def table_map_def)
  from block_in_area [OF memblock_inv_tables(3) [OF inv] this sz] obtain j where
    "0 \<le> j" "j \<le> int (length ?rs)" "\<forall>x\<in>block c sz. in_area ?rs j x" by blast
  with i r have "block c sz \<subseteq> query_piece ?q (int i) j" by (auto simp: query_piece_def query_sel_def)
  with R show ?L unfolding fits_def free_block_def by blast
qed

subsection \<open>Top-down\<close>

lemma clamp_eq: "start \<le> en \<Longrightarrow> clamp x start en = (if x \<le> start then start else if x \<le> en then x else en)"
  by (auto simp: clamp_def min_def max_def)

lemma block_interval: "unat c + unat sz \<le> unat e \<Longrightarrow> s \<le> c \<Longrightarrow> block c sz \<subseteq> {s..<e}"
  by (auto simp: block_def word_le_nat_alt word_less_nat_alt)

lemma block_interval_iff:
  assumes "0 < sz" "block c sz \<subseteq> {s..<e}" "unat c + unat sz < 2 ^ 32"
  shows "s \<le> c" "unat c + unat sz \<le> unat e"
proof -
  show "s \<le> c" using subsetD [OF assms(2) block_start [OF assms(1)]] by simp
  let ?l = "c + sz - 1"
  have z: "0 < unat sz" using assms(1) by (simp add: word_less_nat_alt)
  have sum: "unat (c + sz) = unat c + unat sz" using assms(3) by (simp add: unat_word_ariths)
  then have "c + sz \<noteq> 0" using z by auto
  then have l: "unat ?l = unat c + unat sz - 1" using sum by (simp add: unat_minus_one)
  then have "?l \<in> block c sz" using z by (simp add: block_def)
  with assms(2) have "?l < e" by auto
  with l show "unat c + unat sz \<le> unat e" by (simp add: word_less_nat_alt)
qed

lemma top_down_hit:
  assumes n: "n < 32" and b: "start \<le> en" "0 < sz"
  shows "top_down_visit start en sz (2 ^ n) u s e = Inl c \<Longrightarrow>
      2 ^ n dvd unat c \<and> start \<le> c \<and> unat c + unat sz \<le> unat en \<and> block c sz \<subseteq> {s..<e}" (is "?hit \<Longrightarrow> ?G")
    and "top_down_visit start en sz (2 ^ n) u s e = Inr u' \<Longrightarrow> 2 ^ n dvd unat d \<Longrightarrow> start \<le> d \<Longrightarrow>
      unat d + unat sz \<le> unat en \<Longrightarrow> \<not> block d sz \<subseteq> {s..<e}"
proof -
  let ?s = "clamp s start en" and ?e = "clamp e start en"
  let ?c = "round_down (?e - sz) (2 ^ n)"
  have z: "0 < unat sz" using b(2) by (simp add: word_less_nat_alt)
  { assume ?hit
    then have c: "c = ?c" "sz \<le> ?e" "?s \<le> c"
      by (auto simp: top_down_visit_def Let_def split: if_splits)
    have "c \<le> ?e - sz" using round_down_props(1) [OF n] c(1) by simp
    then have ce: "unat c + unat sz \<le> unat ?e" using c(2) by (simp add: word_le_nat_alt unat_sub)
    with z c(3) have lt: "?s < ?e" by (simp add: word_less_nat_alt word_le_nat_alt)
    then have k: "s \<le> ?s" "?e \<le> e" "?e \<le> en" "start \<le> ?s"
      using b(1) by (auto simp: clamp_eq split: if_splits)
    have "unat c + unat sz \<le> unat e" "unat c + unat sz \<le> unat en"
      using ce k(2,3) by (simp_all add: word_le_nat_alt)
    moreover have "s \<le> c" "start \<le> c" using k(1,4) c(3) by (blast intro: order_trans)+
    ultimately show ?G
      using round_down_props(2) [OF n, of "?e - sz"] block_interval [of c sz e s] unfolding c(1) by blast }
  { assume miss: "top_down_visit start en sz (2 ^ n) u s e = Inr u'" and d: "2 ^ n dvd unat d" "start \<le> d"
      "unat d + unat sz \<le> unat en"
    show "\<not> block d sz \<subseteq> {s..<e}"
    proof
      assume sub: "block d sz \<subseteq> {s..<e}"
      have "unat en < 2 ^ 32" using unsigned_less [of en, where 'a = nat] by simp
      with d(3) have lt: "unat d + unat sz < 2 ^ 32" by linarith
      note in_se = block_interval_iff [OF b(2) sub lt]
      have de: "unat d + unat sz \<le> unat ?e" using in_se(2) d(3) b(1) by (auto simp: clamp_eq word_le_nat_alt)
      have sd: "?s \<le> d" using in_se(1) d b(1) by (auto simp: clamp_eq word_le_nat_alt)
      from de have "sz \<le> ?e" "d \<le> ?e - sz" by (simp_all add: word_le_nat_alt unat_sub)
      with round_down_props(3) [OF n d(1)] sd have "?s \<le> ?c" by fastforce
      with miss \<open>sz \<le> ?e\<close> show False by (auto simp: top_down_visit_def Let_def not_less [symmetric] split: if_splits)
    qed }
qed

lemma find_top_down:
  assumes inv: "memblock_inv m" and n: "n < 32" and b: "start \<le> en" "0 < sz" "0 < start"
  shows "\<exists>c. memblock_find_range_top_down m start en sz (2 ^ n) nid flags = Some c \<and>
    (if c = 0 then \<nexists>d. free_block m start en sz (2 ^ n) nid flags d
     else free_block m start en sz (2 ^ n) nid flags c)"
proof -
  let ?q = "(nid, flags, mb_memory m, mb_reserved m)"
  let ?fits = "fits ?q start en sz (2 ^ n)"
  note tok = memblock_inv_tables(1) [OF inv]
  have left: "rev_left ?q ULLONG_MAX < range_fuel m"
    using iteration_start(5) [OF tok, of nid flags] by (simp add: range_fuel_def)
  let ?I = "\<lambda>(u :: unit) R. \<forall>c i j. ?fits c i j \<longrightarrow> {i} \<times> {j} \<times> block c sz \<subseteq> R"
  let ?Q = "\<lambda>c. \<exists>i j. ?fits c i j"
  have start: "?I () (rev_rest ?q ULLONG_MAX)"
    unfolding iteration_start(3) [OF tok] by (auto simp: fits_def)
  have step: "case top_down_visit start en sz (2 ^ n) acc s e of Inl c \<Rightarrow> ?Q c | Inr acc' \<Rightarrow> ?I acc' R"
    if I: "?I acc ({k} \<times> {j} \<times> {s..<e} \<union> R)" and pc: "{s..<e} = query_piece ?q k j" for acc s e k j R
  proof (cases "top_down_visit start en sz (2 ^ n) acc s e")
    case (Inl c)
    with top_down_hit(1) [OF n b(1,2) Inl] pc have "?fits c k j" unfolding fits_def by simp
    with Inl show ?thesis by auto
  next
    case (Inr acc')
    have "{i} \<times> {j'} \<times> block c sz \<subseteq> R" if f: "?fits c i j'" for c i j'
    proof -
      from f have "\<not> block c sz \<subseteq> {s..<e}" if "i = k" "j' = j"
        using that top_down_hit(2) [OF n b(1,2) Inr, of c] pc by (auto simp: fits_def)
      then have "(i, j') \<noteq> (k, j)" using f pc by (auto simp: fits_def)
      with I f show ?thesis by fastforce
    qed
    with Inr show ?thesis by simp
  qed
  have "\<exists>res. for_each_range (range_fuel m) (rev_nxt ?q) (top_down_visit start en sz (2 ^ n)) () ULLONG_MAX = Some res \<and>
      (case res of Inl c \<Rightarrow> ?Q c | Inr acc' \<Rightarrow> ?I acc' {})"
    by (rule bwd.for_each_rule [where I = ?I and Q = ?Q, OF iteration_start(1) [OF tok] left start]) (rule step)
  then obtain res where res: "for_each_range (range_fuel m) (rev_nxt ?q) (top_down_visit start en sz (2 ^ n)) () ULLONG_MAX = Some res"
    "case res of Inl c \<Rightarrow> ?Q c | Inr acc' \<Rightarrow> ?I acc' {}" by (elim exE conjE)
  have fb: "?Q c \<longleftrightarrow> free_block m start en sz (2 ^ n) nid flags c" for c
    by (rule fits_free_block [OF inv b(2)])
  have run: "memblock_find_range_top_down m start en sz (2 ^ n) nid flags =
      Some (case res of Inl c \<Rightarrow> c | Inr _ \<Rightarrow> 0)"
    using res(1) by (simp add: memblock_find_range_top_down_def rev_nxt_def)
  show ?thesis
  proof (cases res)
    case (Inl c)
    with res(2) fb have "free_block m start en sz (2 ^ n) nid flags c" by simp
    moreover from this b(3) have "c \<noteq> 0" by (auto simp: free_block_def)
    ultimately show ?thesis using run Inl by simp
  next
    case (Inr u)
    with res(2) have "\<not> ?Q c" for c using block_start [OF b(2), of c] by (auto simp: fits_def)
    with run Inr fb show ?thesis by simp
  qed
qed

subsection \<open>Visiting all free memory\<close>

text \<open>The body that records every range.\<close>

definition collect :: "(phys_addr_t \<times> phys_addr_t) list \<Rightarrow> phys_addr_t \<Rightarrow> phys_addr_t
    \<Rightarrow> unit + (phys_addr_t \<times> phys_addr_t) list" where
  "collect acc s e = Inr (acc @ [(s, e)])"

definition covered :: "(phys_addr_t \<times> phys_addr_t) list \<Rightarrow> phys_addr_t set" where
  "covered rs = (\<Union>(s, e)\<in>set rs. {s..<e})"

lemma covered_simps [simp]: "covered [] = {}" "covered (rs @ [(s, e)]) = covered rs \<union> {s..<e}"
  by (auto simp: covered_def)

context range_iteration
begin

lemma collects:
  assumes "ok c i" "left c i < fuel"
  shows "\<exists>rs. for_each_range fuel (nxt c) collect [] i = Some (Inr rs) \<and> covered rs = {x. \<exists>k j. (k, j, x) \<in> rest c i}"
proof -
  let ?S = "\<lambda>R :: (int \<times> int \<times> phys_addr_t) set. {x. \<exists>k j. (k, j, x) \<in> R}"
  have step: "case collect acc s e of Inl r \<Rightarrow> False | Inr acc' \<Rightarrow> covered acc' \<union> ?S R = ?S (rest c i)"
    if "covered acc \<union> ?S ({k} \<times> {j} \<times> {s..<e} \<union> R) = ?S (rest c i)" for acc s e k j R
  proof -
    have "?S ({k} \<times> {j} \<times> {s..<e} \<union> R) = {s..<e} \<union> ?S R" by blast
    with that show ?thesis by (simp add: collect_def Un_assoc)
  qed
  have "\<exists>res. for_each_range fuel (nxt c) collect [] i = Some res \<and>
      (case res of Inl r \<Rightarrow> False | Inr acc' \<Rightarrow> covered acc' \<union> ?S {} = ?S (rest c i))"
    by (rule for_each_rule [where I = "\<lambda>acc R. covered acc \<union> ?S R = ?S (rest c i)" and Q = "\<lambda>_ :: unit. False", OF assms])
      (simp, rule step)
  then obtain res where "for_each_range fuel (nxt c) collect [] i = Some res"
    "case res of Inl r \<Rightarrow> False | Inr acc' \<Rightarrow> covered acc' \<union> ?S {} = ?S (rest c i)" by blast
  then show ?thesis by (cases res) auto
qed

end

lemma free_memory_iff:
  assumes "memblock_inv m"
  shows "(\<exists>i j. x \<in> query_piece (nid, flags, mb_memory m, mb_reserved m) i j) \<longleftrightarrow>
    (\<exists>r\<in>set (live (mb_memory m)). \<not> should_skip_region r (node_of nid) flags \<and> in_region r x) \<and> table_map Reserved m x = None"
  unfolding query_piece_iff [OF memblock_inv_tables(1) [OF assms]]
  by (simp add: query_sel_def table_map_def attr_None)

end
