(* ===== verification/Memblock_Alloc.thy ===== *)
theory Memblock_Alloc
  imports Memblock_Find
begin

section \<open>Allocation, lookup and limits\<close>

text \<open>
  \<^verbatim>\<open>memblock_alloc_range_nid\<close> and its callers return a block of memory that was free and is then
  reserved, or 0 and an unchanged state if there is no such block; the binary search of
  \<^verbatim>\<open>memblock_search\<close> and the queries built on it agree with the address maps; the memory limit
  cuts both maps at one address.
\<close>

subsection \<open>Finding\<close>

definition search_start :: "phys_addr_t \<Rightarrow> phys_addr_t" where
  "search_start start = max start PAGE_SIZE"

definition search_end :: "memblock \<Rightarrow> phys_addr_t \<Rightarrow> phys_addr_t \<Rightarrow> phys_addr_t" where
  "search_end m start en = max (search_start start)
     (if en = MEMBLOCK_ALLOC_ACCESSIBLE \<or> en = MEMBLOCK_ALLOC_KASAN then mb_current_limit m else en)"

text \<open>The bottom-up search is never tried: \<^verbatim>\<open>kernel_end\<close> is \<^verbatim>\<open>end\<close>, and \<^verbatim>\<open>end > kernel_end\<close> fails.\<close>

lemma find_node_top_down:
  "memblock_find_in_range_node m sz align start en nid flags =
     memblock_find_range_top_down m (search_start start) (search_end m start en) sz align nid flags"
  by (simp add: memblock_find_in_range_node_def search_start_def search_end_def Let_def)

lemma find_node:
  assumes "memblock_inv m" "n < 32" "0 < sz"
  shows "\<exists>c. memblock_find_in_range_node m sz (2 ^ n) start en nid flags = Some c \<and>
    (if c = 0 then \<nexists>d. free_block m (search_start start) (search_end m start en) sz (2 ^ n) nid flags d
     else free_block m (search_start start) (search_end m start en) sz (2 ^ n) nid flags c)"
proof -
  have "0 < search_start start"
    by (auto simp: search_start_def PAGE_SIZE_def max_def word_less_nat_alt word_le_nat_alt)
  moreover have "search_start start \<le> search_end m start en" by (simp add: search_end_def)
  ultimately show ?thesis unfolding find_node_top_down using assms by (intro find_top_down)
qed

text \<open>Reserving a free block takes one new region.\<close>

lemma new_regions_free:
  assumes "base < en" "\<And>x. base \<le> x \<Longrightarrow> x < en \<Longrightarrow> attr rs x = None" "ordered rs"
  shows "new_regions base en nid flags rs = 1"
proof -
  have "length (fill en nid flags base rs) = length rs + 1" using assms(2,3)
  proof (induction rs)
    case (Cons r rs)
    have out: "\<not> in_region r x" if "base \<le> x" "x < en" for x using Cons.prems(1) [OF that] by (auto split: if_splits)
    have "attr rs x = None" if "base \<le> x" "x < en" for x using Cons.prems(1) [OF that] by (auto split: if_splits)
    with Cons have IH: "length (fill en nid flags base rs) = length rs + 1" by (auto simp: ordered_Cons)
    have r: "rg_base r < rg_end r" using Cons.prems(2) by (simp add: ordered_Cons)
    have "en \<le> rg_base r \<or> rg_end r \<le> base"
      using out [of base] out [of "rg_base r"] assms(1) r by (force simp: in_region_def not_le not_less)
    with IH assms(1) r show ?case by (auto simp: gap_def)
  qed (simp add: gap_def assms(1))
  then show ?thesis by (simp add: new_regions_def)
qed

lemma block_range:
  fixes en :: phys_addr_t
  assumes "0 < sz" "unat c + unat sz \<le> unat en"
  shows "range_end c sz = c + sz" "c < c + sz" "c \<le> x \<and> x < c + sz \<longleftrightarrow> x \<in> block c sz"
    "memblock_cap_size c sz \<noteq> 0"
proof -
  have z: "0 < unat sz" using assms(1) by (simp add: word_less_nat_alt)
  have "unat en < 2 ^ 32" using unsigned_less [of en, where 'a = nat] by simp
  with assms(2) have lt: "unat c + unat sz < 2 ^ 32" by linarith
  then have sum: "unat (c + sz) = unat c + unat sz" by (simp add: unat_word_ariths)
  then show "c < c + sz" using z by (simp add: word_less_nat_alt)
  have "unat (range_end c sz) = unat (c + sz)" using cap_end(2) [of c sz] lt sum by simp
  then show e: "range_end c sz = c + sz" by (simp only: word_unat_eq_iff)
  show "c \<le> x \<and> x < c + sz \<longleftrightarrow> x \<in> block c sz"
    by (auto simp: block_def word_less_nat_alt word_le_nat_alt sum)
  show "memblock_cap_size c sz \<noteq> 0" using e cap_end(4) [of c sz] \<open>c < c + sz\<close> by auto
qed

lemma reserve_free_block:
  assumes inv: "memblock_inv m" and room: "t_cnt (mb_reserved m) < t_max (mb_reserved m)"
    and fb: "free_block m start en sz align nid flags c" and sz: "0 < sz"
  shows "\<exists>m'. memblock_reserve c sz m = Some (0, m') \<and> memblock_inv m' \<and>
    m' = m\<lparr>mb_reserved := mb_reserved m'\<rparr> \<and>
    table_map Reserved m' = range_map c (c + sz) (0, MAX_NUMNODES) ++ table_map Reserved m"
proof -
  have ce: "unat c + unat sz \<le> unat en" and free: "\<forall>x\<in>block c sz. attr (live (mb_reserved m)) x = None"
    using fb by (auto simp: free_block_def table_map_def)
  note br = block_range [OF sz ce]
  have ti: "type_inv (get_table Reserved m)" using inv by (simp add: memblock_inv_def)
  have fin: ?thesis if "add_range_with memblock_double_array Reserved c sz MAX_NUMNODES 0 m = Some (0, set_table Reserved t' m)"
    "type_inv t'" "attr (live t') = range_map c (range_end c sz) (0, MAX_NUMNODES) ++ attr (live (mb_reserved m))" for t'
    using that memblock_inv_set [OF inv that(2), of Reserved]
    by (auto simp: memblock_reserve_def memblock_add_range_def table_map_def br(1))
  from ti show ?thesis
  proof (cases rule: regions_okE)
    case ord
    then have "new_regions c (range_end c sz) MAX_NUMNODES 0 (live (mb_reserved m)) = 1"
      using new_regions_free [of c "c + sz" "live (mb_reserved m)" MAX_NUMNODES 0] br free by auto
    with room ti add_range_ok [of Reserved m c sz MAX_NUMNODES 0 memblock_double_array] show ?thesis
      by (auto intro: fin)
  next
    case (dum d)
    from add_range_dummy [OF ti dum br(4), of memblock_double_array MAX_NUMNODES 0] obtain t' where t':
      "add_range_with memblock_double_array Reserved c sz MAX_NUMNODES 0 m = Some (0, set_table Reserved t' m)"
      "type_inv t'" "live t' = [new_region c (range_end c sz) MAX_NUMNODES 0]" by blast
    have "attr (live (mb_reserved m)) = Map.empty" using dum attr_dummy by simp
    then have "attr (live t') = range_map c (range_end c sz) (0, MAX_NUMNODES) ++ attr (live (mb_reserved m))"
      by (auto simp: t'(3) range_map_def in_region_def)
    with t' show ?thesis by (intro fin)
  qed
qed

subsection \<open>Allocating\<close>

text \<open>A successful allocation: the block was free, and afterwards the block is reserved and nothing
  else has changed.\<close>

definition allocated :: "memblock \<Rightarrow> phys_addr_t \<Rightarrow> phys_addr_t \<Rightarrow> memblock \<Rightarrow> bool" where
  "allocated m c sz m' \<longleftrightarrow> memblock_inv m' \<and> m' = m\<lparr>mb_reserved := mb_reserved m'\<rparr> \<and>
     table_map Reserved m' = range_map c (c + sz) (0, MAX_NUMNODES) ++ table_map Reserved m"

lemma find_and_reserve:
  assumes "memblock_inv m" "t_cnt (mb_reserved m) < t_max (mb_reserved m)" "n < 32" "0 < sz"
  shows "\<exists>c m'. find_and_reserve sz (2 ^ n) start en nid flags m = Some (c, m') \<and>
    (if c = 0 then m' = m \<and> (\<nexists>d. free_block m (search_start start) (search_end m start en) sz (2 ^ n) nid flags d)
     else free_block m (search_start start) (search_end m start en) sz (2 ^ n) nid flags c \<and> allocated m c sz m')"
proof -
  from find_node [OF assms(1,3,4)] obtain c where
    c: "memblock_find_in_range_node m sz (2 ^ n) start en nid flags = Some c"
    "if c = 0 then \<nexists>d. free_block m (search_start start) (search_end m start en) sz (2 ^ n) nid flags d
     else free_block m (search_start start) (search_end m start en) sz (2 ^ n) nid flags c" by blast
  show ?thesis
  proof (cases "c = 0")
    case False
    with c(2) have fb: "free_block m (search_start start) (search_end m start en) sz (2 ^ n) nid flags c" by simp
    from reserve_free_block [OF assms(1,2) fb assms(4)] obtain m' where "memblock_reserve c sz m = Some (0, m')"
      "allocated m c sz m'" unfolding allocated_def by blast
    with False c(1) fb show ?thesis by (simp add: find_and_reserve_def)
  qed (use c in \<open>simp add: find_and_reserve_def\<close>)
qed

lemma skip_any_node: "should_skip_region r nid flags \<or> \<not> should_skip_region r NUMA_NO_NODE flags"
  by (auto simp: should_skip_region_def)

lemma free_block_any_node:
  "free_block m start en sz align nid flags c \<Longrightarrow> free_block m start en sz align NUMA_NO_NODE flags c"
  using skip_any_node by (fastforce simp: free_block_def node_of_def MAX_NUMNODES_def NUMA_NO_NODE_def)

lemma alloc_attempt:
  assumes "memblock_inv m" "t_cnt (mb_reserved m) < t_max (mb_reserved m)" "n < 32" "0 < sz"
  shows "\<exists>c m'. alloc_attempt sz (2 ^ n) start en nid flags m = Some (c, m') \<and>
    (if c = 0 then m' = m \<and> (\<nexists>d. free_block m (search_start start) (search_end m start en) sz (2 ^ n) NUMA_NO_NODE flags d)
     else free_block m (search_start start) (search_end m start en) sz (2 ^ n)
       (if \<exists>d. free_block m (search_start start) (search_end m start en) sz (2 ^ n) nid flags d then nid else NUMA_NO_NODE) flags c \<and>
       allocated m c sz m')"
proof -
  let ?fb = "free_block m (search_start start) (search_end m start en) sz (2 ^ n)"
  from find_and_reserve [OF assms, of start en nid flags] obtain c m' where
    c: "find_and_reserve sz (2 ^ n) start en nid flags m = Some (c, m')"
    "if c = 0 then m' = m \<and> (\<nexists>d. ?fb nid flags d) else ?fb nid flags c \<and> allocated m c sz m'" by blast
  show ?thesis
  proof (cases "c = 0 \<and> nid \<noteq> NUMA_NO_NODE")
    case True
    with c have "alloc_attempt sz (2 ^ n) start en nid flags m = find_and_reserve sz (2 ^ n) start en NUMA_NO_NODE flags m"
      "\<nexists>d. ?fb nid flags d" by (auto simp: alloc_attempt_def)
    with find_and_reserve [OF assms, of start en NUMA_NO_NODE flags] show ?thesis by auto
  next
    case False
    with c show ?thesis by (auto simp: alloc_attempt_def)
  qed
qed

lemma alloc_attemptE:
  assumes "memblock_inv m" "t_cnt (mb_reserved m) < t_max (mb_reserved m)" "n < 32" "0 < sz"
  obtains "alloc_attempt sz (2 ^ n) start en nid flags m = Some (0, m)"
      "\<nexists>d. free_block m (search_start start) (search_end m start en) sz (2 ^ n) NUMA_NO_NODE flags d"
  | c k m' where "alloc_attempt sz (2 ^ n) start en nid flags m = Some (c, m')" "c \<noteq> 0"
      "free_block m (search_start start) (search_end m start en) sz (2 ^ n) k flags c" "allocated m c sz m'"
proof -
  from alloc_attempt [OF assms, of start en nid flags] obtain c m' where
    c: "alloc_attempt sz (2 ^ n) start en nid flags m = Some (c, m')"
    "if c = 0 then m' = m \<and> (\<nexists>d. free_block m (search_start start) (search_end m start en) sz (2 ^ n) NUMA_NO_NODE flags d)
     else free_block m (search_start start) (search_end m start en) sz (2 ^ n)
       (if \<exists>d. free_block m (search_start start) (search_end m start en) sz (2 ^ n) nid flags d then nid else NUMA_NO_NODE) flags c \<and>
       allocated m c sz m'" by blast
  then show thesis using that by (cases "c = 0") auto
qed

text \<open>\<^verbatim>\<open>memblock_alloc_range_nid\<close>: an allocation fails only if there is no free block in any mapped
  memory.\<close>

lemma free_block_unmirrored:
  "free_block m start en sz align nid MEMBLOCK_MIRROR c \<Longrightarrow> free_block m start en sz align nid MEMBLOCK_NONE c"
  by (fastforce simp: free_block_def should_skip_region_def MEMBLOCK_MIRROR_def MEMBLOCK_NONE_def MEMBLOCK_NOMAP_def)

lemma alloc_range_nid:
  assumes "memblock_inv m" "t_cnt (mb_reserved m) < t_max (mb_reserved m)" "n < 32" "0 < sz"
  shows "\<exists>c m'. memblock_alloc_range_nid sz (2 ^ n) start en nid m = Some (c, m') \<and>
    (if c = 0 then m' = m \<and>
       (\<nexists>d. free_block m (search_start start) (search_end m start en) sz (2 ^ n) NUMA_NO_NODE MEMBLOCK_NONE d)
     else free_block m (search_start start) (search_end m start en) sz (2 ^ n) NUMA_NO_NODE MEMBLOCK_NONE c \<and>
       allocated m c sz m')"
proof -
  let ?fb = "free_block m (search_start start) (search_end m start en) sz (2 ^ n)"
  let ?nid = "if nid = MAX_NUMNODES then NUMA_NO_NODE else nid" and ?flags = "choose_memblock_flags m"
  have al: "(2 ^ n :: phys_addr_t) \<noteq> 0" using assms(3) by simp
  have clr: "MEMBLOCK_MIRROR AND NOT MEMBLOCK_MIRROR = MEMBLOCK_NONE" "MEMBLOCK_MIRROR AND MEMBLOCK_MIRROR \<noteq> 0"
    "MEMBLOCK_NONE AND MEMBLOCK_MIRROR = 0"
    by (simp_all add: MEMBLOCK_MIRROR_def MEMBLOCK_NONE_def)
  have any: "?fb NUMA_NO_NODE MEMBLOCK_NONE d" if "?fb k f d" "f = MEMBLOCK_MIRROR \<or> f = MEMBLOCK_NONE" for k f d
    using that free_block_any_node free_block_unmirrored by blast
  have fl: "?flags = MEMBLOCK_MIRROR \<or> ?flags = MEMBLOCK_NONE" by (simp add: choose_memblock_flags_def)
  from alloc_attemptE [OF assms, of start en ?nid ?flags] show ?thesis
  proof cases
    case (2 c k m')
    then have "memblock_alloc_range_nid sz (2 ^ n) start en nid m = Some (c, m')"
      using al by (simp add: memblock_alloc_range_nid_def)
    with 2 any fl show ?thesis by auto
  next
    case 1
    show ?thesis
    proof (cases "mb_has_mirror m")
      case True
      with 1 have retry: "memblock_alloc_range_nid sz (2 ^ n) start en nid m =
          alloc_attempt sz (2 ^ n) start en ?nid MEMBLOCK_NONE m"
        using al by (simp add: memblock_alloc_range_nid_def choose_memblock_flags_def
            MEMBLOCK_MIRROR_def MEMBLOCK_NONE_def)
      from alloc_attemptE [OF assms, of start en ?nid MEMBLOCK_NONE] show ?thesis
        by cases (use retry any in auto)
    next
      case False
      with 1 have "memblock_alloc_range_nid sz (2 ^ n) start en nid m = Some (0, m)"
        using al by (simp add: memblock_alloc_range_nid_def choose_memblock_flags_def clr)
      with 1 False show ?thesis by (simp add: choose_memblock_flags_def)
    qed
  qed
qed

subsection \<open>Lookup\<close>

lemma ordered_nth:
  assumes "ordered rs" "i < j" "j < length rs"
  shows "rg_end (rs ! i) \<le> rg_base (rs ! j)"
  using assms by (auto simp: ordered_def sorted_wrt_iff_nth_less)

lemma ordered_nth_bounds: "ordered rs \<Longrightarrow> i < length rs \<Longrightarrow> rg_base (rs ! i) < rg_end (rs ! i)"
  using ordered_bounds by force

definition found_at :: "memblock_region list \<Rightarrow> phys_addr_t \<Rightarrow> int \<Rightarrow> bool" where
  "found_at rs addr i \<longleftrightarrow>
     (if attr rs addr = None then i = -1
      else 0 \<le> i \<and> nat i < length rs \<and> in_region (rs ! nat i) addr)"

lemma tbl_nth: "tbl t rs \<Longrightarrow> i < length rs \<Longrightarrow> arr_get (t_regions t) i = Some (rs ! i)"
  by (auto simp: tbl_def arr_get_def nth_append)

lemma search_loop_ordered:
  assumes "tbl t rs" "ordered rs" "l < r" "r \<le> length rs"
    "\<And>i. i < l \<Longrightarrow> rg_end (rs ! i) \<le> addr" "\<And>i. r \<le> i \<Longrightarrow> i < length rs \<Longrightarrow> addr < rg_base (rs ! i)"
  shows "\<exists>i. search_loop t addr l r = Some i \<and> found_at rs addr i"
  using assms(3-6)
proof (induction "r - l" arbitrary: l r rule: less_induct)
  case less
  let ?mid = "(r + l) div 2"
  have mid: "l \<le> ?mid" "?mid < r" "?mid < length rs" using less.prems by auto
  have run: "search_loop t addr l r =
      (if addr < rg_base (rs ! ?mid) then (if l < ?mid then search_loop t addr l ?mid else Some (-1))
       else if rg_end (rs ! ?mid) \<le> addr
       then (if ?mid + 1 < r then search_loop t addr (?mid + 1) r else Some (-1))
       else Some (int ?mid))"
    using tbl_nth [OF assms(1) mid(3)] by (subst search_loop.simps) (simp add: rg_end_def Let_def)
  have out: "found_at rs addr (-1)" if "\<And>i. i < length rs \<Longrightarrow> \<not> in_region (rs ! i) addr"
    using that by (auto simp: found_at_def attr_None in_set_conv_nth)
  have low: "rg_end (rs ! i) \<le> addr" if "i \<le> ?mid" "rg_end (rs ! ?mid) \<le> addr" for i
    using that ordered_nth [OF assms(2), of i ?mid] ordered_nth_bounds [OF assms(2) mid(3)] mid
    by (cases "i = ?mid") (auto intro: order_trans less_imp_le)
  have high: "addr < rg_base (rs ! i)" if "?mid \<le> i" "i < length rs" "addr < rg_base (rs ! ?mid)" for i
    using that ordered_nth [OF assms(2), of ?mid i] ordered_nth_bounds [OF assms(2) mid(3)]
    by (cases "i = ?mid") auto
  consider (below) "addr < rg_base (rs ! ?mid)" | (above) "rg_base (rs ! ?mid) \<le> addr" "rg_end (rs ! ?mid) \<le> addr"
    | (here) "rg_base (rs ! ?mid) \<le> addr" "addr < rg_end (rs ! ?mid)" by fastforce
  then show ?case
  proof cases
    case below
    show ?thesis
    proof (cases "l < ?mid")
      case True
      with less.hyps [of ?mid l] less.prems mid high below run show ?thesis by auto
    next
      case False
      have "\<not> in_region (rs ! i) addr" if "i < length rs" for i
        using less.prems(3) [of i] high [OF _ that below] False mid
        by (cases "i < l") (auto simp: in_region_def)
      with out run below False show ?thesis by auto
    qed
  next
    case above
    show ?thesis
    proof (cases "?mid + 1 < r")
      case True
      with less.hyps [of r "?mid + 1"] less.prems mid low above run show ?thesis by (auto simp: word_order)
    next
      case False
      have "\<not> in_region (rs ! i) addr" if "i < length rs" for i
        using less.prems(4) [of i] low [OF _ above(2), of i] False mid that
        by (cases "i \<le> ?mid") (auto simp: in_region_def)
      with out run above False show ?thesis by (auto simp: word_order)
    qed
  next
    case here
    then have "in_region (rs ! ?mid) addr" by (simp add: in_region_def)
    then have "found_at rs addr (int ?mid)" using mid(3) attr_None [of rs addr] by (auto simp: found_at_def)
    with run here show ?thesis by (auto simp: word_order)
  qed
qed

lemma search_ok:
  assumes "type_inv t"
  shows "\<exists>i. memblock_search t addr = Some i \<and> found_at (live t) addr i"
  using assms
proof (cases rule: regions_okE)
  case ord
  have t: "tbl t (live t)" using assms by (rule type_inv_tbl)
  show ?thesis
    using search_loop_ordered [OF t ord(1), of 0 "length (live t)" addr] ord(2) tbl_cnt [OF t]
    by (simp add: memblock_search_def)
next
  case (dum d)
  have t: "tbl t [d]" using type_inv_tbl [OF assms] dum(1) by simp
  have "memblock_search t addr = Some (-1)"
    using live_first [OF t] tbl_cnt [OF t] dum(2)
    by (simp add: memblock_search_def search_loop.simps dummy_def)
  moreover have "found_at (live t) addr (-1)" using dum attr_dummy by (simp add: found_at_def)
  ultimately show ?thesis by blast
qed

lemma attr_in_region:
  assumes "regions_ok rs" "i < length rs" "in_region (rs ! i) x"
  shows "attr rs x = Some (rg_flags (rs ! i), rg_nid (rs ! i))"
proof -
  have "ordered rs" using assms by (auto simp: regions_ok_def dummy_def in_region_def rg_end_def)
  then show ?thesis using assms(2,3)
  proof (induction rs arbitrary: i)
    case (Cons r rs)
    show ?case
    proof (cases i)
      case (Suc k)
      with Cons.prems have k: "k < length rs" "in_region (rs ! k) x" by auto
      have "rg_end r \<le> rg_base (rs ! k)" using Cons.prems(1) k(1) by (simp add: ordered_Cons)
      with k(2) have "\<not> in_region r x" by (auto simp: in_region_def)
      with Cons.IH [OF _ k] Cons.prems(1) Suc show ?thesis by (simp add: ordered_Cons)
    qed (use Cons.prems in simp)
  qed simp
qed

lemma is_map_memory:
  assumes "memblock_inv m"
  shows "memblock_is_map_memory addr m =
    Some (case table_map Memory m addr of None \<Rightarrow> False | Some (flags, nid) \<Rightarrow> flags AND MEMBLOCK_NOMAP = 0)"
proof -
  have inv: "type_inv (mb_memory m)" "regions_ok (live (mb_memory m))" "tbl (mb_memory m) (live (mb_memory m))"
    using assms by (auto simp: memblock_inv_def type_inv_def)
  from search_ok [OF inv(1), of addr] obtain i where i: "memblock_search (mb_memory m) addr = Some i"
    "found_at (live (mb_memory m)) addr i" by blast
  show ?thesis
  proof (cases "attr (live (mb_memory m)) addr")
    case None
    with i show ?thesis by (simp add: memblock_is_map_memory_def found_at_def table_map_def)
  next
    case (Some a)
    with i(2) have "0 \<le> i" "nat i < length (live (mb_memory m))" "in_region (live (mb_memory m) ! nat i) addr"
      by (auto simp: found_at_def)
    with attr_in_region [OF inv(2) this(2,3)] tbl_nth [OF inv(3) this(2)] i(1) show ?thesis
      by (auto simp: memblock_is_map_memory_def table_map_def memblock_is_nomap_def)
  qed
qed

lemma is_memory: "memblock_inv m \<Longrightarrow> memblock_is_memory addr m = Some (table_map Memory m addr \<noteq> None)"
  using search_ok [of "mb_memory m" addr]
  by (auto simp: memblock_is_memory_def memblock_inv_def found_at_def table_map_def split: if_splits)

lemma is_reserved: "memblock_inv m \<Longrightarrow> memblock_is_reserved addr m = Some (table_map Reserved m addr \<noteq> None)"
  using search_ok [of "mb_reserved m" addr]
  by (auto simp: memblock_is_reserved_def memblock_inv_def found_at_def table_map_def split: if_splits)

end
