(* ===== verification/Memblock_Limit.thy ===== *)
theory Memblock_Limit
  imports Memblock_Alloc
begin

section \<open>Sizes, limits and trimming\<close>

text \<open>
  The counter \<^verbatim>\<open>total_size\<close> is the number of addresses in the table's map; \<^verbatim>\<open>__find_max_addr\<close>
  finds the address below which there is as much memory as the limit says, and
  \<^verbatim>\<open>memblock_enforce_memory_limit\<close> cuts both tables there; \<^verbatim>\<open>memblock_trim_memory\<close> keeps the whole
  aligned blocks of every region.
\<close>

subsection \<open>Counting addresses\<close>

lemma word_interval: "{a..<b :: 'a::len word} = unat -` {unat a..<unat b}"
  by (auto simp: word_le_nat_alt word_less_nat_alt)

lemma card_word_interval: "card {a..<b :: 'a::len word} = unat b - unat a"
proof -
  have "unat ` {a..<b} = {unat a..<unat b}"
  proof (intro equalityI subsetI)
    fix k assume k: "k \<in> {unat a..<unat b}"
    then have "k < 2 ^ LENGTH('a)" using unsigned_less [of b, where 'a = nat] by (auto intro: less_trans)
    then have "unat (word_of_nat k :: 'a word) = k" by (simp add: unat_of_nat take_bit_nat_eq_self)
    with k show "k \<in> unat ` {a..<b}"
      by (intro image_eqI [of _ _ "word_of_nat k"]) (auto simp: word_le_nat_alt word_less_nat_alt)
  qed (auto simp: word_le_nat_alt word_less_nat_alt)
  then have "card (unat ` {a..<b}) = unat b - unat a" by simp
  moreover have "inj_on unat {a..<b}" by (auto intro: inj_onI simp: word_unat_eq_iff)
  ultimately show ?thesis by (simp add: card_image)
qed

lemma finite_word: "finite (A :: 'a::len word set)"
  by (rule finite_subset [OF subset_UNIV]) simp

lemma in_region_interval: "{x. in_region r x} = {rg_base r..<rg_end r}"
  by (auto simp: in_region_def)

lemma dom_attr_Cons: "dom (attr (r # rs)) = {rg_base r..<rg_end r} \<union> dom (attr rs)"
  by (auto simp: in_region_def dom_def)

lemma ordered_disjoint:
  assumes "ordered (r # rs)" shows "{rg_base r..<rg_end r} \<inter> dom (attr rs) = {}"
proof -
  have "attr rs x = None" if "x < rg_end r" for x
    using assms that by (intro attr_below) (force simp: ordered_Cons)
  then show ?thesis by auto
qed

lemma attr_below_max: "attr rs x \<noteq> None \<Longrightarrow> x < PHYS_ADDR_MAX"
proof -
  assume "attr rs x \<noteq> None"
  then obtain r where "in_region r x" by (auto simp: attr_None)
  then show ?thesis by (auto simp: in_region_def intro: less_le_trans)
qed

lemma attr_max: "\<not> x < PHYS_ADDR_MAX \<Longrightarrow> attr rs x = None"
  using attr_below_max by blast

lemma rg_size_nat:
  assumes "rg_base r \<le> rg_end r" shows "unat (rg_size r) = unat (rg_end r) - unat (rg_base r)"
proof -
  have "rg_size r = rg_end r - rg_base r" by (simp add: rg_end_def)
  with assms show ?thesis by (simp add: unat_sub)
qed

definition bytes :: "memblock_region list \<Rightarrow> nat" where
  "bytes rs = sum_list (map (\<lambda>r. unat (rg_size r)) rs)"

lemma bytes_simps [simp]: "bytes [] = 0" "bytes (r # rs) = unat (rg_size r) + bytes rs"
  by (simp_all add: bytes_def)

lemma bytes_card: "ordered rs \<Longrightarrow> bytes rs = card (dom (attr rs))"
proof (induction rs)
  case (Cons r rs)
  then have "card (dom (attr (r # rs))) = card {rg_base r..<rg_end r} + card (dom (attr rs))"
    unfolding dom_attr_Cons by (intro card_Un_disjoint finite_word ordered_disjoint)
  with Cons show ?case by (simp add: ordered_Cons card_word_interval rg_size_nat less_imp_le del: attr.simps)
qed (simp add: fun_eq_iff)

lemma bytes_less: "ordered rs \<Longrightarrow> bytes rs < 2 ^ 32"
proof -
  assume o: "ordered rs"
  have "dom (attr rs) \<subseteq> {0..<PHYS_ADDR_MAX}"
    using attr_below_max [of rs] by auto
  then have "card (dom (attr rs)) \<le> card {0..<PHYS_ADDR_MAX}" by (intro card_mono finite_word)
  also have "\<dots> = 2 ^ 32 - 1"
    by (simp add: card_word_interval PHYS_ADDR_MAX_def unsigned_minus_1_eq_mask mask_eq_exp_minus_1)
  finally show ?thesis using bytes_card [OF o] by simp
qed

lemma total_of_nat: "total_of rs = word_of_nat (bytes rs)"
  by (induction rs) (simp_all add: total_of_def bytes_def)

lemma total_size_card:
  assumes "type_inv t" shows "unat (t_total_size t) = card (dom (attr (live t)))"
  using assms
proof (cases rule: regions_okE)
  case ord
  have "unat (total_of (live t)) = bytes (live t)"
    using bytes_less [OF ord(1)] by (simp add: total_of_nat unat_of_nat take_bit_nat_eq_self)
  with assms bytes_card [OF ord(1)] show ?thesis by (simp add: type_inv_def)
next
  case (dum d)
  with assms attr_dummy [OF dum(2)] show ?thesis by (simp add: type_inv_def dummy_def)
qed

subsection \<open>The address of a limit\<close>

lemma base_plus_limit:
  assumes "rg_base r \<le> rg_end r" "limit \<le> rg_size r"
  shows "rg_base r \<le> rg_base r + limit" "rg_base r + limit \<le> rg_end r"
    "unat (rg_base r + limit) = unat (rg_base r) + unat limit"
proof -
  have s: "unat (rg_size r) = unat (rg_end r) - unat (rg_base r)" by (rule rg_size_nat [OF assms(1)])
  have l: "unat limit \<le> unat (rg_end r) - unat (rg_base r)" using assms(2) s by (simp add: word_le_nat_alt)
  have e: "unat (rg_end r) < 2 ^ 32" using unsigned_less [of "rg_end r", where 'a = nat] by simp
  have b: "unat (rg_base r) \<le> unat (rg_end r)" using assms(1) by (simp add: word_le_nat_alt)
  from l e b have "unat (rg_base r) + unat limit < 2 ^ 32" by linarith
  then show sum: "unat (rg_base r + limit) = unat (rg_base r) + unat limit" by (simp add: unat_word_ariths)
  with l b show "rg_base r \<le> rg_base r + limit" "rg_base r + limit \<le> rg_end r"
    by (simp_all add: word_le_nat_alt)
qed

lemma max_addr_ge:
  assumes "ordered rs" "\<And>s. s \<in> set rs \<Longrightarrow> lb \<le> rg_base s"
  shows "lb \<le> max_addr_of limit rs"
  using assms
proof (induction rs arbitrary: limit)
  case (Cons r rs)
  then have r: "rg_base r \<le> rg_end r" "lb \<le> rg_base r" by (auto simp: ordered_Cons)
  from base_plus_limit(1) [OF r(1)] r(2) have "lb \<le> rg_base r + limit" if "limit \<le> rg_size r"
    using that by (blast intro: order_trans)
  with Cons show ?case by (auto simp: ordered_Cons)
qed (simp add: PHYS_ADDR_MAX_def)

lemma max_addr_card:
  assumes "ordered rs"
  shows "card {x \<in> dom (attr rs). x < max_addr_of limit rs} = min (unat limit) (bytes rs)"
  using assms
proof (induction rs arbitrary: limit)
  case (Cons r rs)
  have r: "rg_base r \<le> rg_end r" "ordered rs" "\<And>s. s \<in> set rs \<Longrightarrow> rg_end r \<le> rg_base s"
    using Cons.prems by (auto simp: ordered_Cons)
  show ?case
  proof (cases "limit \<le> rg_size r")
    case True
    note b = base_plus_limit [OF r(1) True]
    have "\<not> x < rg_base r + limit" if "x \<in> dom (attr rs)" for x
    proof -
      have "rg_end r \<le> x" using that r(3) attr_below [of rs x] by (fastforce simp: not_less [symmetric])
      with b(2) show ?thesis by (auto simp: not_less)
    qed
    then have "{x \<in> dom (attr (r # rs)). x < max_addr_of limit (r # rs)} = {rg_base r..<rg_base r + limit}"
      using b(2) True unfolding dom_attr_Cons by auto
    moreover have "unat limit \<le> unat (rg_size r)" using True by (simp add: word_le_nat_alt)
    ultimately show ?thesis by (simp only: card_word_interval b(3) bytes_simps)
  next
    case False
    let ?a = "max_addr_of (limit - rg_size r) rs"
    have a: "max_addr_of limit (r # rs) = ?a" using False by simp
    have ge: "rg_end r \<le> ?a" using max_addr_ge [OF r(2)] r(3) by blast
    have "{x \<in> dom (attr (r # rs)). x < ?a} = {rg_base r..<rg_end r} \<union> {x \<in> dom (attr rs). x < ?a}"
      using ge unfolding dom_attr_Cons by auto
    moreover have "{rg_base r..<rg_end r} \<inter> {x \<in> dom (attr rs). x < ?a} = {}"
      using ordered_disjoint [OF Cons.prems] by auto
    ultimately have "card {x \<in> dom (attr (r # rs)). x < ?a} = unat (rg_size r) + card {x \<in> dom (attr rs). x < ?a}"
      using r(1) by (simp add: card_Un_disjoint finite_word card_word_interval rg_size_nat)
    moreover have "unat (rg_size r) < unat limit" "unat (limit - rg_size r) = unat limit - unat (rg_size r)"
      using False by (simp_all add: word_less_nat_alt not_le unat_sub word_le_nat_alt)
    ultimately show ?thesis unfolding a using Cons.IH [OF r(2), of "limit - rg_size r"]
      by (simp add: min_add_distrib_right del: attr.simps)
  qed
qed (simp add: domIff)

subsection \<open>Enforcing a limit\<close>

lemma used_regions_tbl: "tbl t rs \<Longrightarrow> used_regions t = Some rs"
  by (auto simp: used_regions_def tbl_def)

definition cut :: "phys_addr_t \<Rightarrow> (phys_addr_t \<rightharpoonup> 'a) \<Rightarrow> (phys_addr_t \<rightharpoonup> 'a)" where
  "cut a M = (\<lambda>x. if x < a then M x else None)"

definition has_room :: "memblock_type \<Rightarrow> bool" where
  "has_room t \<longleftrightarrow> t_cnt t + 2 \<le> t_max t"

lemma restrict_cut: "attr rs |` (- {a..<range_end a PHYS_ADDR_MAX}) = cut a (attr rs)"
proof -
  have "unat (range_end a PHYS_ADDR_MAX) = unat PHYS_ADDR_MAX"
    using cap_end(2) [of a PHYS_ADDR_MAX]
    by (simp add: PHYS_ADDR_MAX_def unsigned_minus_1_eq_mask mask_eq_exp_minus_1)
  then have "range_end a PHYS_ADDR_MAX = PHYS_ADDR_MAX" by (simp only: word_unat_eq_iff)
  then show ?thesis by (auto simp: restrict_map_def cut_def fun_eq_iff attr_max)
qed

lemma remove_above:
  assumes "memblock_inv m" "has_room (get_table w m)"
  shows "\<exists>t'. memblock_remove_range w a PHYS_ADDR_MAX m = Some (0, set_table w t' m) \<and> type_inv t' \<and>
    attr (live t') = cut a (table_map w m)"
  using remove_range_ok [of w m memblock_double_array a PHYS_ADDR_MAX] assms
  by (auto simp: memblock_inv_table memblock_remove_range_def has_room_def restrict_cut table_map_def)

lemma enforce_limit:
  assumes inv: "memblock_inv m" and room: "has_room (mb_memory m)" "has_room (mb_reserved m)" and limit: "limit \<noteq> 0"
  shows "\<exists>m' a. memblock_enforce_memory_limit limit m = Some m' \<and> memblock_inv m' \<and>
    table_map Memory m' = cut a (table_map Memory m) \<and> table_map Reserved m' = cut a (table_map Reserved m) \<and>
    unat (memblock_phys_mem_size m') = min (unat limit) (unat (memblock_phys_mem_size m))"
proof -
  have ti: "type_inv (mb_memory m)" using inv by (simp add: memblock_inv_def)
  let ?rs = "live (mb_memory m)" and ?a = "max_addr_of limit (live (mb_memory m))"
  have a: "find_max_addr limit m = Some ?a"
    using used_regions_tbl [OF type_inv_tbl [OF ti]] by (simp add: find_max_addr_def)
  have size: "unat (memblock_phys_mem_size m) = card (dom (table_map Memory m))"
    using total_size_card [OF ti] by (simp add: memblock_phys_mem_size_def table_map_def)
  have dom_cut: "dom (cut ?a (table_map Memory m)) = {x \<in> dom (attr ?rs). x < ?a}"
    by (auto simp: cut_def table_map_def dom_def split: if_splits)
  have cnt: "card (dom (cut ?a (table_map Memory m))) = min (unat limit) (card (dom (table_map Memory m)))"
    using ti
  proof (cases rule: regions_okE)
    case ord
    show ?thesis unfolding dom_cut using max_addr_card [OF ord(1), of limit] bytes_card [OF ord(1)] by (simp add: table_map_def)
  next
    case (dum d)
    then have "table_map Memory m = Map.empty" using attr_dummy by (simp add: table_map_def)
    then show ?thesis by (simp add: cut_def)
  qed
  show ?thesis
  proof (cases "?a = PHYS_ADDR_MAX")
    case True
    have "cut PHYS_ADDR_MAX (table_map w m) = table_map w m" for w
      by (auto simp: cut_def table_map_def fun_eq_iff attr_max)
    with True a limit inv cnt size show ?thesis
      by (intro exI [of _ m] exI [of _ PHYS_ADDR_MAX]) (simp add: memblock_enforce_memory_limit_def)
  next
    case False
    from remove_above [OF inv, of Memory ?a] room(1) obtain t1 where
      t1: "memblock_remove_range Memory ?a PHYS_ADDR_MAX m = Some (0, set_table Memory t1 m)" "type_inv t1"
      "attr (live t1) = cut ?a (table_map Memory m)" by auto
    let ?m1 = "set_table Memory t1 m"
    have inv1: "memblock_inv ?m1" using inv t1(2) by (rule memblock_inv_set)
    from remove_above [OF inv1, of Reserved ?a] room(2) obtain t2 where
      t2: "memblock_remove_range Reserved ?a PHYS_ADDR_MAX ?m1 = Some (0, set_table Reserved t2 ?m1)" "type_inv t2"
      "attr (live t2) = cut ?a (table_map Reserved ?m1)" by auto
    let ?m2 = "set_table Reserved t2 ?m1"
    have run: "memblock_enforce_memory_limit limit m = Some ?m2"
      using a limit False t1(1) t2(1) by (simp add: memblock_enforce_memory_limit_def)
    have inv2: "memblock_inv ?m2" using inv1 t2(2) by (rule memblock_inv_set)
    have maps: "table_map Memory ?m2 = cut ?a (table_map Memory m)" "table_map Reserved ?m2 = cut ?a (table_map Reserved m)"
      using t1(3) t2(3) by (simp_all add: table_map_def)
    have "unat (memblock_phys_mem_size ?m2) = card (dom (cut ?a (table_map Memory m)))"
      using total_size_card [OF t1(2)] t1(3) by (simp add: memblock_phys_mem_size_def)
    with run inv2 maps cnt size show ?thesis by (intro exI [of _ ?m2] exI [of _ ?a]) simp
  qed
qed

subsection \<open>Trimming\<close>

definition trim_region :: "phys_addr_t \<Rightarrow> memblock_region \<Rightarrow> memblock_region list" where
  "trim_region align r =
     (let start = round_up (rg_base r) align; en = round_down (rg_end r) align
      in if start = rg_base r \<and> en = rg_end r then [r]
         else if start < en then [r\<lparr>rg_base := start, rg_size := en - start\<rparr>] else [])"

lemma round_zero [simp]: "round_up 0 a = 0" "round_down 0 a = 0"
  by (simp_all add: round_up_def round_down_def)

lemma trim_loop_end: "tbl t pre \<Longrightarrow> trim_loop (Suc fuel) align (length pre) t = Some t"
  by (simp add: tbl_def)

lemma trim_loop_tbl:
  assumes "tbl t (pre @ rs)" "pre @ rs \<noteq> []" "length rs + 1 < fuel"
  shows "\<exists>t'. trim_loop fuel align (length pre) t = Some t' \<and> same_array t t' \<and>
    tbl t' (if pre @ concat (map (trim_region align) rs) = [] then [empty_region]
            else pre @ concat (map (trim_region align) rs))"
  using assms
proof (induction rs arbitrary: pre t fuel)
  case Nil
  then obtain f where "fuel = Suc f" by (cases fuel) auto
  with Nil trim_loop_end [of t pre f align] show ?case by auto
next
  case (Cons r rs)
  from Cons.prems(3) obtain f where f: "fuel = Suc f" "length rs + 1 < f" by (cases fuel) auto
  have get: "arr_get (t_regions t) (length pre) = Some r" using Cons.prems(1) by (rule tbl_get)
  have cnt: "length pre < t_cnt t" using Cons.prems(1) by (simp add: tbl_def)
  let ?s = "round_up (rg_base r) align" and ?e = "round_down (rg_end r) align"
  have e: "rg_base r + rg_size r = rg_end r" by (simp add: rg_end_def)
  consider (keep) "?s = rg_base r" "?e = rg_end r" | (shrink) "\<not> (?s = rg_base r \<and> ?e = rg_end r)" "?s < ?e"
    | (drop) "\<not> (?s = rg_base r \<and> ?e = rg_end r)" "\<not> ?s < ?e" by blast
  then show ?case
  proof cases
    case keep
    have "tbl t ((pre @ [r]) @ rs)" using Cons.prems(1) by simp
    from Cons.IH [OF this _ f(2)] keep show ?thesis
      using get cnt by (simp add: f(1) e trim_region_def Let_def)
  next
    case shrink
    let ?r = "r\<lparr>rg_base := ?s, rg_size := ?e - ?s\<rparr>"
    from Cons.prems(1) obtain tl where regs: "t_regions t = pre @ r # rs @ tl" by (auto simp: tbl_def)
    let ?t = "t\<lparr>t_regions := pre @ ?r # rs @ tl\<rparr>"
    have "tbl ?t ((pre @ [?r]) @ rs)" using Cons.prems(1) regs by (simp add: tbl_def)
    from Cons.IH [OF this _ f(2)] obtain t' where "trim_loop f align (Suc (length pre)) ?t = Some t'" "same_array ?t t'"
      "tbl t' (pre @ ?r # concat (map (trim_region align) rs))" by auto
    moreover have "arr_set (t_regions t) (length pre) ?r = Some (pre @ ?r # rs @ tl)"
      by (simp add: regs arr_set_def)
    ultimately have "trim_loop fuel align (length pre) t = Some t'"
      using get cnt shrink by (auto simp: f(1) e Let_def)
    moreover have "trim_region align r = [?r]" using shrink by (auto simp: trim_region_def Let_def)
    ultimately show ?thesis using \<open>same_array ?t t'\<close> \<open>tbl t' _\<close> by (simp add: same_array_def)
  next
    case drop
    from remove_region_tbl [OF Cons.prems(1)] obtain t1 where t1: "memblock_remove_region t (length pre) = Some t1"
      "same_array t t1" "tbl t1 (if pre = [] \<and> rs = [] then [empty_region] else pre @ rs)" by blast
    have run: "trim_loop fuel align (length pre) t = trim_loop f align (length pre) t1"
      using get cnt drop t1(1) by (auto simp: f(1) e Let_def)
    have tr: "trim_region align r = []" using drop by (simp add: trim_region_def Let_def)
    show ?thesis
    proof (cases "pre = [] \<and> rs = []")
      case True
      then have d: "tbl t1 [empty_region]" using t1(3) by simp
      obtain f' where f': "f = Suc (Suc f')" using f(2) True by (metis add.left_neutral less_iff_Suc_add add_Suc_right list.size(3) One_nat_def plus_1_eq_Suc)
      have "trim_loop f align 0 t1 = Some t1"
        using live_first [OF d] tbl_cnt [OF d] by (simp add: f' empty_region_def)
      with run True d t1(2) tr show ?thesis by simp
    next
      case False
      then have "tbl t1 (pre @ rs)" "pre @ rs \<noteq> []" using t1(3) by auto
      from Cons.IH [OF this f(2)] obtain t' where t': "trim_loop f align (length pre) t1 = Some t'" "same_array t1 t'"
        "tbl t' (if pre @ concat (map (trim_region align) rs) = [] then [empty_region]
            else pre @ concat (map (trim_region align) rs))" by blast
      have "same_array t t'" using t1(2) t'(2) by (rule same_array_trans)
      moreover have cc: "concat (map (trim_region align) (r # rs)) = concat (map (trim_region align) rs)" by (simp add: tr)
      ultimately show ?thesis unfolding cc run using t'(1,3) by blast
    qed
  qed
qed

text \<open>The rounded ends of a region, where rounding up does not pass the end of the address space.\<close>

lemma unat_pow2: assumes "n < 32" shows "unat (2 ^ n :: u32) = 2 ^ n"
proof -
  have "(2 :: nat) ^ n < 2 ^ 32" using assms by (rule power_strict_increasing) simp
  then have "unat (word_of_nat (2 ^ n) :: u32) = 2 ^ n" unfolding unat_of_nat by simp
  then show ?thesis by simp
qed

lemma unat_round_up:
  assumes "n < 32" "unat x + 2 ^ n \<le> 2 ^ 32"
  shows "unat (round_up x (2 ^ n)) = (unat x + (2 ^ n - 1)) div 2 ^ n * 2 ^ n"
proof (cases "x = 0")
  case False
  define y where "y = x - 1"
  have x: "unat x = unat y + 1" using False by (simp add: y_def unat_minus_one word_neq_0_conv word_less_nat_alt)
  have or: "y OR mask n = push_bit n (drop_bit n y) + mask n"
  proof -
    have "y OR mask n = (y AND NOT (mask n)) OR mask n"
      by (rule bit_word_eqI) (auto simp: bit_simps)
    also have "\<dots> = (y AND NOT (mask n)) + mask n"
      by (rule disjunctive_add_eq_or [symmetric]) (rule bit_word_eqI, auto simp: bit_simps)
    finally show ?thesis by (simp add: and_not_mask_eq)
  qed
  have "round_up x (2 ^ n) = push_bit n (drop_bit n y) + 2 ^ n"
    by (simp add: round_up_def pow_minus_mask [OF assms(1)] y_def [symmetric] or) (simp add: mask_eq_exp_minus_1)
  moreover have p: "unat (2 ^ n :: u32) = 2 ^ n" by (rule unat_pow2 [OF assms(1)])
  moreover have q: "unat y div 2 ^ n * 2 ^ n + 2 ^ n < 2 ^ 32"
    using assms(2) x div_times_less_eq_dividend [of "unat y" "2 ^ n"] by linarith
  ultimately have "unat (round_up x (2 ^ n)) = unat y div 2 ^ n * 2 ^ n + 2 ^ n"
    by (simp add: unat_word_ariths unat_align_down)
  moreover have "unat x + (2 ^ n - 1) = unat y + 2 ^ n" using x by simp
  moreover have "(unat y + 2 ^ n) div 2 ^ n * 2 ^ n = unat y div 2 ^ n * 2 ^ n + 2 ^ n"
    by (simp add: div_add_self2 algebra_simps)
  ultimately show ?thesis by metis
qed simp

text \<open>A trimmed region consists of the aligned blocks that lie inside the region.\<close>

definition whole_block :: "nat \<Rightarrow> memblock_region \<Rightarrow> phys_addr_t \<Rightarrow> bool" where
  "whole_block n r x \<longleftrightarrow> (\<forall>y. unat y div 2 ^ n = unat x div 2 ^ n \<longrightarrow> in_region r y)"

lemma block_bounds:
  fixes x b base en :: nat
  assumes "0 < b"
  shows "(base + (b - 1)) div b * b \<le> x \<longleftrightarrow> base \<le> x div b * b" "x < en div b * b \<longleftrightarrow> x div b * b + b \<le> en"
proof -
  have "(base + (b - 1)) div b * b \<le> x \<longleftrightarrow> (base + (b - 1)) div b \<le> x div b"
    using assms by (simp add: less_eq_div_iff_mult_less_eq)
  also have "\<dots> \<longleftrightarrow> base + (b - 1) < (x div b + 1) * b"
    using assms by (metis Suc_eq_plus1 div_less_iff_less_mult less_Suc_eq_le)
  also have "\<dots> \<longleftrightarrow> base \<le> x div b * b" using assms by (auto simp: algebra_simps)
  finally show "(base + (b - 1)) div b * b \<le> x \<longleftrightarrow> base \<le> x div b * b" .
  have "x < en div b * b \<longleftrightarrow> x div b < en div b" using assms by (simp add: div_less_iff_less_mult)
  also have "\<dots> \<longleftrightarrow> (x div b + 1) * b \<le> en" using assms by (metis Suc_eq_plus1 Suc_le_eq less_eq_div_iff_mult_less_eq)
  finally show "x < en div b * b \<longleftrightarrow> x div b * b + b \<le> en" by (simp add: algebra_simps)
qed

lemma whole_block_iff:
  assumes "n < 32"
  shows "whole_block n r x \<longleftrightarrow>
    unat (rg_base r) \<le> unat x div 2 ^ n * 2 ^ n \<and> unat x div 2 ^ n * 2 ^ n + 2 ^ n \<le> unat (rg_end r)"
    (is "_ \<longleftrightarrow> ?R")
proof
  let ?b = "(2 :: nat) ^ n" and ?k = "unat x div 2 ^ n"
  have x: "unat x < 2 ^ 32" using unsigned_less [of x, where 'a = nat] by simp
  have "(2 :: nat) ^ 32 = 2 ^ (32 - n) * ?b" using assms by (simp add: power_add [symmetric])
  moreover from this x have "?k < 2 ^ (32 - n)" by (simp add: div_less_iff_less_mult)
  ultimately have top: "?k * ?b + ?b \<le> 2 ^ 32"
    by (metis Suc_le_eq mult_Suc add.commute mult_le_mono1)
  assume w: "whole_block n r x"
  have in_r: "unat (rg_base r) \<le> j \<and> j < unat (rg_end r)" if "?k * ?b \<le> j" "j < ?k * ?b + ?b" for j
  proof -
    have j: "unat (word_of_nat j :: u32) = j" using that top by (simp add: unat_of_nat)
    moreover have "j div ?b = ?k" using that by (intro div_nat_eqI) (auto simp: algebra_simps)
    ultimately have "in_region r (word_of_nat j)" using w by (simp add: whole_block_def)
    with j show ?thesis by (simp add: in_region_def word_le_nat_alt word_less_nat_alt)
  qed
  have "0 < ?b" by simp
  with in_r [of "?k * ?b"] in_r [of "?k * ?b + ?b - 1"] show ?R by linarith
next
  let ?b = "(2 :: nat) ^ n" and ?k = "unat x div 2 ^ n"
  assume R: ?R
  have "in_region r y" if "unat y div ?b = ?k" for y
  proof -
    have "?k * ?b \<le> unat y" "unat y < ?k * ?b + ?b"
      using that div_times_less_eq_dividend [of "unat y" ?b] dividend_less_div_times [of ?b "unat y"] by auto
    with R show ?thesis by (auto simp: in_region_def word_le_nat_alt word_less_nat_alt)
  qed
  then show "whole_block n r x" by (simp add: whole_block_def)
qed

lemma trim_region_iff:
  assumes n: "n < 32" and r: "rg_base r < rg_end r" "unat (rg_base r) + 2 ^ n \<le> 2 ^ 32"
  shows "(\<exists>r'\<in>set (trim_region (2 ^ n) r). in_region r' x) \<longleftrightarrow> whole_block n r x"
proof -
  let ?s = "round_up (rg_base r) (2 ^ n)" and ?e = "round_down (rg_end r) (2 ^ n)"
  have "?s \<le> x \<longleftrightarrow> unat (rg_base r) \<le> unat x div 2 ^ n * 2 ^ n" "x < ?e \<longleftrightarrow> unat x div 2 ^ n * 2 ^ n + 2 ^ n \<le> unat (rg_end r)"
    using block_bounds(1) [of "2 ^ n" "unat (rg_base r)" "unat x"] block_bounds(2) [of "2 ^ n" "unat x" "unat (rg_end r)"]
    by (simp_all add: word_le_nat_alt word_less_nat_alt unat_round_up [OF n r(2)] unat_round_down [OF n])
  then have "whole_block n r x \<longleftrightarrow> ?s \<le> x \<and> x < ?e" by (simp add: whole_block_iff [OF n])
  moreover have "(\<exists>r'\<in>set (trim_region (2 ^ n) r). in_region r' x) \<longleftrightarrow> ?s \<le> x \<and> x < ?e"
    using r(1) by (auto simp: trim_region_def in_region_def Let_def rg_end_def)
  ultimately show ?thesis by simp
qed

lemma trim_region_attr:
  "r' \<in> set (trim_region a r) \<Longrightarrow> rg_flags r' = rg_flags r \<and> rg_nid r' = rg_nid r"
  by (auto simp: trim_region_def Let_def split: if_splits)

lemma trim_region_length: "length (trim_region a r) \<le> 1"
  by (simp add: trim_region_def Let_def)

lemma attr_trim_region:
  assumes "n < 32" "rg_base r < rg_end r" "unat (rg_base r) + 2 ^ n \<le> 2 ^ 32"
  shows "attr (trim_region (2 ^ n) r) x = (if whole_block n r x then Some (rg_flags r, rg_nid r) else None)"
proof -
  have "trim_region (2 ^ n) r = [] \<or> (\<exists>r'. trim_region (2 ^ n) r = [r'])"
    by (simp add: trim_region_def Let_def)
  then show ?thesis using trim_region_iff [OF assms, of x] trim_region_attr [of _ "2 ^ n" r] by fastforce
qed

lemma whole_block_in_region: "whole_block n r x \<Longrightarrow> in_region r x"
  by (simp add: whole_block_def)

lemma trim_attr:
  assumes "n < 32" "ordered rs" "\<And>r. r \<in> set rs \<Longrightarrow> unat (rg_base r) + 2 ^ n \<le> 2 ^ 32"
  shows "attr (concat (map (trim_region (2 ^ n)) rs)) x =
    (if \<exists>r\<in>set rs. whole_block n r x then attr rs x else None)"
  using assms(2,3)
proof (induction rs)
  case (Cons r rs)
  have r: "rg_base r < rg_end r" "unat (rg_base r) + 2 ^ n \<le> 2 ^ 32" "ordered rs" using Cons.prems by (auto simp: ordered_Cons)
  note IH = Cons.IH [OF r(3)] and here = attr_trim_region [OF assms(1) r(1,2), of x]
  have disj: "\<not> in_region r x" if "in_region s x" "s \<in> set rs" for s
    using that Cons.prems(1) by (force simp: ordered_Cons in_region_def)
  show ?case
  proof (cases "whole_block n r x")
    case True
    then show ?thesis using here whole_block_in_region by (simp add: attr_append)
  next
    case False
    then have "attr (concat (map (trim_region (2 ^ n)) (r # rs))) x = attr (concat (map (trim_region (2 ^ n)) rs)) x"
      using here by (simp add: attr_append)
    also have "\<dots> = (if \<exists>s\<in>set rs. whole_block n s x then attr rs x else None)" using IH Cons.prems by simp
    also have "\<dots> = (if \<exists>s\<in>set (r # rs). whole_block n s x then attr (r # rs) x else None)"
      using False disj whole_block_in_region by auto
    finally show ?thesis .
  qed
qed simp

lemma trim_memory:
  assumes inv: "memblock_inv m" and n: "n < 32"
    and top: "\<forall>r\<in>set (live (mb_memory m)). unat (rg_base r) + 2 ^ n \<le> 2 ^ 32"
  shows "\<exists>m'. memblock_trim_memory (2 ^ n) m = Some m' \<and> mb_reserved m' = mb_reserved m \<and>
    table_map Memory m' = (\<lambda>x. if \<exists>r\<in>set (live (mb_memory m)). whole_block n r x then table_map Memory m x else None)"
proof -
  let ?t = "mb_memory m" and ?rs = "live (mb_memory m)"
  have ti: "type_inv ?t" using inv by (simp add: memblock_inv_def)
  then have t: "tbl ?t ([] @ ?rs)" "[] @ ?rs \<noteq> []" "length ?rs + 1 < t_cnt ?t + 2"
    using tbl_cnt [of ?t ?rs] by (auto simp: type_inv_def regions_ok_def)
  let ?cs = "concat (map (trim_region (2 ^ n)) ?rs)"
  from trim_loop_tbl [OF t, of "2 ^ n"] obtain t' where t': "trim_loop (t_cnt ?t + 2) (2 ^ n) 0 ?t = Some t'"
    "tbl t' (if ?cs = [] then [empty_region] else ?cs)" 
    unfolding append_Nil list.size by blast
  have e: "attr [empty_region] = Map.empty" by (rule attr_dummy) (simp add: dummy_def empty_region_def)
  have "attr [] = Map.empty" by (simp add: fun_eq_iff)
  then have "attr (live t') = attr ?cs" using tbl_live [OF t'(2)] e by (cases "?cs = []") (simp_all del: concat_eq_Nil_conv)
  also have "\<dots> = (\<lambda>x. if \<exists>r\<in>set ?rs. whole_block n r x then attr ?rs x else None)"
    using ti
  proof (cases rule: regions_okE)
    case ord
    show ?thesis using trim_attr [OF n ord(1)] top by auto
  next
    case (dum d)
    have "trim_region (2 ^ n) d = [d]" using dum(2) by (simp add: trim_region_def dummy_def rg_end_def)
    then show ?thesis using dum attr_dummy by (auto simp: fun_eq_iff)
  qed
  finally show ?thesis using t'(1)
    unfolding memblock_trim_memory_def table_map_def get_table.simps by (simp del: trim_loop.simps)
qed

end
