(* ===== verification/Memblock_Props.thy ===== *)
theory Memblock_Props
  imports Memblock_Limit
begin

section \<open>Properties of the boot memory allocator\<close>

text \<open>
  The statements about \<^verbatim>\<open>mm/memblock.c\<close> that its callers rely on, each with a concrete state on
  which its hypotheses hold. \<open>sample\<close> is a state with two regions of memory, on nodes 0 and 1, and
  one reserved region, in tables of eight entries.
\<close>

definition sample :: memblock where
  "sample = memblock_init
     \<lparr>mb_memory := \<lparr>t_cnt = 2, t_max = 8, t_total_size = 0x3000,
        t_regions = [\<lparr>rg_base = 0x1000, rg_size = 0x2000, rg_flags = 0, rg_nid = 0\<rparr>,
                     \<lparr>rg_base = 0x5000, rg_size = 0x1000, rg_flags = 0, rg_nid = 1\<rparr>] @ replicate 6 zero_region,
        t_array = Init_regions\<rparr>,
      mb_reserved := \<lparr>t_cnt = 1, t_max = 8, t_total_size = 0x800,
        t_regions = [\<lparr>rg_base = 0x1000, rg_size = 0x800, rg_flags = 0, rg_nid = 4\<rparr>] @ replicate 7 zero_region,
        t_array = Init_regions\<rparr>\<rparr>"

lemma sample_tables:
  "live (mb_memory sample) = [\<lparr>rg_base = 0x1000, rg_size = 0x2000, rg_flags = 0, rg_nid = 0\<rparr>,
     \<lparr>rg_base = 0x5000, rg_size = 0x1000, rg_flags = 0, rg_nid = 1\<rparr>]"
  "live (mb_reserved sample) = [\<lparr>rg_base = 0x1000, rg_size = 0x800, rg_flags = 0, rg_nid = 4\<rparr>]"
  "t_cnt (mb_memory sample) = 2" "t_max (mb_memory sample) = 8"
  "t_cnt (mb_reserved sample) = 1" "t_max (mb_reserved sample) = 8" "mb_can_resize sample = False"
  by (simp_all add: live_def sample_def memblock_init_def)

lemma sample_inv: "memblock_inv sample"
  unfolding memblock_inv_def type_inv_def sample_tables
  by (simp add: sample_def tbl_def regions_ok_def ordered_Cons rg_end_def)

subsection \<open>Tables as maps\<close>

text \<open>C1. Adding a range to a table, with room for the regions it creates, succeeds, keeps the
  invariant, and defines exactly the addresses of the range that had no attributes before;
  addresses that were present keep theirs. The other table does not change, and a table with no
  mergeable neighbours stays that way.\<close>

theorem memblock_add_range_refines:
  assumes "memblock_inv m"
    and "t_cnt (get_table w m) + new_regions base (range_end base sz) nid flags (live (get_table w m))
      \<le> t_max (get_table w m)"
  shows "\<exists>t'. memblock_add_range w base sz nid flags m = Some (0, set_table w t' m) \<and>
    memblock_inv (set_table w t' m) \<and>
    table_map w (set_table w t' m) = range_map base (range_end base sz) (flags, nid) ++ table_map w m \<and>
    (merged (live (get_table w m)) \<longrightarrow> merged (live t'))"
proof -
  have "type_inv (get_table w m)" using assms(1) by (simp add: memblock_inv_table)
  from add_range_ok [OF this assms(2), of memblock_double_array] show ?thesis
    using memblock_inv_set [OF assms(1)] by (auto simp: memblock_add_range_def table_map_def)
qed

theorem memblock_add_range_refines_witness:
  "\<exists>t'. memblock_add_range Memory 0x2000 0x4000 0 0 sample = Some (0, set_table Memory t' sample) \<and>
    memblock_inv (set_table Memory t' sample) \<and>
    table_map Memory (set_table Memory t' sample) = range_map 0x2000 0x6000 (0, 0) ++ table_map Memory sample \<and>
    (merged (live (get_table Memory sample)) \<longrightarrow> merged (live t'))"
proof -
  have e: "range_end 0x2000 0x4000 = 0x6000" by (simp add: range_end_def memblock_cap_size_def PHYS_ADDR_MAX_def)
  have "t_cnt (get_table Memory sample) + new_regions 0x2000 (range_end 0x2000 0x4000) 0 0 (live (get_table Memory sample))
      \<le> t_max (get_table Memory sample)"
    using new_regions_le [of "0x2000" "0x6000" 0 0 "live (mb_memory sample)"] by (simp add: sample_tables e)
  from memblock_add_range_refines [OF sample_inv this] show ?thesis unfolding e .
qed

text \<open>C3. Removing a range from a table with two free entries succeeds, keeps the invariant, and
  removes exactly the addresses of the range.\<close>

theorem memblock_remove_range_refines:
  assumes "memblock_inv m" "t_cnt (get_table w m) + 2 \<le> t_max (get_table w m)"
  shows "\<exists>t'. memblock_remove_range w base sz m = Some (0, set_table w t' m) \<and>
    memblock_inv (set_table w t' m) \<and>
    table_map w (set_table w t' m) = table_map w m |` (- {base..<range_end base sz})"
proof -
  have "type_inv (get_table w m)" using assms(1) by (simp add: memblock_inv_table)
  from remove_range_ok [OF this assms(2), of memblock_double_array base sz] show ?thesis
    using memblock_inv_set [OF assms(1)] by (auto simp: memblock_remove_range_def table_map_def)
qed

theorem memblock_remove_range_refines_witness:
  "\<exists>t'. memblock_remove_range Memory 0x1800 0x400 sample = Some (0, set_table Memory t' sample) \<and>
    memblock_inv (set_table Memory t' sample) \<and>
    table_map Memory (set_table Memory t' sample) = table_map Memory sample |` (- {0x1800..<0x1C00})"
  using memblock_remove_range_refines [OF sample_inv, of Memory "0x1800" "0x400"]
  by (simp add: sample_tables range_end_def memblock_cap_size_def PHYS_ADDR_MAX_def)

lemma setclr_flag_ok:
  assumes "memblock_inv m" "t_cnt (mb_memory m) + 2 \<le> t_max (mb_memory m)"
  shows "\<exists>t'. memblock_setclr_flag base sz on flag m = Some (0, m\<lparr>mb_memory := t'\<rparr>) \<and>
    memblock_inv (m\<lparr>mb_memory := t'\<rparr>) \<and> merged (live t') \<and>
    table_map Memory (m\<lparr>mb_memory := t'\<rparr>) = (\<lambda>x. if base \<le> x \<and> x < range_end base sz
      then map_option (\<lambda>(f, n). (if on then f OR flag else f AND NOT flag, n)) (table_map Memory m x)
      else table_map Memory m x)"
proof -
  let ?g = "\<lambda>(f, n). (if on then f OR flag else f AND NOT flag, n)"
  have ti: "type_inv (get_table Memory m)" using assms(1) by (simp add: memblock_inv_def)
  have room: "t_cnt (get_table Memory m) + 2 \<le> t_max (get_table Memory m)" using assms(2) by simp
  have "\<exists>t'. update_range (setclr on flag) Memory base sz m = Some (0, set_table Memory t' m) \<and> type_inv t' \<and>
      same_array (get_table Memory m) t' \<and> merged (live t') \<and>
      attr (live t') = (\<lambda>x. if base \<le> x \<and> x < range_end base sz
        then map_option ?g (attr (live (get_table Memory m)) x) else attr (live (get_table Memory m)) x)"
    by (rule update_range_ok [OF ti room]) (simp_all add: setclr_def)
  then show ?thesis
    using memblock_inv_set [OF assms(1), of _ Memory]
    unfolding setclr_flag_update table_map_def by (auto simp: if_distrib)
qed

text \<open>C17. Setting or clearing a flag changes the flags of the memory inside the range and no other
  attribute, keeps the invariant and leaves no mergeable neighbours.\<close>

theorem memblock_setclr_flag_refines:
  assumes "memblock_inv m" "t_cnt (mb_memory m) + 2 \<le> t_max (mb_memory m)"
  shows "\<exists>t'. memblock_setclr_flag base sz on flag m = Some (0, m\<lparr>mb_memory := t'\<rparr>) \<and>
    memblock_inv (m\<lparr>mb_memory := t'\<rparr>) \<and> merged (live t') \<and>
    table_map Memory (m\<lparr>mb_memory := t'\<rparr>) = (\<lambda>x. if base \<le> x \<and> x < range_end base sz
      then map_option (\<lambda>(f, n). (if on then f OR flag else f AND NOT flag, n)) (table_map Memory m x)
      else table_map Memory m x)"
  by (rule setclr_flag_ok [OF assms])

theorem memblock_setclr_flag_refines_witness:
  "\<exists>t'. memblock_setclr_flag 0x1000 0x800 True MEMBLOCK_NOMAP sample = Some (0, sample\<lparr>mb_memory := t'\<rparr>) \<and>
    memblock_inv (sample\<lparr>mb_memory := t'\<rparr>) \<and> merged (live t') \<and>
    table_map Memory (sample\<lparr>mb_memory := t'\<rparr>) = (\<lambda>x. if 0x1000 \<le> x \<and> x < range_end 0x1000 0x800
      then map_option (\<lambda>(f, n). (if True then f OR MEMBLOCK_NOMAP else f AND NOT MEMBLOCK_NOMAP, n)) (table_map Memory sample x)
      else table_map Memory sample x)"
  using memblock_setclr_flag_refines [OF sample_inv, of "0x1000" "0x800" True MEMBLOCK_NOMAP]
  by (simp add: sample_tables)

text \<open>C19. \<^verbatim>\<open>memblock_set_node\<close> gives the addresses of the range that are in the table a new node and
  keeps everything else.\<close>

theorem memblock_set_node_refines:
  assumes "memblock_inv m" "t_cnt (get_table w m) + 2 \<le> t_max (get_table w m)"
  shows "\<exists>t'. memblock_set_node base sz w nid m = Some (0, set_table w t' m) \<and>
    memblock_inv (set_table w t' m) \<and> merged (live t') \<and>
    table_map w (set_table w t' m) = (\<lambda>x. if base \<le> x \<and> x < range_end base sz
      then map_option (\<lambda>(f, n). (f, nid)) (table_map w m x) else table_map w m x)"
proof -
  have ti: "type_inv (get_table w m)" using assms(1) by (simp add: memblock_inv_table)
  have "\<exists>t'. update_range (\<lambda>r. memblock_set_region_node r nid) w base sz m = Some (0, set_table w t' m) \<and> type_inv t' \<and>
      same_array (get_table w m) t' \<and> merged (live t') \<and>
      attr (live t') = (\<lambda>x. if base \<le> x \<and> x < range_end base sz
        then map_option (\<lambda>(f, n). (f, nid)) (attr (live (get_table w m)) x) else attr (live (get_table w m)) x)"
    by (rule update_range_ok [OF ti assms(2)]) (simp_all add: memblock_set_region_node_def)
  then show ?thesis
    using memblock_inv_set [OF assms(1), of _ w] unfolding set_node_update table_map_def by auto
qed

theorem memblock_set_node_refines_witness:
  "\<exists>t'. memblock_set_node 0x2000 0x4000 Memory 2 sample = Some (0, set_table Memory t' sample) \<and>
    memblock_inv (set_table Memory t' sample) \<and> merged (live t') \<and>
    table_map Memory (set_table Memory t' sample) = (\<lambda>x. if 0x2000 \<le> x \<and> x < range_end 0x2000 0x4000
      then map_option (\<lambda>(f, n). (f, 2)) (table_map Memory sample x) else table_map Memory sample x)"
  by (rule memblock_set_node_refines [OF sample_inv]) (simp add: sample_tables)

text \<open>C21. Reserving a range that was not reserved and freeing it again restores the map of the
  reserved memory.\<close>

theorem memblock_reserve_free:
  assumes "memblock_inv m" "2 * t_cnt (mb_reserved m) + 3 \<le> t_max (mb_reserved m)"
    and "\<forall>x. base \<le> x \<and> x < range_end base sz \<longrightarrow> table_map Reserved m x = None"
  shows "\<exists>m1 m2. memblock_reserve base sz m = Some (0, m1) \<and> memblock_free base sz m1 = Some (0, m2) \<and>
    memblock_inv m2 \<and> table_map Reserved m2 = table_map Reserved m"
  using reserved_store.add_del [OF assms(1,2), of base sz MAX_NUMNODES 0] assms(3)
  by (simp add: memblock_reserve_def memblock_free_def)

theorem memblock_reserve_free_witness:
  "\<exists>m1 m2. memblock_reserve 0x2000 0x100 sample = Some (0, m1) \<and> memblock_free 0x2000 0x100 m1 = Some (0, m2) \<and>
    memblock_inv m2 \<and> table_map Reserved m2 = table_map Reserved sample"
proof (rule memblock_reserve_free [OF sample_inv])
  have "rg_end \<lparr>rg_base = 0x1000, rg_size = 0x800, rg_flags = 0, rg_nid = 4\<rparr> \<le> x" if "0x2000 \<le> x" for x
    using that by (simp add: rg_end_def word_le_nat_alt)
  then show "\<forall>x. 0x2000 \<le> x \<and> x < range_end 0x2000 0x100 \<longrightarrow> table_map Reserved sample x = None"
    unfolding table_map_def get_table.simps sample_tables by (intro allI impI attr_above) auto
qed (simp add: sample_tables)

text \<open>C23. A table that may not grow and has no room for the new regions is left as it is, and the
  call returns \<^verbatim>\<open>-ENOMEM\<close>.\<close>

theorem memblock_add_range_full:
  assumes "memblock_inv m" "ordered (live (get_table w m))" "memblock_cap_size base sz \<noteq> 0" "\<not> mb_can_resize m"
    and "t_max (get_table w m) <
      t_cnt (get_table w m) + new_regions base (range_end base sz) nid flags (live (get_table w m))"
  shows "memblock_add_range w base sz nid flags m = Some (- ENOMEM, m)"
  using assms by (intro add_range_full) (simp_all add: memblock_inv_table not_le)

definition full_sample :: memblock where
  "full_sample = memblock_init\<lparr>mb_memory := \<lparr>t_cnt = 1, t_max = 1, t_total_size = 0x1000,
     t_regions = [\<lparr>rg_base = 0x1000, rg_size = 0x1000, rg_flags = 0, rg_nid = 0\<rparr>], t_array = Init_regions\<rparr>\<rparr>"

theorem memblock_add_range_full_witness:
  "memblock_add_range Memory 0x8000 0x1000 0 0 full_sample = Some (- ENOMEM, full_sample)"
proof (rule memblock_add_range_full)
  have l: "live (mb_memory full_sample) = [\<lparr>rg_base = 0x1000, rg_size = 0x1000, rg_flags = 0, rg_nid = 0\<rparr>]"
    by (simp add: full_sample_def live_def)
  then show "ordered (live (get_table Memory full_sample))" by (simp add: ordered_Cons rg_end_def)
  have "type_inv (mb_memory full_sample)"
    unfolding type_inv_def l by (simp add: full_sample_def tbl_def regions_ok_def ordered_Cons rg_end_def)
  then show "memblock_inv full_sample" using init_inv by (simp add: memblock_inv_def full_sample_def)
  show "memblock_cap_size 0x8000 0x1000 \<noteq> 0" by (simp add: memblock_cap_size_def PHYS_ADDR_MAX_def)
  show "\<not> mb_can_resize full_sample" by (simp add: full_sample_def memblock_init_def)
  show "t_max (get_table Memory full_sample) < t_cnt (get_table Memory full_sample) +
      new_regions 0x8000 (range_end 0x8000 0x1000) 0 0 (live (get_table Memory full_sample))"
    by (simp add: l new_regions_def gap_def rg_end_def range_end_def memblock_cap_size_def PHYS_ADDR_MAX_def)
      (simp add: full_sample_def)
qed



subsection \<open>Iteration, search and allocation\<close>

lemma free_ranges:
  assumes "memblock_inv m"
  shows "\<exists>fs bs.
    for_each_range (range_fuel m) (next_mem_range nid flags (mb_memory m) (Some (mb_reserved m))) collect [] 0 = Some (Inr fs) \<and>
    for_each_range (range_fuel m) (next_mem_range_rev nid flags (mb_memory m) (Some (mb_reserved m))) collect [] ULLONG_MAX = Some (Inr bs) \<and>
    covered fs = covered bs \<and>
    covered fs = {x. (\<exists>r\<in>set (live (mb_memory m)). \<not> should_skip_region r (node_of nid) flags \<and> in_region r x) \<and>
      table_map Reserved m x = None}"
proof -
  let ?q = "(nid, flags, mb_memory m, mb_reserved m)"
  note tok = memblock_inv_tables(1) [OF assms]
  have "fwd_left ?q 0 < range_fuel m" "rev_left ?q ULLONG_MAX < range_fuel m"
    using iteration_start(5,6) [OF tok, of nid flags] by (simp_all add: range_fuel_def)
  from fwd.collects [OF iteration_start(2) [OF tok] this(1)] bwd.collects [OF iteration_start(1) [OF tok] this(2)]
  show ?thesis
    unfolding iteration_start(3,4) [OF tok] using free_memory_iff [OF assms, of _ nid flags]
    by (auto simp: fwd_nxt_def rev_nxt_def)
qed

text \<open>C4. The forward and the backward iteration over free memory both end within the bound and
  visit exactly the addresses of the selected memory regions that are not reserved.\<close>

theorem free_mem_ranges_exact:
  assumes "memblock_inv m"
  shows "\<exists>fs bs.
    for_each_range (range_fuel m) (next_mem_range nid flags (mb_memory m) (Some (mb_reserved m))) collect [] 0 = Some (Inr fs) \<and>
    for_each_range (range_fuel m) (next_mem_range_rev nid flags (mb_memory m) (Some (mb_reserved m))) collect [] ULLONG_MAX = Some (Inr bs) \<and>
    covered fs = covered bs \<and>
    covered fs = {x. (\<exists>r\<in>set (live (mb_memory m)). \<not> should_skip_region r (node_of nid) flags \<and> in_region r x) \<and>
      table_map Reserved m x = None}"
  by (rule free_ranges [OF assms])

theorem free_mem_ranges_exact_witness:
  "\<exists>fs bs.
    for_each_range (range_fuel sample) (next_mem_range (-1) 0 (mb_memory sample) (Some (mb_reserved sample))) collect [] 0 = Some (Inr fs) \<and>
    for_each_range (range_fuel sample) (next_mem_range_rev (-1) 0 (mb_memory sample) (Some (mb_reserved sample))) collect [] ULLONG_MAX = Some (Inr bs) \<and>
    covered fs = covered bs \<and>
    covered fs = {x. (\<exists>r\<in>set (live (mb_memory sample)). \<not> should_skip_region r (node_of (-1)) 0 \<and> in_region r x) \<and>
      table_map Reserved sample x = None}"
  by (rule free_mem_ranges_exact [OF sample_inv])

text \<open>C6. \<^verbatim>\<open>memblock_find_in_range_node\<close> returns an aligned free block inside the bounds if there is
  one, and 0 otherwise. The bounds are those of the call, raised to the first page and, where the
  caller gives no end, cut at the current limit.\<close>

theorem memblock_find_in_range_node_correct:
  assumes "memblock_inv m" "n < 32" "0 < sz"
  shows "\<exists>c. memblock_find_in_range_node m sz (2 ^ n) start en nid flags = Some c \<and>
    (if c = 0 then \<nexists>d. free_block m (search_start start) (search_end m start en) sz (2 ^ n) nid flags d
     else free_block m (search_start start) (search_end m start en) sz (2 ^ n) nid flags c)"
  by (rule find_node [OF assms])

theorem memblock_find_in_range_node_correct_witness:
  "\<exists>c. memblock_find_in_range_node sample 64 (2 ^ 6) 0 0 (-1) 0 = Some c \<and>
    (if c = 0 then \<nexists>d. free_block sample (search_start 0) (search_end sample 0 0) 64 (2 ^ 6) (-1) 0 d
     else free_block sample (search_start 0) (search_end sample 0 0) 64 (2 ^ 6) (-1) 0 c)"
  by (rule memblock_find_in_range_node_correct [OF sample_inv]) simp_all

text \<open>C2. \<^verbatim>\<open>memblock_alloc_range_nid\<close> either returns a block that was free, aligned and inside the
  bounds, and reserves exactly that block, or it returns 0, changes nothing, and there is no such
  block on any node.\<close>

theorem memblock_alloc_range_nid_correct:
  assumes "memblock_inv m" "t_cnt (mb_reserved m) < t_max (mb_reserved m)" "n < 32" "0 < sz"
  shows "\<exists>c m'. memblock_alloc_range_nid sz (2 ^ n) start en nid m = Some (c, m') \<and>
    (if c = 0 then m' = m \<and>
       (\<nexists>d. free_block m (search_start start) (search_end m start en) sz (2 ^ n) NUMA_NO_NODE MEMBLOCK_NONE d)
     else free_block m (search_start start) (search_end m start en) sz (2 ^ n) NUMA_NO_NODE MEMBLOCK_NONE c \<and>
       memblock_inv m' \<and> m' = m\<lparr>mb_reserved := mb_reserved m'\<rparr> \<and>
       table_map Reserved m' = range_map c (c + sz) (0, MAX_NUMNODES) ++ table_map Reserved m)"
  using alloc_range_nid [OF assms] unfolding allocated_def .

theorem memblock_alloc_range_nid_correct_witness:
  "\<exists>c m'. memblock_alloc_range_nid 64 (2 ^ 6) 0 0 (-1) sample = Some (c, m') \<and>
    (if c = 0 then m' = sample \<and>
       (\<nexists>d. free_block sample (search_start 0) (search_end sample 0 0) 64 (2 ^ 6) NUMA_NO_NODE MEMBLOCK_NONE d)
     else free_block sample (search_start 0) (search_end sample 0 0) 64 (2 ^ 6) NUMA_NO_NODE MEMBLOCK_NONE c \<and>
       memblock_inv m' \<and> m' = sample\<lparr>mb_reserved := mb_reserved m'\<rparr> \<and>
       table_map Reserved m' = range_map c (c + 64) (0, MAX_NUMNODES) ++ table_map Reserved sample)"
  by (rule memblock_alloc_range_nid_correct [OF sample_inv]) (simp_all add: sample_tables)

text \<open>C25. The binary search behind the address queries terminates inside the table and agrees with
  the address maps.\<close>

theorem memblock_queries_correct:
  assumes "memblock_inv m"
  shows "memblock_is_memory addr m = Some (table_map Memory m addr \<noteq> None) \<and>
    memblock_is_reserved addr m = Some (table_map Reserved m addr \<noteq> None) \<and>
    memblock_is_map_memory addr m =
      Some (case table_map Memory m addr of None \<Rightarrow> False | Some (flags, nid) \<Rightarrow> flags AND MEMBLOCK_NOMAP = 0)"
  using is_memory [OF assms] is_reserved [OF assms] is_map_memory [OF assms] by blast

theorem memblock_queries_correct_witness:
  "memblock_is_memory 0x1234 sample = Some (table_map Memory sample 0x1234 \<noteq> None) \<and>
    memblock_is_reserved 0x1234 sample = Some (table_map Reserved sample 0x1234 \<noteq> None) \<and>
    memblock_is_map_memory 0x1234 sample =
      Some (case table_map Memory sample 0x1234 of None \<Rightarrow> False | Some (flags, nid) \<Rightarrow> flags AND MEMBLOCK_NOMAP = 0)"
  by (rule memblock_queries_correct [OF sample_inv])

subsection \<open>Limits and trimming\<close>

text \<open>C26. \<^verbatim>\<open>memblock_enforce_memory_limit\<close> cuts both tables at one address and leaves as much
  memory as the limit allows: the smaller of the limit and what there was.\<close>

theorem memblock_enforce_memory_limit_correct:
  assumes "memblock_inv m" "has_room (mb_memory m)" "has_room (mb_reserved m)" "limit \<noteq> 0"
  shows "\<exists>m' a. memblock_enforce_memory_limit limit m = Some m' \<and> memblock_inv m' \<and>
    table_map Memory m' = cut a (table_map Memory m) \<and> table_map Reserved m' = cut a (table_map Reserved m) \<and>
    unat (memblock_phys_mem_size m') = min (unat limit) (unat (memblock_phys_mem_size m))"
  by (rule enforce_limit [OF assms])

theorem memblock_enforce_memory_limit_correct_witness:
  "\<exists>m' a. memblock_enforce_memory_limit 0x2800 sample = Some m' \<and> memblock_inv m' \<and>
    table_map Memory m' = cut a (table_map Memory sample) \<and> table_map Reserved m' = cut a (table_map Reserved sample) \<and>
    unat (memblock_phys_mem_size m') = min (unat (0x2800 :: phys_addr_t)) (unat (memblock_phys_mem_size sample))"
  by (rule memblock_enforce_memory_limit_correct [OF sample_inv]) (simp_all add: has_room_def sample_tables)

text \<open>C27. \<^verbatim>\<open>memblock_trim_memory\<close> keeps an address of memory exactly if the aligned block around it
  lies inside one region, provided that no region starts in the last aligned block of the address
  space.\<close>

theorem memblock_trim_memory_correct:
  assumes "memblock_inv m" "n < 32"
    and "\<forall>r\<in>set (live (mb_memory m)). unat (rg_base r) + 2 ^ n \<le> 2 ^ 32"
  shows "\<exists>m'. memblock_trim_memory (2 ^ n) m = Some m' \<and> mb_reserved m' = mb_reserved m \<and>
    table_map Memory m' = (\<lambda>x. if \<exists>r\<in>set (live (mb_memory m)). whole_block n r x then table_map Memory m x else None)"
  by (rule trim_memory [OF assms])

theorem memblock_trim_memory_correct_witness:
  "\<exists>m'. memblock_trim_memory (2 ^ 13) sample = Some m' \<and> mb_reserved m' = mb_reserved sample \<and>
    table_map Memory m' = (\<lambda>x. if \<exists>r\<in>set (live (mb_memory sample)). whole_block 13 r x then table_map Memory sample x else None)"
  by (rule memblock_trim_memory_correct [OF sample_inv]) (simp_all add: sample_tables)

subsection \<open>Limits of trimming\<close>

text \<open>A state with one region, for the two cases in which trimming goes wrong.\<close>

definition one_region :: "phys_addr_t \<Rightarrow> phys_addr_t \<Rightarrow> memblock" where
  "one_region base sz = memblock_init\<lparr>mb_memory := \<lparr>t_cnt = 1, t_max = 4, t_total_size = sz,
     t_regions = \<lparr>rg_base = base, rg_size = sz, rg_flags = 0, rg_nid = 0\<rparr> # replicate 3 zero_region,
     t_array = Init_regions\<rparr>\<rparr>"

lemma one_region_inv:
  assumes "base < base + sz" shows "memblock_inv (one_region base sz)"
proof -
  let ?t = "mb_memory (one_region base sz)"
  have "tbl ?t [\<lparr>rg_base = base, rg_size = sz, rg_flags = 0, rg_nid = 0\<rparr>]"
    by (simp add: one_region_def tbl_def)
  then have "type_inv ?t"
    by (rule type_invI) (use assms in \<open>simp_all add: one_region_def regions_ok_def ordered_Cons rg_end_def\<close>)
  then show ?thesis using init_inv by (simp add: memblock_inv_def one_region_def)
qed



end
