(* ===== verification/Bitops.thy ===== *)
theory Bitops
  imports Prelude
begin

section \<open>Bits of machine words\<close>

text \<open>
  The bit searches of \<^verbatim>\<open>include/asm-generic/bitops\<close>, the population counts of \<^verbatim>\<open>lib/hweight.c\<close>, the
  rotations of \<^verbatim>\<open>include/linux/bitops.h\<close> and the logarithms of \<^verbatim>\<open>include/linux/log2.h\<close>.
  \<^verbatim>\<open>unsigned long\<close> has 64 bits. \<^verbatim>\<open>CONFIG_ARCH_HAS_FAST_MULTIPLIER\<close> is not defined.
\<close>

definition BITS_PER_LONG :: nat where "BITS_PER_LONG = 64"

subsection \<open>Searches\<close>

text \<open>One step of \<^verbatim>\<open>__ffs\<close>: if the low \<open>k\<close> bits are clear, skip them.\<close>

definition ffs_step :: "nat \<Rightarrow> u64 \<Rightarrow> nat \<times> u64 \<Rightarrow> nat \<times> u64" where
  "ffs_step k low = (\<lambda>(num, word). if word AND low = 0 then (num + k, drop_bit k word) else (num, word))"

definition ffs_word :: "u64 \<Rightarrow> nat" where
  "ffs_word word =
     (let s = (0, word);
          s = ffs_step 32 0xffffffff s;
          s = ffs_step 16 0xffff s;
          s = ffs_step 8 0xff s;
          s = ffs_step 4 0xf s;
          s = ffs_step 2 0x3 s;
          (num, word) = s
      in if word AND 0x1 = 0 then num + 1 else num)"

definition ffz :: "u64 \<Rightarrow> nat" where
  "ffz x = ffs_word (NOT x)"

text \<open>One step of \<^verbatim>\<open>__fls\<close>: if the high \<open>k\<close> bits are clear, shift them out.\<close>

definition fls_step :: "nat \<Rightarrow> nat \<times> u64 \<Rightarrow> nat \<times> u64" where
  "fls_step k = (\<lambda>(num, word).
     if word AND push_bit (BITS_PER_LONG - k) (NOT 0) = 0 then (num - k, push_bit k word) else (num, word))"

definition fls_word :: "u64 \<Rightarrow> nat" where
  "fls_word word =
     (let s = (BITS_PER_LONG - 1, word);
          s = fls_step 32 s;
          s = fls_step 16 s;
          s = fls_step 8 s;
          s = fls_step 4 s;
          s = fls_step 2 s;
          (num, word) = s
      in if word AND push_bit (BITS_PER_LONG - 1) (NOT 0) = 0 then num - 1 else num)"

definition fls_step32 :: "nat \<Rightarrow> u32 \<Rightarrow> u32 \<times> nat \<Rightarrow> u32 \<times> nat" where
  "fls_step32 k high = (\<lambda>(x, r). if x AND high = 0 then (push_bit k x, r - k) else (x, r))"

definition fls :: "u32 \<Rightarrow> nat" where
  "fls x =
     (if x = 0 then 0
      else let s = (x, 32);
               s = fls_step32 16 0xffff0000 s;
               s = fls_step32 8 0xff000000 s;
               s = fls_step32 4 0xf0000000 s;
               s = fls_step32 2 0xc0000000 s;
               s = fls_step32 1 0x80000000 s
           in snd s)"

definition fls64 :: "u64 \<Rightarrow> nat" where
  "fls64 x = (if x = 0 then 0 else fls_word x + 1)"

definition fls_long :: "u64 \<Rightarrow> nat" where
  "fls_long l = fls64 l"

subsection \<open>Logarithms\<close>

definition ilog2_u32 :: "u32 \<Rightarrow> int" where
  "ilog2_u32 n = int (fls n) - 1"

definition ilog2_u64 :: "u64 \<Rightarrow> int" where
  "ilog2_u64 n = int (fls64 n) - 1"

definition is_power_of_2 :: "u64 \<Rightarrow> bool" where
  "is_power_of_2 n \<longleftrightarrow> n \<noteq> 0 \<and> n AND (n - 1) = 0"

text \<open>A shift by 64 or more, for \<open>n = 0\<close> or beyond \<open>2 ^ 63\<close>, is undefined in C.\<close>

definition shift_one :: "int \<Rightarrow> u64 option" where
  "shift_one k = (if 0 \<le> k \<and> k < 64 then Some (push_bit (nat k) 1) else None)"

definition roundup_pow_of_two :: "u64 \<Rightarrow> u64 option" where
  "roundup_pow_of_two n = shift_one (int (fls_long (n - 1)))"

definition rounddown_pow_of_two :: "u64 \<Rightarrow> u64 option" where
  "rounddown_pow_of_two n = shift_one (int (fls_long n) - 1)"

subsection \<open>Population count\<close>

definition sw_hweight32 :: "u32 \<Rightarrow> u32" where
  "sw_hweight32 w =
     (let res = w - (drop_bit 1 w AND 0x55555555);
          res = (res AND 0x33333333) + (drop_bit 2 res AND 0x33333333);
          res = (res + drop_bit 4 res) AND 0x0F0F0F0F;
          res = res + drop_bit 8 res
      in (res + drop_bit 16 res) AND 0x000000FF)"

definition sw_hweight16 :: "u32 \<Rightarrow> u32" where
  "sw_hweight16 w =
     (let res = w - (drop_bit 1 w AND 0x5555);
          res = (res AND 0x3333) + (drop_bit 2 res AND 0x3333);
          res = (res + drop_bit 4 res) AND 0x0F0F
      in (res + drop_bit 8 res) AND 0x00FF)"

definition sw_hweight8 :: "u32 \<Rightarrow> u32" where
  "sw_hweight8 w =
     (let res = w - (drop_bit 1 w AND 0x55);
          res = (res AND 0x33) + (drop_bit 2 res AND 0x33)
      in (res + drop_bit 4 res) AND 0x0F)"

definition sw_hweight64 :: "u64 \<Rightarrow> u64" where
  "sw_hweight64 w =
     (let res = w - (drop_bit 1 w AND 0x5555555555555555);
          res = (res AND 0x3333333333333333) + (drop_bit 2 res AND 0x3333333333333333);
          res = (res + drop_bit 4 res) AND 0x0F0F0F0F0F0F0F0F;
          res = res + drop_bit 8 res;
          res = res + drop_bit 16 res
      in (res + drop_bit 32 res) AND 0x00000000000000FF)"

definition const_hweight8 :: "u64 \<Rightarrow> nat" where
  "const_hweight8 w = of_bool (bit w 0) + of_bool (bit w 1) + of_bool (bit w 2) + of_bool (bit w 3) +
     of_bool (bit w 4) + of_bool (bit w 5) + of_bool (bit w 6) + of_bool (bit w 7)"

definition const_hweight16 :: "u64 \<Rightarrow> nat" where
  "const_hweight16 w = const_hweight8 w + const_hweight8 (drop_bit 8 w)"

definition const_hweight32 :: "u64 \<Rightarrow> nat" where
  "const_hweight32 w = const_hweight16 w + const_hweight16 (drop_bit 16 w)"

definition const_hweight64 :: "u64 \<Rightarrow> nat" where
  "const_hweight64 w = const_hweight32 w + const_hweight32 (drop_bit 32 w)"

definition hweight_long :: "u64 \<Rightarrow> nat" where
  "hweight_long w = unat (sw_hweight64 w)"

subsection \<open>Rotations\<close>

text \<open>The shift of the second operand is computed as \<^verbatim>\<open>(-shift) & (width - 1)\<close> on an
  \<^verbatim>\<open>unsigned int\<close>.\<close>

definition neg_shift :: "nat \<Rightarrow> u32 \<Rightarrow> nat" where
  "neg_shift width shift = unat ((- shift) AND (word_of_nat width - 1))"

definition rol64 :: "u64 \<Rightarrow> u32 \<Rightarrow> u64" where
  "rol64 word shift = push_bit (unat (shift AND 63)) word OR drop_bit (neg_shift 64 shift) word"

definition ror64 :: "u64 \<Rightarrow> u32 \<Rightarrow> u64" where
  "ror64 word shift = drop_bit (unat (shift AND 63)) word OR push_bit (neg_shift 64 shift) word"

text \<open>\<^verbatim>\<open>rol32\<close> does not mask its shift: a shift of 32 or more is undefined in C.\<close>

definition rol32 :: "u32 \<Rightarrow> u32 \<Rightarrow> u32 option" where
  "rol32 word shift =
     (if shift < 32 then Some (push_bit (unat shift) word OR drop_bit (neg_shift 32 shift) word) else None)"

definition ror32 :: "u32 \<Rightarrow> u32 \<Rightarrow> u32" where
  "ror32 word shift = drop_bit (unat (shift AND 31)) word OR push_bit (neg_shift 32 shift) word"

definition rol16 :: "u16 \<Rightarrow> u32 \<Rightarrow> u16" where
  "rol16 word shift = push_bit (unat (shift AND 15)) word OR drop_bit (neg_shift 16 shift) word"

definition ror16 :: "u16 \<Rightarrow> u32 \<Rightarrow> u16" where
  "ror16 word shift = drop_bit (unat (shift AND 15)) word OR push_bit (neg_shift 16 shift) word"

definition rol8 :: "u8 \<Rightarrow> u32 \<Rightarrow> u8" where
  "rol8 word shift = push_bit (unat (shift AND 7)) word OR drop_bit (neg_shift 8 shift) word"

definition ror8 :: "u8 \<Rightarrow> u32 \<Rightarrow> u8" where
  "ror8 word shift = drop_bit (unat (shift AND 7)) word OR push_bit (neg_shift 8 shift) word"

end
