(* ===== verification/Memblock_Free.thy ===== *)
theory Memblock_Free
  imports Memblock Bitops
begin

section \<open>Convenience allocators and the hand-over of free pages\<close>

text \<open>
  The inline wrappers of \<^verbatim>\<open>include/linux/memblock.h\<close> and the end of \<^verbatim>\<open>mm/memblock.c\<close>: the routines
  that walk over the free memory at the end of boot, split it into buddy blocks and count its pages.
\<close>

subsection \<open>Wrappers\<close>

definition MEMBLOCK_LOW_LIMIT :: phys_addr_t where "MEMBLOCK_LOW_LIMIT = 0"
definition ARCH_LOW_ADDRESS_LIMIT :: phys_addr_t where "ARCH_LOW_ADDRESS_LIMIT = 0xffffffff"

definition memblock_phys_alloc ::
  "phys_addr_t \<Rightarrow> phys_addr_t \<Rightarrow> memblock \<Rightarrow> (phys_addr_t \<times> memblock) option" where
  "memblock_phys_alloc sz align m = memblock_phys_alloc_range sz align 0 MEMBLOCK_ALLOC_ACCESSIBLE m"

definition memblock_alloc ::
  "bool \<Rightarrow> (phys_addr_t \<Rightarrow> int \<Rightarrow> u64) \<Rightarrow> phys_addr_t \<Rightarrow> phys_addr_t \<Rightarrow> memblock \<Rightarrow> (u64 \<times> memblock) option" where
  "memblock_alloc slab kz sz align m =
     memblock_alloc_try_nid slab kz sz align MEMBLOCK_LOW_LIMIT MEMBLOCK_ALLOC_ACCESSIBLE NUMA_NO_NODE m"

definition memblock_alloc_raw ::
  "bool \<Rightarrow> (phys_addr_t \<Rightarrow> int \<Rightarrow> u64) \<Rightarrow> phys_addr_t \<Rightarrow> phys_addr_t \<Rightarrow> memblock \<Rightarrow> (u64 \<times> memblock) option" where
  "memblock_alloc_raw slab kz sz align m =
     memblock_alloc_try_nid_raw slab kz sz align MEMBLOCK_LOW_LIMIT MEMBLOCK_ALLOC_ACCESSIBLE NUMA_NO_NODE m"

definition memblock_alloc_from ::
  "bool \<Rightarrow> (phys_addr_t \<Rightarrow> int \<Rightarrow> u64) \<Rightarrow> phys_addr_t \<Rightarrow> phys_addr_t \<Rightarrow> phys_addr_t \<Rightarrow> memblock
     \<Rightarrow> (u64 \<times> memblock) option" where
  "memblock_alloc_from slab kz sz align min_addr m =
     memblock_alloc_try_nid slab kz sz align min_addr MEMBLOCK_ALLOC_ACCESSIBLE NUMA_NO_NODE m"

definition memblock_alloc_low ::
  "bool \<Rightarrow> (phys_addr_t \<Rightarrow> int \<Rightarrow> u64) \<Rightarrow> phys_addr_t \<Rightarrow> phys_addr_t \<Rightarrow> memblock \<Rightarrow> (u64 \<times> memblock) option" where
  "memblock_alloc_low slab kz sz align m =
     memblock_alloc_try_nid slab kz sz align MEMBLOCK_LOW_LIMIT ARCH_LOW_ADDRESS_LIMIT NUMA_NO_NODE m"

definition memblock_alloc_node ::
  "bool \<Rightarrow> (phys_addr_t \<Rightarrow> int \<Rightarrow> u64) \<Rightarrow> phys_addr_t \<Rightarrow> phys_addr_t \<Rightarrow> int \<Rightarrow> memblock \<Rightarrow> (u64 \<times> memblock) option" where
  "memblock_alloc_node slab kz sz align nid m =
     memblock_alloc_try_nid slab kz sz align MEMBLOCK_LOW_LIMIT MEMBLOCK_ALLOC_ACCESSIBLE nid m"

definition memblock_free_early :: "phys_addr_t \<Rightarrow> phys_addr_t \<Rightarrow> memblock \<Rightarrow> (int \<times> memblock) option" where
  "memblock_free_early base sz m = memblock_free base sz m"

definition memblock_free_early_nid ::
  "phys_addr_t \<Rightarrow> phys_addr_t \<Rightarrow> int \<Rightarrow> memblock \<Rightarrow> (int \<times> memblock) option" where
  "memblock_free_early_nid base sz nid m = memblock_free base sz m"

subsection \<open>Free pages\<close>

text \<open>
  The inner loop lowers the order until the block fits; below order 0 the shift is undefined. The
  call that would hand the block to the page allocator is commented out in the source: the
  model returns its arguments, the first page frame and the order of every block.
\<close>

definition MAX_ORDER :: nat where "MAX_ORDER = 11"

primrec free_pages_order :: "u64 \<Rightarrow> u64 \<Rightarrow> nat \<Rightarrow> nat option" where
  "free_pages_order start end 0 = (if start + 1 > end then None else Some 0)"
| "free_pages_order start end (Suc order) =
     (if start + push_bit (Suc order) 1 > end then free_pages_order start end order else Some (Suc order))"

partial_function (option) free_pages_memory :: "u64 \<Rightarrow> u64 \<Rightarrow> (u64 \<times> nat) list option" where
  "free_pages_memory start end =
     (if start < end then do {
        order \<leftarrow> free_pages_order start end (min (MAX_ORDER - 1) (ffs_word start));
        rest \<leftarrow> free_pages_memory (start + push_bit order 1) end;
        Some ((start, order) # rest) }
      else Some [])"

declare free_pages_memory.simps [code]

definition free_memory_core :: "u64 \<Rightarrow> phys_addr_t \<Rightarrow> phys_addr_t \<Rightarrow> u64 option" where
  "free_memory_core max_low_pfn start end = do {
     let start_pfn = PFN_UP start;
     let end_pfn = min (PFN_DOWN end) max_low_pfn;
     if start_pfn \<ge> end_pfn then Some 0
     else do {
       _ \<leftarrow> free_pages_memory start_pfn end_pfn;
       Some (end_pfn - start_pfn) } }"

definition add_free_range :: "u64 \<Rightarrow> u64 option \<Rightarrow> phys_addr_t \<Rightarrow> phys_addr_t \<Rightarrow> unit + u64 option" where
  "add_free_range max_low_pfn count start end =
     Inr (do { c \<leftarrow> count; n \<leftarrow> free_memory_core max_low_pfn start end; Some (c + n) })"

definition free_low_memory_core_early :: "memblock \<Rightarrow> (u64 \<times> memblock) option" where
  "free_low_memory_core_early m = do {
     (_, m) \<leftarrow> memblock_clear_hotplug 0 (- 1) m;
     res \<leftarrow> for_each_range (range_fuel m)
       (next_mem_range NUMA_NO_NODE MEMBLOCK_NONE (mb_memory m) (Some (mb_reserved m)))
       (add_free_range (mb_max_low_pfn m)) (Some 0) 0;
     case res of Inl _ \<Rightarrow> None | Inr count \<Rightarrow> do { c \<leftarrow> count; Some (c, m) } }"

text \<open>The static flag \<^verbatim>\<open>reset_managed_pages_done\<close>; the reset itself is commented out.\<close>

definition reset_all_zones_managed_pages :: "bool \<Rightarrow> bool" where
  "reset_all_zones_managed_pages reset_managed_pages_done =
     (if reset_managed_pages_done then reset_managed_pages_done else True)"

definition memblock_free_all :: "bool \<Rightarrow> memblock \<Rightarrow> (u64 \<times> bool \<times> memblock) option" where
  "memblock_free_all reset_managed_pages_done m = do {
     let reset_managed_pages_done = reset_all_zones_managed_pages reset_managed_pages_done;
     (pages, m) \<leftarrow> free_low_memory_core_early m;
     Some (pages, reset_managed_pages_done, m) }"

end
