(* ===== verification/Bitops_Correct.thy ===== *)
theory Bitops_Correct
  imports Bitops
begin

section \<open>Correctness of the bit operations\<close>

text \<open>
  The searches find the lowest and the highest set bit, the logarithms and powers of two follow
  from them, the parallel population counts agree with counting the bits one by one, and
  the rotations are inverse to each other.
\<close>

subsection \<open>The lowest set bit\<close>

definition lowest :: "'a::len word \<Rightarrow> nat \<Rightarrow> bool" where
  "lowest w n \<longleftrightarrow> bit w n \<and> (\<forall>i<n. \<not> bit w i)"

definition highest :: "'a::len word \<Rightarrow> nat \<Rightarrow> bool" where
  "highest w n \<longleftrightarrow> bit w n \<and> (\<forall>i>n. \<not> bit w i)"

lemma lowest_ex: "w \<noteq> 0 \<Longrightarrow> \<exists>n<LENGTH('a). lowest (w :: 'a::len word) n"
proof -
  assume "w \<noteq> 0"
  then obtain k where k: "bit w k" by (auto simp: bit_eq_iff)
  let ?n = "LEAST i. bit w i"
  have "bit w ?n" using k by (rule LeastI)
  moreover have "?n < LENGTH('a)" using calculation by (rule bit_imp_le_length)
  ultimately show ?thesis unfolding lowest_def using not_less_Least by blast
qed

lemma lowest_unique: "lowest w m \<Longrightarrow> lowest w n \<Longrightarrow> m = n"
  unfolding lowest_def by (meson linorder_neqE_nat)

lemma highest_unique: "highest w m \<Longrightarrow> highest w n \<Longrightarrow> m = n"
  unfolding highest_def by (meson linorder_neqE_nat)

lemma highest_ex: "w \<noteq> 0 \<Longrightarrow> \<exists>n<LENGTH('a). highest (w :: 'a::len word) n"
proof -
  assume "w \<noteq> 0"
  then have ne: "{i. bit w i} \<noteq> {}" by (auto simp: bit_eq_iff)
  have fin: "finite {i. bit w i}" by (rule finite_subset [of _ "{..<LENGTH('a)}"]) (auto dest: bit_imp_le_length)
  let ?n = "Max {i. bit w i}"
  have b: "bit w ?n" using Max_in [OF fin ne] by simp
  then have "?n < LENGTH('a)" by (rule bit_imp_le_length)
  moreover have "\<not> bit w i" if "?n < i" for i
    using Max_ge [OF fin, of i] that by (auto simp: not_le [symmetric])
  ultimately show ?thesis unfolding highest_def using b by blast
qed

text \<open>The state of \<^verbatim>\<open>__ffs\<close> before the step for \<open>k\<close> bits: the lowest set bit of the remaining word is
  among the low \<open>2 * k\<close> bits.\<close>

definition ffs_inv :: "u64 \<Rightarrow> nat \<Rightarrow> nat \<times> u64 \<Rightarrow> bool" where
  "ffs_inv w k = (\<lambda>(num, v). \<exists>n<k. lowest v n \<and> lowest w (num + n))"

lemma and_mask_zero: "(v :: 'a::len word) AND mask k = 0 \<longleftrightarrow> (\<forall>i<k. \<not> bit v i)"
  by (auto simp: bit_eq_iff bit_simps dest: bit_imp_le_length)

lemma ffs_step:
  assumes "ffs_inv w (k + k) s" "low = mask k" "k \<le> 32"
  shows "ffs_inv w k (ffs_step k low s)"
proof -
  obtain num v n where s: "s = (num, v)" and n: "n < k + k" "lowest v n" "lowest w (num + n)"
    using assms(1) by (cases s) (auto simp: ffs_inv_def)
  show ?thesis
  proof (cases "v AND low = 0")
    case True
    then have "k \<le> n" using n(2) unfolding assms(2) and_mask_zero lowest_def by (meson not_le)
    moreover have "lowest (drop_bit k v) (n - k)"
      using n(2) \<open>k \<le> n\<close> by (auto simp: lowest_def bit_simps)
    ultimately show ?thesis
      using n True unfolding s ffs_step_def ffs_inv_def by (auto intro!: exI [of _ "n - k"])
  next
    case False
    then obtain i where "i < k" "bit v i" unfolding assms(2) and_mask_zero by auto
    then have "n < k" using n(2) unfolding lowest_def by (meson le_less_trans not_le)
    with n False show ?thesis unfolding s ffs_step_def ffs_inv_def by auto
  qed
qed

lemma masks64: "(0xffffffff :: u64) = mask 32" "(0xffff :: u64) = mask 16" "(0xff :: u64) = mask 8"
  "(0xf :: u64) = mask 4" "(0x3 :: u64) = mask 2"
  by (simp_all add: mask_eq_exp_minus_1)

lemma ffs_word_lowest:
  assumes "word \<noteq> 0" shows "lowest word (ffs_word word)"
proof -
  have "ffs_inv word (32 + 32) (0, word)" using lowest_ex [OF assms] by (auto simp: ffs_inv_def)
  from ffs_step [OF this, of "0xffffffff"] have 1: "ffs_inv word (16 + 16) (ffs_step 32 0xffffffff (0, word))"
    by (simp add: masks64)
  from ffs_step [OF this, of "0xffff"] have 2: "ffs_inv word (8 + 8) (ffs_step 16 0xffff (ffs_step 32 0xffffffff (0, word)))"
    by (simp add: masks64)
  from ffs_step [OF this, of "0xff"] have 3: "ffs_inv word (4 + 4) (ffs_step 8 0xff (ffs_step 16 0xffff (ffs_step 32 0xffffffff (0, word))))"
    by (simp add: masks64)
  from ffs_step [OF this, of "0xf"] have 4: "ffs_inv word (2 + 2) (ffs_step 4 0xf (ffs_step 8 0xff (ffs_step 16 0xffff (ffs_step 32 0xffffffff (0, word)))))"
    by (simp add: masks64)
  from ffs_step [OF this, of "0x3"] have 5: "ffs_inv word (1 + 1) (ffs_step 2 0x3 (ffs_step 4 0xf (ffs_step 8 0xff (ffs_step 16 0xffff (ffs_step 32 0xffffffff (0, word))))))"
    by (simp add: masks64 numeral_2_eq_2)
  obtain num v where s: "ffs_step 2 0x3 (ffs_step 4 0xf (ffs_step 8 0xff (ffs_step 16 0xffff (ffs_step 32 0xffffffff (0, word))))) = (num, v)"
    by fastforce
  from ffs_step [OF 5, of 1] have "ffs_inv word 1 (ffs_step 1 1 (num, v))" unfolding s by simp
  moreover have "ffs_word word = fst (ffs_step 1 1 (num, v))"
    unfolding ffs_word_def Let_def s by (simp add: ffs_step_def)
  ultimately show ?thesis by (cases "ffs_step 1 1 (num, v)") (auto simp: ffs_inv_def)
qed

lemma ffz_lowest: "word \<noteq> NOT 0 \<Longrightarrow> lowest (NOT word) (ffz word)"
  unfolding ffz_def by (rule ffs_word_lowest) (metis bit.double_compl)

subsection \<open>The highest set bit\<close>

lemma fls_mask_zero:
  assumes "k \<le> LENGTH('a)"
  shows "(v :: 'a::len word) AND push_bit (LENGTH('a) - k) (NOT 0) = 0 \<longleftrightarrow> (\<forall>i\<ge>LENGTH('a) - k. \<not> bit v i)"
  by (auto simp: bit_eq_iff bit_simps not_less [symmetric] dest: bit_imp_le_length)

definition fls_inv :: "u64 \<Rightarrow> nat \<Rightarrow> nat \<times> u64 \<Rightarrow> bool" where
  "fls_inv w k = (\<lambda>(num, v). \<exists>d<k. highest v (63 - d) \<and> d \<le> num \<and> highest w (num - d))"

lemma highest_push:
  assumes "highest (v :: u64) n" "n + k < 64" shows "highest (push_bit k v) (n + k)"
  using assms by (auto simp: highest_def bit_simps)

lemma fls_step:
  assumes "fls_inv w (k + k) s" "k \<le> 32" "0 < k"
  shows "fls_inv w k (fls_step k s)"
proof -
  obtain num v d where s: "s = (num, v)" and d: "d < k + k" "highest v (63 - d)" "d \<le> num" "highest w (num - d)"
    using assms(1) by (cases s) (auto simp: fls_inv_def)
  have z: "v AND push_bit (BITS_PER_LONG - k) (NOT 0) = 0 \<longleftrightarrow> (\<forall>i\<ge>64 - k. \<not> bit v i)"
    using fls_mask_zero [of k v] assms(2) by (simp add: BITS_PER_LONG_def)
  show ?thesis
  proof (cases "v AND push_bit (BITS_PER_LONG - k) (NOT 0) = 0")
    case True
    have "\<not> bit v i" if "64 - k \<le> i" for i using True that unfolding z by blast
    moreover have "bit v (63 - d)" using d(2) by (simp add: highest_def)
    ultimately have "\<not> 64 - k \<le> 63 - d" by blast
    then have "k \<le> d" using assms(3) by linarith
    have "highest (push_bit k v) (63 - (d - k))"
      using highest_push [OF d(2), of k] \<open>k \<le> d\<close> d(1) assms(2) by simp
    with d True \<open>k \<le> d\<close> show ?thesis
      unfolding s fls_step_def fls_inv_def by (auto intro!: exI [of _ "d - k"])
  next
    case False
    then obtain i where i: "64 - k \<le> i" "bit v i" unfolding z by auto
    then have "i \<le> 63 - d" using d(2) unfolding highest_def by (meson not_le)
    with i d(1) assms have "d < k" by linarith
    with d False show ?thesis unfolding s fls_step_def fls_inv_def by auto
  qed
qed

lemma fls_word_highest:
  assumes "word \<noteq> 0" shows "highest word (fls_word word)"
proof -
  obtain n where n: "n < 64" "highest word n" using highest_ex [OF assms] by auto
  then have "fls_inv word (32 + 32) (63, word)" by (auto simp: fls_inv_def intro!: exI [of _ "63 - n"])
  from fls_step [OF this] have 1: "fls_inv word (16 + 16) (fls_step 32 (63, word))" by simp
  from fls_step [OF this] have 2: "fls_inv word (8 + 8) (fls_step 16 (fls_step 32 (63, word)))" by simp
  from fls_step [OF this] have 3: "fls_inv word (4 + 4) (fls_step 8 (fls_step 16 (fls_step 32 (63, word))))" by simp
  from fls_step [OF this] have 4: "fls_inv word (2 + 2) (fls_step 4 (fls_step 8 (fls_step 16 (fls_step 32 (63, word)))))" by simp
  from fls_step [OF this] have 5: "fls_inv word (1 + 1) (fls_step 2 (fls_step 4 (fls_step 8 (fls_step 16 (fls_step 32 (63, word))))))"
    by (simp add: numeral_2_eq_2)
  obtain num v where s: "fls_step 2 (fls_step 4 (fls_step 8 (fls_step 16 (fls_step 32 (63, word))))) = (num, v)"
    by fastforce
  from fls_step [OF 5] have "fls_inv word 1 (fls_step 1 (num, v))" unfolding s by simp
  moreover have "fls_word word = fst (fls_step 1 (num, v))"
    using s unfolding fls_word_def Let_def by (simp add: BITS_PER_LONG_def) (simp add: fls_step_def BITS_PER_LONG_def)
  ultimately show ?thesis by (cases "fls_step 1 (num, v)") (auto simp: fls_inv_def)
qed

text \<open>The 32-bit search, whose result counts from 1.\<close>

definition fls_inv32 :: "u32 \<Rightarrow> nat \<Rightarrow> u32 \<times> nat \<Rightarrow> bool" where
  "fls_inv32 w k = (\<lambda>(v, r). \<exists>d<k. highest v (31 - d) \<and> d < r \<and> highest w (r - d - 1))"

lemma fls_step32:
  assumes "fls_inv32 w (k + k) s" "k \<le> 16" "0 < k" "high = push_bit (32 - k) (NOT 0)"
  shows "fls_inv32 w k (fls_step32 k high s)"
proof -
  obtain r v d where s: "s = (v, r)" and d: "d < k + k" "highest v (31 - d)" "d < r" "highest w (r - d - 1)"
    using assms(1) by (cases s) (auto simp: fls_inv32_def)
  have z: "v AND high = 0 \<longleftrightarrow> (\<forall>i\<ge>32 - k. \<not> bit v i)"
    using fls_mask_zero [of k v] assms(2,4) by simp
  show ?thesis
  proof (cases "v AND high = 0")
    case True
    have "\<not> bit v i" if "32 - k \<le> i" for i using True that unfolding z by blast
    moreover have "bit v (31 - d)" using d(2) by (simp add: highest_def)
    ultimately have "\<not> 32 - k \<le> 31 - d" by blast
    then have "k \<le> d" using assms(3) by linarith
    have "highest (push_bit k v) (31 - (d - k))"
      using d(1,2) \<open>k \<le> d\<close> assms(2) by (auto simp: highest_def bit_simps)
    with d True \<open>k \<le> d\<close> show ?thesis
      unfolding s fls_step32_def fls_inv32_def by (auto intro!: exI [of _ "d - k"])
  next
    case False
    then obtain i where i: "32 - k \<le> i" "bit v i" unfolding z by auto
    then have "i \<le> 31 - d" using d(2) unfolding highest_def by (meson not_le)
    with i d(1) assms have "d < k" by linarith
    with d False show ?thesis unfolding s fls_step32_def fls_inv32_def by auto
  qed
qed

lemma masks32: "(NOT (mask 16) :: u32) = 0xffff0000" "(NOT (mask 24) :: u32) = 0xff000000"
  "(NOT (mask 28) :: u32) = 0xf0000000" "(NOT (mask 30) :: u32) = 0xc0000000" "(NOT (mask 31) :: u32) = 0x80000000"
  by (simp_all add: mask_eq_exp_minus_1)

lemma fls_highest:
  assumes "x \<noteq> 0" shows "0 < fls x \<and> highest x (fls x - 1)"
proof -
  obtain n where n: "n < 32" "highest x n" using highest_ex [OF assms] by auto
  then have 0: "fls_inv32 x (16 + 16) (x, 32)" by (auto simp: fls_inv32_def intro!: exI [of _ "31 - n"])
  have 1: "fls_inv32 x (8 + 8) (fls_step32 16 0xffff0000 (x, 32))" using fls_step32 [OF 0, of "0xffff0000"] by (simp add: masks32)
  have 2: "fls_inv32 x (4 + 4) (fls_step32 8 0xff000000 (fls_step32 16 0xffff0000 (x, 32)))"
    using fls_step32 [OF 1, of "0xff000000"] by (simp add: masks32)
  have 3: "fls_inv32 x (2 + 2) (fls_step32 4 0xf0000000 (fls_step32 8 0xff000000 (fls_step32 16 0xffff0000 (x, 32))))"
    using fls_step32 [OF 2, of "0xf0000000"] by (simp add: masks32)
  have 4: "fls_inv32 x (1 + 1) (fls_step32 2 0xc0000000 (fls_step32 4 0xf0000000 (fls_step32 8 0xff000000 (fls_step32 16 0xffff0000 (x, 32)))))"
    using fls_step32 [OF 3, of "0xc0000000"] by (simp add: masks32) (simp add: numeral_2_eq_2)
  have 5: "fls_inv32 x 1 (fls_step32 1 0x80000000 (fls_step32 2 0xc0000000 (fls_step32 4 0xf0000000 (fls_step32 8 0xff000000 (fls_step32 16 0xffff0000 (x, 32))))))"
    using fls_step32 [OF 4, of "0x80000000"] by (simp add: masks32)
  then show ?thesis using assms unfolding fls_def Let_def by (auto simp: fls_inv32_def)
qed

subsection \<open>Logarithms and powers of two\<close>

lemma highest_bounds:
  assumes "highest (w :: 'a::len word) n" shows "2 ^ n \<le> unat w \<and> unat w < 2 ^ (n + 1)"
proof
  have b: "bit (unat w) n" "\<forall>i>n. \<not> bit (unat w) i" using assms by (auto simp: highest_def bit_unsigned_iff)
  show "2 ^ n \<le> unat w"
  proof (rule ccontr)
    assume "\<not> 2 ^ n \<le> unat w"
    then have "unat w div 2 ^ n = 0" by simp
    with b(1) show False by (simp add: bit_iff_odd)
  qed
  have "take_bit (n + 1) (unat w) = unat w"
    using b(2) by (intro bit_eqI) (auto simp: bit_take_bit_iff not_less_eq [symmetric])
  then show "unat w < 2 ^ (n + 1)" by (simp only: take_bit_nat_eq_self_iff)
qed

lemma fls64_bounds: "x \<noteq> 0 \<Longrightarrow> 2 ^ (fls64 x - 1) \<le> unat x \<and> unat x < 2 ^ fls64 x \<and> fls64 x \<le> 64 \<and> 0 < fls64 x"
  using highest_bounds [OF fls_word_highest [of x]] fls_word_highest [of x]
  by (auto simp: fls64_def highest_def dest: bit_imp_le_length)

lemma fls_bounds: "x \<noteq> 0 \<Longrightarrow> 2 ^ (fls x - 1) \<le> unat x \<and> unat x < 2 ^ fls x \<and> 0 < fls x"
  using highest_bounds [of x "fls x - 1"] fls_highest [of x] by auto

lemma unat_push_one: "k < 64 \<Longrightarrow> unat (push_bit k 1 :: u64) = 2 ^ k"
proof -
  assume k: "k < 64"
  have "(2 :: nat) ^ k < 2 ^ 64" using k by (rule power_strict_increasing) simp
  then show ?thesis by (subst unsigned_push_bit_eq) (simp add: push_bit_eq_mult take_bit_nat_eq_self k)
qed

lemma shift_one_pow: "k < 64 \<Longrightarrow> \<exists>p. shift_one (int k) = Some p \<and> unat p = 2 ^ k"
  using unat_push_one [of k] by (simp add: shift_one_def del: push_bit_of_1)

lemma rounddown_ok:
  assumes "n \<noteq> 0"
  shows "\<exists>p k. rounddown_pow_of_two n = Some p \<and> unat p = 2 ^ k \<and> unat p \<le> unat n \<and> unat n < 2 * unat p"
proof -
  note b = fls64_bounds [OF assms]
  have "int (fls_long n) - 1 = int (fls64 n - 1)" using b by (simp add: fls_long_def of_nat_diff)
  moreover from shift_one_pow [of "fls64 n - 1"] b obtain p where
    "shift_one (int (fls64 n - 1)) = Some p" "unat p = 2 ^ (fls64 n - 1)"
    by (metis diff_less less_le_trans zero_less_one)
  moreover have "2 * 2 ^ (fls64 n - 1) = (2 :: nat) ^ fls64 n" using b by (metis power_eq_if neq0_conv)
  ultimately show ?thesis using b unfolding rounddown_pow_of_two_def by metis
qed

lemma roundup_ok:
  assumes "n \<noteq> 0" "unat n \<le> 2 ^ 63"
  shows "\<exists>p k. roundup_pow_of_two n = Some p \<and> unat p = 2 ^ k \<and> unat n \<le> unat p \<and> unat p < 2 * unat n"
proof -
  have m: "unat (n - 1) = unat n - 1" "0 < unat n" using assms(1) by (simp_all add: unat_minus_one unat_gt_0)
  show ?thesis
  proof (cases "n - 1 = 0")
    case True
    then have "n = 1" by simp
    then show ?thesis
      by (auto simp: roundup_pow_of_two_def fls_long_def fls64_def shift_one_def intro: exI [of _ 0])
  next
    case False
    note b = fls64_bounds [OF False]
    have "fls64 (n - 1) < 64"
    proof (rule ccontr)
      assume "\<not> fls64 (n - 1) < 64"
      then have "fls64 (n - 1) - 1 = 63" using b by linarith
      then have "2 ^ 63 \<le> unat (n - 1)" using b by metis
      with m assms(2) show False by linarith
    qed
    from shift_one_pow [OF this] obtain p where
      p: "shift_one (int (fls64 (n - 1))) = Some p" "unat p = 2 ^ fls64 (n - 1)" by auto
    have "2 * 2 ^ (fls64 (n - 1) - 1) = (2 :: nat) ^ fls64 (n - 1)" using b by (metis power_eq_if neq0_conv)
    with b m p(2) have "unat p < 2 * unat n" "unat n \<le> unat p" by linarith+
    with p show ?thesis by (auto simp: roundup_pow_of_two_def fls_long_def)
  qed
qed

lemma unat_pow2_64: "k < 64 \<Longrightarrow> unat (2 ^ k :: u64) = 2 ^ k"
  using unat_push_one [of k] by (simp only: push_bit_eq_mult mult_1)

lemma pow2_range_unique:
  fixes x :: nat
  assumes "2 ^ j \<le> x" "x < 2 ^ (j + 1)" "2 ^ h \<le> x" "x < 2 ^ (h + 1)" shows "j = h"
proof -
  have "(2 :: nat) ^ j < 2 ^ (h + 1)" "(2 :: nat) ^ h < 2 ^ (j + 1)" using assms by linarith+
  then have "j < h + 1" "h < j + 1" by (metis one_less_numeral_iff power_less_imp_less_exp semiring_norm(76))+
  then show ?thesis by simp
qed

lemma is_power_of_2_iff: "is_power_of_2 n \<longleftrightarrow> (\<exists>k<64. n = 2 ^ k)"
proof
  assume p: "is_power_of_2 n"
  then have "n \<noteq> 0" by (simp add: is_power_of_2_def)
  then obtain h where h: "h < 64" "highest n h" using highest_ex [of n] by auto
  note b = highest_bounds [OF h(2)]
  have "unat n = 2 ^ h"
  proof (rule ccontr)
    assume "unat n \<noteq> 2 ^ h"
    then have ge: "2 ^ h \<le> unat (n - 1)" "unat (n - 1) < 2 ^ (h + 1)"
      unfolding unat_minus_one [OF \<open>n \<noteq> 0\<close>] using b by linarith+
    then have "n - 1 \<noteq> 0" by auto
    then obtain j where "highest (n - 1) j" using highest_ex [of "n - 1"] by auto
    moreover have "j = h"
      using pow2_range_unique [OF _ _ ge] highest_bounds [OF \<open>highest (n - 1) j\<close>] by blast
    ultimately have "bit (n AND (n - 1)) h" using h(2) by (simp add: highest_def bit_and_iff)
    with p show False by (simp add: is_power_of_2_def)
  qed
  then have "n = 2 ^ h" using unat_pow2_64 [OF h(1)] by (simp add: word_unat_eq_iff)
  with h(1) show "\<exists>k<64. n = 2 ^ k" by blast
next
  assume "\<exists>k<64. n = 2 ^ k"
  then obtain k where k: "k < 64" "n = 2 ^ k" by blast
  have "n \<noteq> 0" using k by simp
  moreover have "n AND (n - 1) = 0"
    unfolding k(2) mask_eq_exp_minus_1 [symmetric] by (rule bit_eqI) (auto simp: bit_simps)
  ultimately show "is_power_of_2 n" by (simp add: is_power_of_2_def)
qed

subsection \<open>Population count\<close>

text \<open>Numbers as lists of digits to the base \<open>2 ^ k\<close>, lowest digit first.\<close>

fun val :: "nat \<Rightarrow> nat list \<Rightarrow> nat" where
  "val k [] = 0"
| "val k (d # ds) = d + 2 ^ k * val k ds"

definition digits :: "nat \<Rightarrow> nat list \<Rightarrow> bool" where
  "digits k ds \<longleftrightarrow> (\<forall>d\<in>set ds. d < 2 ^ k)"

lemma val_zeros [simp]: "val k (replicate n 0) = 0"
  by (induction n) auto

lemma val_append_zeros: "val k (ds @ replicate n 0) = val k ds"
  by (induction ds) auto

lemma val_add: "length xs = length ys \<Longrightarrow> val k xs + val k ys = val k (map2 (+) xs ys)"
proof (induction xs ys rule: list_induct2)
  case (Cons x xs y ys)
  then show ?case by (simp add: distrib_left flip: Cons.IH)
qed simp

lemma val_diff:
  assumes "list_all2 (\<le>) ys xs" shows "val k ys \<le> val k xs \<and> val k xs - val k ys = val k (map2 (-) xs ys)"
  using assms
proof (induction rule: list_all2_induct)
  case (Cons y ys x xs)
  have "2 ^ k * val k ys \<le> 2 ^ k * val k xs" using Cons by simp
  moreover have "2 ^ k * (val k xs - val k ys) = 2 ^ k * val k xs - 2 ^ k * val k ys" by (rule diff_mult_distrib2)
  ultimately show ?case using Cons by (auto intro: add_mono)
qed simp

lemma digit_split:
  assumes "d < 2 ^ k" shows "bit (d + 2 ^ k * v :: nat) i = (if i < k then bit d i else bit v (i - k))"
proof -
  have nd: "\<not> bit d i" if "k \<le> i" for i
    using assms that by (metis bit_take_bit_iff linorder_not_le take_bit_nat_eq_self)
  have "d + 2 ^ k * v = push_bit k v OR d"
  proof -
    have "push_bit k v AND d = 0"
      using nd by (intro bit_eqI) (auto simp: bit_simps)
    then show ?thesis by (simp add: disjunctive_add_eq_or [symmetric] push_bit_eq_mult mult.commute)
  qed
  then show ?thesis using nd by (auto simp: bit_or_iff bit_push_bit_iff_nat)
qed

lemma val_and:
  assumes "length xs = length ys" "digits k xs" "digits k ys"
  shows "val k xs AND val k ys = val k (map2 (AND) xs ys)"
  using assms
proof (induction xs ys rule: list_induct2)
  case (Cons x xs y ys)
  have xy: "x < 2 ^ k" "y < 2 ^ k" using Cons.prems by (auto simp: digits_def)
  have "take_bit k (x AND y) = x AND y" using xy by (simp add: take_bit_nat_eq_self)
  then have a: "x AND y < 2 ^ k" by (metis take_bit_nat_less_exp)
  have IH: "val k xs AND val k ys = val k (map2 (AND) xs ys)" using Cons by (auto simp: digits_def)
  show ?case
    by (rule bit_eqI) (simp add: bit_and_iff digit_split [OF xy(1)] digit_split [OF xy(2)] digit_split [OF a] IH [symmetric])
qed simp

lemma val_bound: "digits k ds \<Longrightarrow> val k ds < 2 ^ (k * length ds)"
proof (induction ds)
  case (Cons d ds)
  then have "d < 2 ^ k" "val k ds + 1 \<le> 2 ^ (k * length ds)" by (auto simp: digits_def)
  then have "d + 2 ^ k * val k ds < 2 ^ k * (val k ds + 1)" by simp
  also have "\<dots> \<le> 2 ^ k * 2 ^ (k * length ds)"
    using \<open>val k ds + 1 \<le> _\<close> by (rule mult_le_mono2)
  finally show ?case by (simp add: power_add)
qed simp

lemma val_drop: "digits k ds \<Longrightarrow> drop_bit (j * k) (val k ds) = val k (drop j ds)"
proof (induction j arbitrary: ds)
  case (Suc j)
  show ?case
  proof (cases ds)
    case (Cons d r)
    then have "d < 2 ^ k" "digits k r" using Suc.prems by (auto simp: digits_def)
    moreover from this have "drop_bit k (d + 2 ^ k * val k r) = val k r"
      by (simp add: drop_bit_eq_div)
    ultimately show ?thesis using Cons Suc.IH [of r]
      by (metis add.commute drop_Suc_Cons drop_bit_drop_bit mult_Suc val.simps(2))
  qed simp
qed simp

fun pairs :: "nat \<Rightarrow> nat list \<Rightarrow> nat list" where
  "pairs k (a # b # ds) = (a + 2 ^ k * b) # pairs k ds"
| "pairs k [] = []"
| "pairs k [a] = [a]"

fun evens :: "nat list \<Rightarrow> nat list" where
  "evens (a # b # ds) = a # evens ds"
| "evens ds = ds"

fun sums :: "nat list \<Rightarrow> nat list" where
  "sums (a # b # ds) = (a + b) # sums ds"
| "sums ds = ds"

lemma val_pairs: "val (2 * k) (pairs k ds) = val k ds"
  by (induction k ds rule: pairs.induct) (auto simp: algebra_simps mult_2_right power_add)

lemma digits_pairs: "digits k ds \<Longrightarrow> digits (2 * k) (pairs k ds)"
proof (induction k ds rule: pairs.induct)
  case (1 k a b ds)
  then have "a < 2 ^ k" "b + 1 \<le> 2 ^ k" by (auto simp: digits_def)
  then have "a + 2 ^ k * b < 2 ^ k * (b + 1)" by simp
  also have "\<dots> \<le> 2 ^ k * 2 ^ k" using \<open>b + 1 \<le> 2 ^ k\<close> by (rule mult_le_mono2)
  finally show ?case using 1 by (auto simp: digits_def mult_2 power_add)
next
  case (2 k)
  then show ?case by (simp add: digits_def)
next
  case (3 k a)
  then have "a < 2 ^ k" by (simp add: digits_def)
  also have "\<dots> \<le> 2 ^ (2 * k)" by (rule power_increasing) auto
  finally show ?case by (simp add: digits_def)
qed

lemma evens_pairs: "digits k ds \<Longrightarrow> map (\<lambda>d. d mod 2 ^ k) (pairs k ds) = evens ds"
  by (induction k ds rule: pairs.induct) (auto simp: digits_def)

lemma length_pairs: "even (length ds) \<Longrightarrow> length (pairs k ds) = length ds div 2"
  by (induction k ds rule: pairs.induct) auto

lemma length_evens: "even (length ds) \<Longrightarrow> length (evens ds) = length ds div 2"
  by (induction ds rule: evens.induct) auto

lemma val_mask:
  assumes "digits k ds" "length ds = 2 * n"
  shows "val k ds AND val (2 * k) (replicate n (2 ^ k - 1)) = val (2 * k) (evens ds)"
proof -
  have "(2 :: nat) ^ k \<le> 2 ^ (2 * k)" by (rule power_increasing) auto
  then have "2 ^ k - 1 < (2 :: nat) ^ (2 * k)" by (metis One_nat_def diff_less less_le_trans zero_less_numeral zero_less_one zero_less_power)
  then have "digits (2 * k) (replicate n (2 ^ k - 1))" by (simp add: digits_def)
  moreover have "length (pairs k ds) = length (replicate n (2 ^ k - 1 :: nat))" using length_pairs assms by simp
  moreover note digits_pairs [OF assms(1)]
  ultimately have "val (2 * k) (pairs k ds) AND val (2 * k) (replicate n (2 ^ k - 1)) =
      val (2 * k) (map2 (AND) (pairs k ds) (replicate n (2 ^ k - 1)))" by (intro val_and)
  also have "map2 (AND) (pairs k ds) (replicate n (2 ^ k - 1)) = map (\<lambda>d. d mod 2 ^ k) (pairs k ds)"
    using length_pairs [of ds k] assms(2)
    by (intro nth_equalityI) (simp_all add: take_bit_eq_mod [symmetric] take_bit_eq_mask mask_eq_exp_minus_1)
  finally show ?thesis using assms(1) by (simp add: val_pairs evens_pairs)
qed

abbreviation shifted :: "nat list \<Rightarrow> nat list" where
  "shifted ds \<equiv> drop 1 ds @ [0]"

lemma val_shifted: "digits k ds \<Longrightarrow> drop_bit k (val k ds) = val k (shifted ds)"
  using val_drop [of k ds 1] val_append_zeros [of k "drop 1 ds" 1] by simp

lemma digits_shifted: "digits k ds \<Longrightarrow> digits k (shifted ds)"
  by (auto simp: digits_def dest: in_set_dropD)

lemma sums_evens: "even (length ds) \<Longrightarrow> map2 (+) (evens ds) (evens (shifted ds)) = sums ds"
proof (induction ds rule: sums.induct)
  case (1 a b ds)
  then show ?case by (cases ds) auto
qed auto

lemma evens_sums: "even (length ds) \<Longrightarrow> evens (map2 (+) ds (shifted ds)) = sums ds"
proof (induction ds rule: sums.induct)
  case (1 a b ds)
  then show ?case by (cases ds) auto
qed auto

lemma evens_le: "ds \<noteq> [] \<Longrightarrow> even (length ds) \<Longrightarrow> digits 1 ds \<Longrightarrow> list_all2 (\<le>) (evens (shifted ds)) (pairs 1 ds) \<and>
    map2 (-) (pairs 1 ds) (evens (shifted ds)) = sums ds"
proof (induction ds rule: sums.induct)
  case (1 a b ds)
  moreover from 1 have "digits 1 ds" by (simp add: digits_def)
  ultimately show ?case by (cases ds) (auto simp: digits_def)
qed auto

lemma length_shifted: "length ds = 2 * n \<Longrightarrow> 0 < n \<Longrightarrow> length (shifted ds) = 2 * n"
  by simp

lemma stage1:
  assumes "digits 1 ds" "length ds = 2 * n" "0 < n"
  defines "m \<equiv> drop_bit 1 (val 1 ds) AND val 2 (replicate n 1)"
  shows "m \<le> val 1 ds" "val 1 ds - m = val 2 (sums ds)"
proof -
  have "m = val 2 (evens (shifted ds))"
    using val_mask [OF digits_shifted [OF assms(1)] length_shifted [OF assms(2,3)]] val_shifted [OF assms(1)]
    by (simp add: m_def)
  moreover have "val 1 ds = val 2 (pairs 1 ds)" using val_pairs [of 1 ds] by simp
  moreover have "ds \<noteq> []" "even (length ds)" using assms(2,3) by auto
  note e = evens_le [OF this assms(1)]
  note val_diff [OF conjunct1 [OF e], of 2]
  ultimately show "m \<le> val 1 ds" "val 1 ds - m = val 2 (sums ds)" using e by simp_all
qed

lemma stage2:
  assumes "digits k ds" "length ds = 2 * n" "0 < n"
  defines "m \<equiv> val (2 * k) (replicate n (2 ^ k - 1))"
  shows "(val k ds AND m) + (drop_bit k (val k ds) AND m) = val (2 * k) (sums ds)"
  using val_mask [OF digits_shifted [OF assms(1)] length_shifted [OF assms(2,3)]] val_mask [OF assms(1,2)]
    val_add [of "evens ds" "evens (shifted ds)" "2 * k"] length_evens [of ds] length_evens [of "shifted ds"]
    length_shifted [OF assms(2,3)] sums_evens [of ds] assms(2)
  by (simp add: m_def val_shifted [OF assms(1)])

lemma stage3:
  assumes "digits k ds" "digits k (map2 (+) ds (shifted ds))" "length ds = 2 * n" "0 < n"
  shows "(val k ds + drop_bit k (val k ds)) AND val (2 * k) (replicate n (2 ^ k - 1)) = val (2 * k) (sums ds)"
proof -
  have "val k ds + drop_bit k (val k ds) = val k (map2 (+) ds (shifted ds))"
    using assms(3,4) by (subst val_shifted [OF assms(1)], intro val_add) auto
  moreover have "length (map2 (+) ds (shifted ds)) = 2 * n" using assms(3,4) by simp
  ultimately show ?thesis using val_mask [OF assms(2)] evens_sums [of ds] assms(3) by simp
qed

lemma length_sums: "even (length ds) \<Longrightarrow> length (sums ds) = length ds div 2"
  by (induction ds rule: sums.induct) auto

lemma sum_list_sums: "sum_list (sums ds) = sum_list ds"
  by (induction ds rule: sums.induct) auto

lemma sums_bound: "(\<And>d. d \<in> set ds \<Longrightarrow> d \<le> c) \<Longrightarrow> even (length ds) \<Longrightarrow> x \<in> set (sums ds) \<Longrightarrow> x \<le> 2 * c"
proof (induction ds rule: sums.induct)
  case (1 a b ds)
  then have "a \<le> c" "b \<le> c" by auto
  then show ?case using 1 by fastforce
qed auto

definition bits_of :: "nat \<Rightarrow> nat \<Rightarrow> nat list" where
  "bits_of n x = map (\<lambda>i. of_bool (bit x i)) [0..<n]"

lemma bits_of_Suc: "bits_of (Suc n) x = of_bool (odd x) # bits_of n (x div 2)"
  unfolding bits_of_def upt_conv_Cons [OF zero_less_Suc] map_Suc_upt [symmetric]
  by (simp add: bit_0 bit_Suc)

lemma val_bits_of: "val 1 (bits_of n x) = x mod 2 ^ n"
proof (induction n arbitrary: x)
  case (Suc n)
  have "x mod 2 ^ Suc n = 2 * (x div 2 mod 2 ^ n) + x mod 2" by (simp add: mod_mult2_eq)
  then show ?case using Suc by (simp add: bits_of_Suc mod2_eq_if)
qed (simp add: bits_of_def)

text \<open>The first three stages at any width: from single bits to bytes, each holding its own count.\<close>

lemma byte_counts:
  fixes x n :: nat
  assumes "0 < n" "x < 2 ^ (8 * n)"
    and m: "m1 = val 2 (replicate (4 * n) 1)" "m2 = val 4 (replicate (2 * n) 3)" "m3 = val 8 (replicate n 15)"
  defines "bs \<equiv> bits_of (8 * n) x"
  defines "r1 \<equiv> x - (drop_bit 1 x AND m1)"
  defines "r2 \<equiv> (r1 AND m2) + (drop_bit 2 r1 AND m2)"
  defines "r3 \<equiv> (r2 + drop_bit 4 r2) AND m3"
  shows "\<exists>es. r3 = val 8 es \<and> length es = n \<and> (\<forall>e\<in>set es. e \<le> 8) \<and> sum_list es = sum_list bs"
    "r2 < 2 ^ (8 * n)" "r2 + drop_bit 4 r2 < 2 ^ (8 * n)" "drop_bit 1 x AND m1 \<le> x"
proof -
  have x: "val 1 bs = x" using assms(2) by (simp only: bs_def val_bits_of mod_less)
  have l: "length bs = 8 * n" "length (sums bs) = 4 * n" "length (sums (sums bs)) = 2 * n"
    "length (sums (sums (sums bs))) = n" by (simp_all add: bs_def bits_of_def length_sums)
  have b0: "d \<le> 1" if "d \<in> set bs" for d using that by (auto simp: bs_def bits_of_def)
  have b1: "d \<le> 2" if "d \<in> set (sums bs)" for d using sums_bound [OF b0 _ that] l by simp
  have b2: "d \<le> 4" if "d \<in> set (sums (sums bs))" for d using sums_bound [OF b1 _ that] l by simp
  have b3: "d \<le> 8" if "d \<in> set (sums (sums (sums bs)))" for d using sums_bound [OF b2 _ that] l by simp
  have d0: "digits 1 bs" using b0 by (fastforce simp: digits_def)
  have d1: "digits 2 (sums bs)" using b1 by (fastforce simp: digits_def)
  have d2: "digits 4 (sums (sums bs))" using b2 by (fastforce simp: digits_def)
  have d3: "digits 4 (map2 (+) (sums (sums bs)) (shifted (sums (sums bs))))"
    unfolding digits_def
  proof
    fix d assume "d \<in> set (map2 (+) (sums (sums bs)) (shifted (sums (sums bs))))"
    then obtain a b where "d = a + b" "(a, b) \<in> set (zip (sums (sums bs)) (shifted (sums (sums bs))))" by auto
    moreover from this(2) have "a \<in> set (sums (sums bs))" "b \<in> set (shifted (sums (sums bs)))"
      by (rule set_zip_leftD, rule set_zip_rightD)
    moreover from this have "a \<le> 4" "b \<le> 4" using b2 by (auto dest: in_set_dropD)
    ultimately show "d < 2 ^ 4" by simp
  qed
  have r1: "r1 = val 2 (sums bs)" and le: "drop_bit 1 x AND m1 \<le> x"
    using stage1 [OF d0, of "4 * n", unfolded x] l assms(1) by (simp_all add: r1_def m(1))
  from le show "drop_bit 1 x AND m1 \<le> x" .
  have r2: "r2 = val 4 (sums (sums bs))"
    using stage2 [OF d1, of "2 * n"] l assms(1) by (simp add: r2_def r1 m(2))
  then show "r2 < 2 ^ (8 * n)" using val_bound [OF d2] l by simp
  have "r2 + drop_bit 4 r2 = val 4 (map2 (+) (sums (sums bs)) (shifted (sums (sums bs))))"
    unfolding r2 val_shifted [OF d2] using l assms(1) by (intro val_add) simp
  then show "r2 + drop_bit 4 r2 < 2 ^ (8 * n)" using val_bound [OF d3] l assms(1) by simp
  have "r3 = val 8 (sums (sums (sums bs)))"
    using stage3 [OF d2 d3, of n] l assms(1) by (simp add: r3_def r2 m(3))
  then show "\<exists>es. r3 = val 8 es \<and> length es = n \<and> (\<forall>e\<in>set es. e \<le> 8) \<and> sum_list es = sum_list bs"
    using l b3 by (intro exI [of _ "sums (sums (sums bs))"]) (simp add: sum_list_sums)
qed

lemma val_fold:
  assumes "digits k ds" "j \<le> length ds"
  shows "val k ds + drop_bit (j * k) (val k ds) = val k (map2 (+) ds (drop j ds @ replicate j 0))"
  unfolding val_drop [OF assms(1)] using assms(2)
  by (subst val_append_zeros [symmetric, of _ _ j], intro val_add) simp

lemma list8: "length es = 8 \<Longrightarrow> \<exists>a b c d e f g h. es = [a, b, c, d, e, f, g, h]"
  by (auto simp: eval_nat_numeral length_Suc_conv)

lemma list4: "length es = 4 \<Longrightarrow> \<exists>a b c d. es = [a, b, c, d]"
  by (auto simp: eval_nat_numeral length_Suc_conv)

lemma byte_sum8:
  assumes "length es = 8" "\<forall>e\<in>set es. e \<le> 8"
  defines "r4 \<equiv> val 8 es + drop_bit 8 (val 8 es)"
  defines "r5 \<equiv> r4 + drop_bit 16 r4"
  shows "r4 < 2 ^ 64" "r5 < 2 ^ 64" "r5 + drop_bit 32 r5 < 2 ^ 64" "(r5 + drop_bit 32 r5) mod 256 = sum_list es"
proof -
  obtain a b c d e f g h where es: "es = [a, b, c, d, e, f, g, h]" using list8 [OF assms(1)] by blast
  let ?es4 = "[a + b, b + c, c + d, d + e, e + f, f + g, g + h, h]"
  let ?es5 = "[a + b + (c + d), b + c + (d + e), c + d + (e + f), d + e + (f + g), e + f + (g + h), f + g + h, g + h, h]"
  let ?es6 = "[a + b + (c + d) + (e + f + (g + h)), b + c + (d + e) + (f + g + h), c + d + (e + f) + (g + h),
    d + e + (f + g) + h, e + f + (g + h), f + g + h, g + h, h]"
  have dg: "digits 8 es" "digits 8 ?es4" "digits 8 ?es5" "digits 8 ?es6"
    using assms(2) by (auto simp: digits_def es)
  have r4: "r4 = val 8 ?es4" unfolding r4_def using val_fold [OF dg(1), of 1] by (simp add: es del: val.simps)
  have r5: "r5 = val 8 ?es5" unfolding r5_def r4 using val_fold [OF dg(2), of 2]
    by (simp add: numeral_2_eq_2 del: val.simps)
  have r6: "r5 + drop_bit 32 r5 = val 8 ?es6"
  proof -
    have "replicate 4 (0 :: nat) = [0, 0, 0, 0]" by (simp add: eval_nat_numeral)
    then show ?thesis unfolding r5 using val_fold [OF dg(3), of 4] by (simp del: val.simps)
  qed
  show "r4 < 2 ^ 64" "r5 < 2 ^ 64" "r5 + drop_bit 32 r5 < 2 ^ 64"
    using val_bound [OF dg(2)] val_bound [OF dg(3)] val_bound [OF dg(4)] unfolding r6
    by (simp_all add: r4 r5 del: val.simps)
  have "val 8 ?es6 mod 256 = a + b + (c + d) + (e + f + (g + h))"
    using assms(2) by (subst val.simps) (simp add: es del: val.simps)
  then show "(r5 + drop_bit 32 r5) mod 256 = sum_list es" unfolding r6 by (simp add: es del: val.simps)
qed

lemma byte_sum4:
  assumes "length es = 4" "\<forall>e\<in>set es. e \<le> 8"
  defines "r4 \<equiv> val 8 es + drop_bit 8 (val 8 es)"
  shows "r4 < 2 ^ 32" "r4 + drop_bit 16 r4 < 2 ^ 32" "(r4 + drop_bit 16 r4) mod 256 = sum_list es"
proof -
  obtain a b c d where es: "es = [a, b, c, d]" using list4 [OF assms(1)] by blast
  let ?es4 = "[a + b, b + c, c + d, d]"
  let ?es5 = "[a + b + (c + d), b + c + d, c + d, d]"
  have dg: "digits 8 es" "digits 8 ?es4" "digits 8 ?es5"
    using assms(2) by (auto simp: digits_def es)
  have r4: "r4 = val 8 ?es4" unfolding r4_def using val_fold [OF dg(1), of 1] by (simp add: es del: val.simps)
  have r5: "r4 + drop_bit 16 r4 = val 8 ?es5" unfolding r4 using val_fold [OF dg(2), of 2]
    by (simp add: numeral_2_eq_2 del: val.simps)
  show "r4 < 2 ^ 32" "r4 + drop_bit 16 r4 < 2 ^ 32"
    using val_bound [OF dg(2)] val_bound [OF dg(3)] unfolding r5 by (simp_all add: r4 del: val.simps)
  have "val 8 ?es5 mod 256 = a + b + (c + d)"
    using assms(2) by (subst val.simps) (simp add: es del: val.simps)
  then show "(r4 + drop_bit 16 r4) mod 256 = sum_list es" unfolding r5 by (simp add: es del: val.simps)
qed

lemma unat_plus_fits: "unat (x :: 'a::len word) + unat y < 2 ^ LENGTH('a) \<Longrightarrow> unat (x + y) = unat x + unat y"
  by (simp add: unat_word_ariths)

lemma val_replicate: "val k (replicate n c) * (2 ^ k - 1) = c * (2 ^ (k * n) - 1)"
proof (induction n)
  case (Suc n)
  have "int (val k (replicate n c)) * (2 ^ k - 1) = int c * (2 ^ (k * n) - 1)"
    using arg_cong [OF Suc, of int] by (simp add: of_nat_diff)
  then have "(int c + 2 ^ k * int (val k (replicate n c))) * (2 ^ k - 1) = int c * (2 ^ (k + k * n) - 1)"
    by (simp add: algebra_simps power_add)
  then have "int (val k (replicate (Suc n) c) * (2 ^ k - 1)) = int (c * (2 ^ (k * Suc n) - 1))"
    by (simp add: of_nat_diff)
  then show ?case by linarith
qed simp

lemma swar_masks64: "0x5555555555555555 = val 2 (replicate (4 * 8) 1)" "0x3333333333333333 = val 4 (replicate (2 * 8) 3)"
  "0x0F0F0F0F0F0F0F0F = val 8 (replicate 8 15)"
  using val_replicate [of 2 32 1] val_replicate [of 4 16 3] val_replicate [of 8 8 15] by simp_all

lemma swar_masks32: "0x55555555 = val 2 (replicate (4 * 4) 1)" "0x33333333 = val 4 (replicate (2 * 4) 3)"
  "0x0F0F0F0F = val 8 (replicate 4 15)"
  using val_replicate [of 2 16 1] val_replicate [of 4 8 3] val_replicate [of 8 4 15] by simp_all

lemma and_255: "x AND 255 = x mod (256 :: nat)"
  using take_bit_eq_mask [of 8 x] by (simp add: mask_eq_exp_minus_1 take_bit_eq_mod)

lemma sw_hweight64_sum: "unat (sw_hweight64 w) = sum_list (bits_of 64 (unat w))"
proof -
  define r1 where "r1 = w - (drop_bit 1 w AND 0x5555555555555555)"
  define r2 where "r2 = (r1 AND 0x3333333333333333) + (drop_bit 2 r1 AND 0x3333333333333333)"
  define r3 where "r3 = (r2 + drop_bit 4 r2) AND 0x0F0F0F0F0F0F0F0F"
  define r4 where "r4 = r3 + drop_bit 8 r3"
  define r5 where "r5 = r4 + drop_bit 16 r4"
  note u = unsigned_and_eq unat_drop_bit_eq
  have "unat w < 2 ^ (8 * 8)" using unsigned_less [of w, where 'a = nat] by simp
  note bc = byte_counts [OF _ this swar_masks64, simplified]
  have u1: "unat r1 = unat w - (drop_bit 1 (unat w) AND 0x5555555555555555)"
    unfolding r1_def by (subst unat_sub) (use bc(4) in \<open>simp_all add: word_le_nat_alt u\<close>)
  have u2: "unat r2 = (unat r1 AND 0x3333333333333333) + (drop_bit 2 (unat r1) AND 0x3333333333333333)"
    unfolding r2_def by (subst unat_plus_fits) (use bc(2) in \<open>simp_all add: u u1\<close>)
  have u3: "unat r3 = (unat r2 + drop_bit 4 (unat r2)) AND 0x0F0F0F0F0F0F0F0F"
    unfolding r3_def u by (subst unat_plus_fits) (use bc(3) in \<open>simp_all add: u u1 u2\<close>)
  obtain es where es: "unat r3 = val 8 es" "length es = 8" "\<forall>e\<in>set es. e \<le> 8"
    "sum_list es = sum_list (bits_of 64 (unat w))" using bc(1) unfolding u3 u2 u1 by auto
  note bs = byte_sum8 [OF es(2,3), folded es(1)]
  have u4: "unat r4 = unat r3 + drop_bit 8 (unat r3)"
    unfolding r4_def by (subst unat_plus_fits) (use bs(1) in \<open>simp_all add: u\<close>)
  have u5: "unat r5 = unat r4 + drop_bit 16 (unat r4)"
    unfolding r5_def by (subst unat_plus_fits) (use bs(2) in \<open>simp_all add: u u4\<close>)
  have "unat (r5 + drop_bit 32 r5) = unat r5 + drop_bit 32 (unat r5)"
    by (subst unat_plus_fits) (use bs(3) in \<open>simp_all add: u u4 u5\<close>)
  then have "unat ((r5 + drop_bit 32 r5) AND 0xFF) = (unat r5 + drop_bit 32 (unat r5)) mod 256"
    by (simp add: u and_255)
  also have "\<dots> = sum_list (bits_of 64 (unat w))" using bs(4) es(4) unfolding u4 u5 by simp
  finally show ?thesis by (simp add: sw_hweight64_def Let_def r1_def r2_def r3_def r4_def r5_def)
qed

lemma sw_hweight32_sum: "unat (sw_hweight32 w) = sum_list (bits_of 32 (unat w))"
proof -
  define r1 where "r1 = w - (drop_bit 1 w AND 0x55555555)"
  define r2 where "r2 = (r1 AND 0x33333333) + (drop_bit 2 r1 AND 0x33333333)"
  define r3 where "r3 = (r2 + drop_bit 4 r2) AND 0x0F0F0F0F"
  define r4 where "r4 = r3 + drop_bit 8 r3"
  note u = unsigned_and_eq unat_drop_bit_eq
  have "unat w < 2 ^ (8 * 4)" using unsigned_less [of w, where 'a = nat] by simp
  note bc = byte_counts [OF _ this swar_masks32, simplified]
  have u1: "unat r1 = unat w - (drop_bit 1 (unat w) AND 0x55555555)"
    unfolding r1_def by (subst unat_sub) (use bc(4) in \<open>simp_all add: word_le_nat_alt u\<close>)
  have u2: "unat r2 = (unat r1 AND 0x33333333) + (drop_bit 2 (unat r1) AND 0x33333333)"
    unfolding r2_def by (subst unat_plus_fits) (use bc(2) in \<open>simp_all add: u u1\<close>)
  have u3: "unat r3 = (unat r2 + drop_bit 4 (unat r2)) AND 0x0F0F0F0F"
    unfolding r3_def u by (subst unat_plus_fits) (use bc(3) in \<open>simp_all add: u u1 u2\<close>)
  obtain es where es: "unat r3 = val 8 es" "length es = 4" "\<forall>e\<in>set es. e \<le> 8"
    "sum_list es = sum_list (bits_of 32 (unat w))" using bc(1) unfolding u3 u2 u1 by auto
  note bs = byte_sum4 [OF es(2,3), folded es(1)]
  have u4: "unat r4 = unat r3 + drop_bit 8 (unat r3)"
    unfolding r4_def by (subst unat_plus_fits) (use bs(1) in \<open>simp_all add: u\<close>)
  have "unat (r4 + drop_bit 16 r4) = unat r4 + drop_bit 16 (unat r4)"
    by (subst unat_plus_fits) (use bs(2) in \<open>simp_all add: u u4\<close>)
  then have "unat ((r4 + drop_bit 16 r4) AND 0xFF) = (unat r4 + drop_bit 16 (unat r4)) mod 256"
    by (simp add: u and_255)
  also have "\<dots> = sum_list (bits_of 32 (unat w))" using bs(3) es(4) unfolding u4 by simp
  finally show ?thesis by (simp add: sw_hweight32_def Let_def r1_def r2_def r3_def r4_def)
qed

lemma bits_of_append: "bits_of (m + n) x = bits_of m x @ bits_of n (drop_bit m x)"
proof (induction m arbitrary: x)
  case 0
  then show ?case by (simp add: bits_of_def)
next
  case (Suc m)
  then show ?case by (simp add: bits_of_Suc drop_bit_Suc)
qed

lemma const_hweight8_sum: "const_hweight8 w = sum_list (bits_of 8 (unat w))"
  by (simp add: const_hweight8_def bits_of_def bit_unsigned_iff eval_nat_numeral del: sum_list_upt)

lemma const_hweight_sum:
  "const_hweight16 w = sum_list (bits_of 16 (unat w))"
  "const_hweight32 w = sum_list (bits_of 32 (unat w))"
  "const_hweight64 w = sum_list (bits_of 64 (unat w))"
proof -
  show h16: "const_hweight16 w = sum_list (bits_of 16 (unat w))" for w
    using bits_of_append [of 8 8 "unat w"] by (simp add: const_hweight16_def const_hweight8_sum unat_drop_bit_eq)
  show h32: "const_hweight32 w = sum_list (bits_of 32 (unat w))" for w
    using bits_of_append [of 16 16 "unat w"] by (simp add: const_hweight32_def h16 unat_drop_bit_eq)
  show "const_hweight64 w = sum_list (bits_of 64 (unat w))"
    using bits_of_append [of 32 32 "unat w"] by (simp add: const_hweight64_def h32 unat_drop_bit_eq)
qed

lemma sum_bits_card: "sum_list (bits_of n x) = card {i. i < n \<and> bit x i}"
proof (induction n)
  case (Suc n)
  have "{i. i < Suc n \<and> bit x i} = {i. i < n \<and> bit x i} \<union> (if bit x n then {n} else {})"
    by (auto simp: less_Suc_eq)
  then show ?case using Suc by (simp add: bits_of_def)
qed (simp add: bits_of_def)

subsection \<open>Rotations\<close>

lemma neg_shift_eq:
  assumes "k < 32" shows "neg_shift (2 ^ k) s = (2 ^ k - unat s mod 2 ^ k) mod 2 ^ k"
proof -
  have "- s AND (word_of_nat (2 ^ k) - 1) = take_bit k (- s)"
    by (simp add: take_bit_eq_mask mask_eq_exp_minus_1)
  then have "int (neg_shift (2 ^ k) s) = uint (- s) mod 2 ^ k"
    by (simp only: neg_shift_def uint_nat [symmetric] unsigned_take_bit_eq) (simp add: take_bit_eq_mod zmod_int)
  also have "\<dots> = (- uint s) mod 2 ^ k"
  proof -
    have "(2 :: int) ^ k dvd 2 ^ LENGTH(32)" using assms by (intro le_imp_power_dvd) simp
    then show ?thesis by (simp only: uint_word_ariths mod_mod_cancel)
  qed
  also have "\<dots> = (2 ^ k - uint s mod 2 ^ k) mod 2 ^ k"
    by (simp add: mod_minus_eq)
  also have "\<dots> = int ((2 ^ k - unat s mod 2 ^ k) mod 2 ^ k)"
    by (simp add: zmod_int of_nat_diff)
  finally show ?thesis by linarith
qed

lemma rotr_shifts:
  fixes w :: "'a::len word"
  assumes "m < LENGTH('a)"
  shows "drop_bit m w OR push_bit ((LENGTH('a) - m) mod LENGTH('a)) w = word_rotr m w"
proof (cases "m = 0")
  case True
  then show ?thesis by (intro bit_word_eqI) (auto simp: bit_simps)
next
  case False
  show ?thesis
  proof (rule bit_word_eqI)
    fix n assume n: "n < LENGTH('a)"
    have "bit w (m + n) \<Longrightarrow> m + n < LENGTH('a)" by (rule bit_imp_le_length)
    moreover have "(n + m) mod LENGTH('a) = (if n + m < LENGTH('a) then n + m else n + m - LENGTH('a))"
      using n assms by (simp add: mod_if)
    ultimately show "bit (drop_bit m w OR push_bit ((LENGTH('a) - m) mod LENGTH('a)) w) n = bit (word_rotr m w) n"
      using n assms False by (auto simp: bit_simps add.commute)
  qed
qed

lemma rotl_shifts:
  fixes w :: "'a::len word"
  assumes "m < LENGTH('a)"
  shows "push_bit m w OR drop_bit ((LENGTH('a) - m) mod LENGTH('a)) w = word_rotl m w"
proof (cases "m = 0")
  case True
  then show ?thesis by (intro bit_word_eqI) (auto simp: bit_simps)
next
  case False
  then show ?thesis using rotr_shifts [of "LENGTH('a) - m" w] assms
    by (simp add: word_rotl_eq_word_rotr or.commute)
qed

lemma rot_mod:
  "word_rotr (m mod LENGTH('a)) w = word_rotr m (w :: 'a::len word)"
  "word_rotl (m mod LENGTH('a)) w = word_rotl m w"
  by (rule bit_word_eqI; simp add: bit_simps mod_add_right_eq)+

lemma rotate_neg:
  assumes "LENGTH('a::len) = 2 ^ k" "k < 32"
  shows "push_bit (unat s mod 2 ^ k) w OR drop_bit (neg_shift (2 ^ k) s) (w :: 'a word) = word_rotl (unat s) w"
    and "drop_bit (unat s mod 2 ^ k) w OR push_bit (neg_shift (2 ^ k) s) w = word_rotr (unat s) w"
  unfolding neg_shift_eq [OF assms(2)]
  using rotl_shifts [of "unat s mod 2 ^ k" w] rotr_shifts [of "unat s mod 2 ^ k" w] rot_mod [where 'a = 'a] assms(1)
  by simp_all

lemma unat_and_mask: "unat (s AND mask k :: u32) = unat s mod 2 ^ k"
  unfolding take_bit_eq_mask [symmetric] unsigned_take_bit_eq by (simp add: take_bit_eq_mod)

lemma unat_and_masks:
  "unat (s AND 63 :: u32) = unat s mod 2 ^ 6" "unat (s AND 31 :: u32) = unat s mod 2 ^ 5"
  "unat (s AND 15 :: u32) = unat s mod 2 ^ 4" "unat (s AND 7 :: u32) = unat s mod 2 ^ 3"
  using unat_and_mask [of s 6] unat_and_mask [of s 5] unat_and_mask [of s 4] unat_and_mask [of s 3]
  by (simp_all add: mask_eq_exp_minus_1)

subsection \<open>Properties\<close>

text \<open>C15. \<open>__ffs\<close>, \<open>ffz\<close>, \<open>__fls\<close>, \<open>fls\<close> and \<open>fls64\<close>, computed by halving steps, find the
  lowest set bit, the lowest clear bit and the highest set bit, which is the truncated base-two logarithm.\<close>

theorem bit_searches_correct:
  assumes "w \<noteq> 0" "v \<noteq> NOT 0" "x \<noteq> 0"
  shows "lowest w (ffs_word w) \<and> lowest (NOT v) (ffz v) \<and>
    highest w (fls_word w) \<and> highest w (fls64 w - 1) \<and> highest x (fls x - 1) \<and>
    2 ^ nat (ilog2_u64 w) \<le> unat w \<and> unat w < 2 ^ nat (ilog2_u64 w + 1) \<and>
    2 ^ nat (ilog2_u32 x) \<le> unat x \<and> unat x < 2 ^ nat (ilog2_u32 x + 1)"
proof -
  have "highest w (fls_word w)" "highest w (fls64 w - 1)"
    using fls_word_highest [OF assms(1)] assms(1) by (simp_all add: fls64_def)
  moreover have "2 ^ nat (ilog2_u64 w) \<le> unat w \<and> unat w < 2 ^ nat (ilog2_u64 w + 1)"
    using fls64_bounds [OF assms(1)] by (simp add: ilog2_u64_def nat_diff_distrib)
  moreover have "2 ^ nat (ilog2_u32 x) \<le> unat x \<and> unat x < 2 ^ nat (ilog2_u32 x + 1)"
    using fls_bounds [OF assms(3)] by (simp add: ilog2_u32_def nat_diff_distrib)
  ultimately show ?thesis
    using ffs_word_lowest [OF assms(1)] ffz_lowest [OF assms(2)] fls_highest [OF assms(3)] by blast
qed

theorem bit_searches_correct_witness:
  "lowest (40 :: u64) (ffs_word 40) \<and> ffs_word 40 = 3 \<and> highest (40 :: u64) (fls_word 40) \<and> fls_word 40 = 5 \<and>
   lowest (NOT 7 :: u64) (ffz 7) \<and> ffz 7 = 3 \<and> highest (9 :: u32) (fls 9 - 1) \<and> fls 9 = 4"
proof -
  have "(40 :: u64) \<noteq> 0" "(7 :: u64) \<noteq> NOT 0" "(9 :: u32) \<noteq> 0" by simp_all
  note r = bit_searches_correct [OF this]
  moreover have "ffs_word 40 = 3" "fls_word 40 = 5" "ffz 7 = 3" "fls 9 = 4" by code_simp+
  ultimately show ?thesis by blast
qed

text \<open>C30. For every non-zero \<open>n\<close> up to \<open>2 ^ 63\<close>, \<open>roundup_pow_of_two\<close> returns the least power of two that is
  at least \<open>n\<close> and \<open>rounddown_pow_of_two\<close> the greatest that is at most \<open>n\<close>; \<open>is_power_of_2\<close>
  recognises exactly the powers of two.\<close>

theorem pow_of_two_correct:
  assumes "n \<noteq> 0" "unat n \<le> 2 ^ 63"
  shows "(\<exists>up dn i j. roundup_pow_of_two n = Some up \<and> unat up = 2 ^ i \<and> unat n \<le> unat up \<and> unat up < 2 * unat n \<and>
      rounddown_pow_of_two n = Some dn \<and> unat dn = 2 ^ j \<and> unat dn \<le> unat n \<and> unat n < 2 * unat dn) \<and>
    (is_power_of_2 n \<longleftrightarrow> (\<exists>k<64. n = 2 ^ k))"
  using roundup_ok [OF assms] rounddown_ok [OF assms(1)] is_power_of_2_iff [of n] by blast

theorem pow_of_two_correct_witness:
  "(\<exists>up dn i j. roundup_pow_of_two 48 = Some up \<and> unat up = 2 ^ i \<and> unat (48 :: u64) \<le> unat up \<and> unat up < 2 * unat (48 :: u64) \<and>
      rounddown_pow_of_two 48 = Some dn \<and> unat dn = 2 ^ j \<and> unat dn \<le> unat (48 :: u64) \<and> unat (48 :: u64) < 2 * unat dn) \<and>
   roundup_pow_of_two 48 = Some 64 \<and> rounddown_pow_of_two 48 = Some 32"
proof -
  have "(48 :: u64) \<noteq> 0" "unat (48 :: u64) \<le> 2 ^ 63" by simp_all
  note pow_of_two_correct [OF this]
  moreover have "roundup_pow_of_two 48 = Some 64" "rounddown_pow_of_two 48 = Some 32" by code_simp+
  ultimately show ?thesis by blast
qed

text \<open>C12. The population counts that add neighbouring bit fields in parallel (\<open>__sw_hweight64\<close>,
  \<open>__sw_hweight32\<close>) never overflow a field: they equal the number of set bits and the
  bit-by-bit macro \<open>__const_hweight64\<close>.\<close>

theorem hweight_equivalence:
  "hweight_long w = const_hweight64 w \<and> hweight_long w = card {i. i < 64 \<and> bit w i} \<and>
   unat (sw_hweight32 x) = card {i. i < 32 \<and> bit x i} \<and> unat (sw_hweight32 x) = const_hweight32 (ucast x)"
proof -
  have "bits_of 32 (unat (ucast x :: u64)) = bits_of 32 (unat x)"
    by (simp add: bits_of_def bit_unsigned_iff)
  then show ?thesis
    by (simp add: hweight_long_def sw_hweight64_sum sw_hweight32_sum const_hweight_sum sum_bits_card bit_unsigned_iff)
qed

text \<open>C31. The rotations by masked shifts are rotations of the bit string for every shift amount, and a
  right rotation undoes a left one. \<open>rol32\<close>, whose left shift is not masked, is defined only
  for shifts below 32.\<close>

theorem rotations_correct:
  "rol64 w s = word_rotl (unat s) w \<and> ror64 w s = word_rotr (unat s) w \<and> ror64 (rol64 w s) s = w \<and>
   rol32 x s = (if s < 32 then Some (word_rotl (unat s) x) else None) \<and> ror32 x s = word_rotr (unat s) x \<and>
   rol16 y s = word_rotl (unat s) y \<and> ror16 (rol16 y s) s = y \<and> rol8 z s = word_rotl (unat s) z \<and> ror8 (rol8 z s) s = z"
proof -
  have 6: "rol64 w s = word_rotl (unat s) w" "ror64 w s = word_rotr (unat s) w" for w
    using rotate_neg [where 'a = 64 and k = 6] by (simp_all add: rol64_def ror64_def unat_and_masks)
  have 5: "ror32 x s = word_rotr (unat s) x" "s < 32 \<Longrightarrow> rol32 x s = Some (word_rotl (unat s) x)"
    using rotate_neg [where 'a = 32 and k = 5, of s x]
    by (simp_all add: rol32_def ror32_def unat_and_masks word_less_nat_alt)
  have 4: "rol16 w s = word_rotl (unat s) w" "ror16 w s = word_rotr (unat s) w" for w
    using rotate_neg [where 'a = 16 and k = 4] by (simp_all add: rol16_def ror16_def unat_and_masks)
  have 3: "rol8 w s = word_rotl (unat s) w" "ror8 w s = word_rotr (unat s) w" for w
    using rotate_neg [where 'a = 8 and k = 3] by (simp_all add: rol8_def ror8_def unat_and_masks)
  show ?thesis using 5 by (auto simp: 6 4 3 rol32_def)
qed

end
