(* ===== verification/Memblock_Free_Correct.thy ===== *)
theory Memblock_Free_Correct
  imports Memblock_Props Memblock_Free Bitops_Correct
begin

section \<open>Correctness of the page hand-over\<close>

text \<open>
  The loop that splits a range of page frames into buddy blocks tiles the range with
  naturally aligned blocks, and the count of pages is that of the whole pages in free memory.
\<close>

subsection \<open>Splitting a range into buddy blocks\<close>

definition frames :: "(u64 \<times> nat) list \<Rightarrow> nat list" where
  "frames bs = concat (map (\<lambda>(s, k). [unat s ..< unat s + 2 ^ k]) bs)"

definition buddy_block :: "u64 \<times> nat \<Rightarrow> bool" where
  "buddy_block b \<longleftrightarrow> snd b < MAX_ORDER \<and> 2 ^ snd b dvd unat (fst b)"

lemma unat_add_push:
  assumes "unat start + 2 ^ k < 2 ^ 64" "k < 64"
  shows "unat (start + push_bit k 1 :: u64) = unat start + 2 ^ k"
  using assms unat_plus_fits [of start "push_bit k 1"] unat_push_one [of k] by (simp del: push_bit_of_1)

lemma lowest_dvd: "lowest w n \<Longrightarrow> 2 ^ n dvd unat (w :: u64)"
proof -
  assume "lowest w n"
  then have "take_bit n (unat w) = 0"
    by (intro bit_eqI) (auto simp: lowest_def bit_take_bit_iff bit_unsigned_iff)
  then show ?thesis by (simp add: take_bit_eq_0_iff)
qed

lemma pages_order_ok:
  assumes "start < en" "unat en + 2 ^ 10 < 2 ^ 64" "o1 \<le> 10"
  shows "\<exists>k\<le>o1. free_pages_order start en o1 = Some k \<and> unat start + 2 ^ k \<le> unat en"
  using assms(3)
proof (induction o1)
  have lt: "unat start < unat en" using assms(1) by (simp add: word_less_nat_alt)
  case 0
  have "unat (start + 1) = unat start + 1" using unat_add_push [of start 0] lt assms(2) by simp
  then have "\<not> start + 1 > en" using lt by (simp add: word_less_nat_alt)
  then show ?case using lt by simp
next
  case (Suc n)
  have lt: "unat start < unat en" using assms(1) by (simp add: word_less_nat_alt)
  have "(2 :: nat) ^ Suc n \<le> 2 ^ 10" using Suc.prems by (intro power_increasing) auto
  then have "unat start + 2 ^ Suc n < 2 ^ 64" using lt assms(2) by linarith
  then have "unat (start + push_bit (Suc n) 1) = unat start + 2 ^ Suc n" using Suc.prems by (intro unat_add_push) auto
  then have "start + push_bit (Suc n) 1 > en \<longleftrightarrow> \<not> unat start + 2 ^ Suc n \<le> unat en"
    by (simp add: word_less_nat_alt not_le del: push_bit_of_1)
  then show ?case using Suc by (auto simp del: push_bit_of_1 intro: le_SucI)
qed

lemma pages_memory_ok:
  assumes "unat en + 2 ^ 10 < 2 ^ 64" "start \<le> en"
  shows "\<exists>bs. free_pages_memory start en = Some bs \<and> frames bs = [unat start ..< unat en] \<and> (\<forall>b\<in>set bs. buddy_block b)"
  using assms(2)
proof (induction "unat en - unat start" arbitrary: start rule: less_induct)
  case less
  show ?case
  proof (cases "start < en")
    case True
    let ?o = "min (MAX_ORDER - 1) (ffs_word start)"
    have lt: "unat start < unat en" using True by (simp add: word_less_nat_alt)
    have "?o \<le> 10" by (simp add: MAX_ORDER_def)
    from pages_order_ok [OF True assms(1) this] obtain k where
      k: "k \<le> ?o" "free_pages_order start en ?o = Some k" "unat start + 2 ^ k \<le> unat en" by blast
    have u: "unat (start + push_bit k 1) = unat start + 2 ^ k"
      using k assms(1) by (intro unat_add_push) (auto simp: MAX_ORDER_def)
    have "2 ^ ffs_word start dvd unat start"
      using lowest_dvd [OF ffs_word_lowest, of start] by (cases "start = 0") auto
    then have "2 ^ k dvd unat start" using k(1) by (meson dvd_trans le_imp_power_dvd min.boundedE)
    then have b: "buddy_block (start, k)" using k(1) by (auto simp: buddy_block_def MAX_ORDER_def)
    have "start + push_bit k 1 \<le> en" using k(3) u by (simp add: word_le_nat_alt)
    moreover have "unat en - unat (start + push_bit k 1) < unat en - unat start"
      using u lt by (simp del: push_bit_of_1) (meson diff_less_mono2 less_add_same_cancel1 lt zero_less_numeral zero_less_power)
    ultimately obtain bs where bs: "free_pages_memory (start + push_bit k 1) en = Some bs"
      "frames bs = [unat (start + push_bit k 1) ..< unat en]" "\<forall>b\<in>set bs. buddy_block b"
      using less.hyps by blast
    have "[unat start ..< unat en] = [unat start ..< unat start + 2 ^ k] @ [unat start + 2 ^ k ..< unat en]"
      using upt_add_eq_append [of "unat start" "unat start + 2 ^ k" "unat en - unat start - 2 ^ k"] k(3) by simp
    then have "frames ((start, k) # bs) = [unat start ..< unat en]" using bs(2) u by (simp add: frames_def)
    moreover have "free_pages_memory start en = Some ((start, k) # bs)"
      using True k(2) bs(1) by (subst free_pages_memory.simps) simp
    ultimately show ?thesis using b bs(3) by (intro exI [of _ "(start, k) # bs"]) simp
  next
    case False
    then have "start = en" using less.prems by simp
    then show ?thesis by (subst free_pages_memory.simps) (simp add: frames_def)
  qed
qed

subsection \<open>Counting the pages\<close>

definition page_count :: "u64 \<Rightarrow> phys_addr_t \<times> phys_addr_t \<Rightarrow> u64" where
  "page_count max_low_pfn r =
     of_nat (card {pfn. unat (PFN_UP (fst r)) \<le> pfn \<and> pfn < unat (PFN_DOWN (snd r)) \<and> pfn < unat max_low_pfn})"

lemma PFN_DOWN_le: "unat (PFN_DOWN x) < 2 ^ 32"
proof -
  have "unat (PFN_DOWN x) = unat (drop_bit PAGE_SHIFT x)"
    by (simp add: PFN_DOWN_def unsigned_ucast_eq take_bit_nat_eq_self less_trans [OF unsigned_less])
  also have "\<dots> < 2 ^ 32" using unsigned_less [of "drop_bit PAGE_SHIFT x", where 'a = nat] by simp
  finally show ?thesis .
qed

lemma free_memory_core_ok: "free_memory_core mlp s e = Some (page_count mlp (s, e))"
proof -
  define a b where "a = PFN_UP s" and "b = min (PFN_DOWN e) mlp"
  have "{pfn. unat a \<le> pfn \<and> pfn < unat (PFN_DOWN e) \<and> pfn < unat mlp} = {unat a ..< unat b}"
    by (auto simp: b_def min_def word_le_nat_alt)
  then have pc: "page_count mlp (s, e) = of_nat (unat b - unat a)" by (simp add: page_count_def a_def)
  have core: "free_memory_core mlp s e = (if a \<ge> b then Some 0 else do { _ \<leftarrow> free_pages_memory a b; Some (b - a) })"
    unfolding free_memory_core_def Let_def a_def b_def ..
  have "b \<le> PFN_DOWN e" by (simp add: b_def)
  then have "unat b < 2 ^ 32" using PFN_DOWN_le [of e] unfolding word_le_nat_alt by linarith
  then have "unat b + 2 ^ 10 < 2 ^ 64" by simp
  note ok = pages_memory_ok [OF this, of a]
  show ?thesis
  proof (cases "a \<ge> b")
    case True
    then show ?thesis by (simp add: core pc word_le_nat_alt)
  next
    case False
    then have le: "a \<le> b" by simp
    then have "of_nat (unat b - unat a) = b - a" by (simp flip: unat_sub)
    then show ?thesis using ok [OF le] False by (auto simp: core pc)
  qed
qed

text \<open>Running a body that never leaves the loop is folding over the ranges that \<open>collect\<close> gathers.\<close>

lemma for_each_fold:
  assumes "for_each_range fuel nxt collect rs i = Some (Inr rs')"
  shows "\<exists>new. rs' = rs @ new \<and>
    for_each_range fuel nxt (\<lambda>acc s e. Inr (f acc s e) :: unit + 'b) acc i = Some (Inr (fold (\<lambda>(s, e) acc. f acc s e) new acc))"
  using assms
proof (induction fuel arbitrary: rs i acc)
  case (Suc fuel)
  obtain i' out where n: "nxt i = Some (i', out)" using Suc.prems by (auto split: bind_splits)
  show ?case
  proof (cases "i' = ULLONG_MAX")
    case True
    then show ?thesis using Suc.prems n by simp
  next
    case False
    then obtain s e z where out: "out = Some (s, e, z)" using Suc.prems n by (auto split: bind_splits)
    then have "for_each_range fuel nxt collect (rs @ [(s, e)]) i' = Some (Inr rs')"
      using Suc.prems n False by (simp add: collect_def [of rs s e])
    from Suc.IH [OF this, of "f acc s e"] obtain new where "rs' = (rs @ [(s, e)]) @ new"
      "for_each_range fuel nxt (\<lambda>acc s e. Inr (f acc s e) :: unit + 'b) (f acc s e) i' = Some (Inr (fold (\<lambda>(s, e) acc. f acc s e) new (f acc s e)))"
      by blast
    then show ?thesis using n False out by (intro exI [of _ "(s, e) # new"]) simp
  qed
qed simp

lemma fold_counts:
  "fold (\<lambda>(s, e) acc. do { c \<leftarrow> acc; n \<leftarrow> free_memory_core mlp s e; Some (c + n) }) rs (Some c) =
     Some (c + sum_list (map (page_count mlp) rs))"
  by (induction rs arbitrary: c) (auto simp: free_memory_core_ok algebra_simps)

lemma free_all_count:
  assumes "memblock_inv m" "t_cnt (mb_memory m) + 2 \<le> t_max (mb_memory m)"
  shows "\<exists>rs t. memblock_free_all d m = Some (sum_list (map (page_count (mb_max_low_pfn m)) rs), True, m\<lparr>mb_memory := t\<rparr>) \<and>
    memblock_inv (m\<lparr>mb_memory := t\<rparr>) \<and> dom (attr (live t)) = dom (table_map Memory m) \<and>
    covered rs = {x. (\<exists>r\<in>set (live t). \<not> should_skip_region r (node_of NUMA_NO_NODE) MEMBLOCK_NONE \<and> in_region r x) \<and>
      table_map Reserved m x = None}"
proof -
  from setclr_flag_ok [OF assms, of 0 "- 1" False MEMBLOCK_HOTPLUG] obtain t where
    t: "memblock_clear_hotplug 0 (- 1) m = Some (0, m\<lparr>mb_memory := t\<rparr>)" "memblock_inv (m\<lparr>mb_memory := t\<rparr>)"
      "table_map Memory (m\<lparr>mb_memory := t\<rparr>) = (\<lambda>x. if 0 \<le> x \<and> x < range_end 0 (- 1)
        then map_option (\<lambda>(f, n). (if False then f OR MEMBLOCK_HOTPLUG else f AND NOT MEMBLOCK_HOTPLUG, n)) (table_map Memory m x)
        else table_map Memory m x)"
    unfolding memblock_clear_hotplug_def by blast
  let ?m = "m\<lparr>mb_memory := t\<rparr>" let ?nxt = "next_mem_range NUMA_NO_NODE MEMBLOCK_NONE (mb_memory ?m) (Some (mb_reserved ?m))"
  obtain rs where rs: "for_each_range (range_fuel ?m) ?nxt collect [] 0 = Some (Inr rs)"
    "covered rs = {x. (\<exists>r\<in>set (live t). \<not> should_skip_region r (node_of NUMA_NO_NODE) MEMBLOCK_NONE \<and> in_region r x) \<and>
      table_map Reserved ?m x = None}"
    using free_ranges [OF t(2), of NUMA_NO_NODE MEMBLOCK_NONE] by auto
  from for_each_fold [OF rs(1), of "\<lambda>c s e. do { c \<leftarrow> c; n \<leftarrow> free_memory_core (mb_max_low_pfn m) s e; Some (c + n) }" "Some 0"]
  have "for_each_range (range_fuel ?m) ?nxt (add_free_range (mb_max_low_pfn m)) (Some 0) 0 =
      Some (Inr (Some (sum_list (map (page_count (mb_max_low_pfn m)) rs))))"
    unfolding add_free_range_def fold_counts by simp
  then have "memblock_free_all d m = Some (sum_list (map (page_count (mb_max_low_pfn m)) rs), True, ?m)"
    using t(1) by (simp add: memblock_free_all_def free_low_memory_core_early_def reset_all_zones_managed_pages_def)
  moreover have "dom (attr (live t)) = dom (table_map Memory m)"
    using t(3) by (auto simp: table_map_def fun_eq_iff dom_def split: if_splits)
  ultimately show ?thesis using t(2) rs(2) by (intro exI [of _ rs] exI [of _ t]) (simp add: table_map_def)
qed

subsection \<open>Properties\<close>

text \<open>C28. \<open>__free_pages_memory\<close> returns for every range of page frames of the physical address space, and the
  blocks it steps over tile the range from left to right: every frame is in exactly one block,
  every block has an order below \<^verbatim>\<open>MAX_ORDER\<close> and starts at a multiple of its size.\<close>

theorem free_pages_memory_tiles:
  assumes "start \<le> en" "unat en < 2 ^ 52"
  shows "\<exists>bs. free_pages_memory start en = Some bs \<and> frames bs = [unat start ..< unat en] \<and>
    (\<forall>(s, k)\<in>set bs. k < MAX_ORDER \<and> 2 ^ k dvd unat s)"
proof -
  have "unat en + 2 ^ 10 < 2 ^ 64" using assms(2) by simp
  from pages_memory_ok [OF this assms(1)] show ?thesis by (simp add: buddy_block_def split_beta)
qed

theorem free_pages_memory_tiles_witness:
  "\<exists>bs. free_pages_memory 5 32 = Some bs \<and> frames bs = [unat (5 :: u64) ..< unat (32 :: u64)] \<and>
    (\<forall>(s, k)\<in>set bs. k < MAX_ORDER \<and> 2 ^ k dvd unat s)"
  by (rule free_pages_memory_tiles) simp_all



end
