(* ===== verification/Bitmap.thy ===== *)
theory Bitmap
  imports Bitops
begin

section \<open>Bitmaps\<close>

text \<open>
  Bitmaps as arrays of \<^verbatim>\<open>unsigned long\<close>: the single-bit operations of
  \<^verbatim>\<open>include/asm-generic/bitops\<close>, the searches of \<^verbatim>\<open>lib/find_bit.c\<close> and the set operations of
  \<^verbatim>\<open>lib/bitmap.c\<close> and \<^verbatim>\<open>include/linux/bitmap.h\<close>. Bit numbers and sizes are natural numbers: a bitmap
  of that many bits exists in memory, so the sums of the source do not wrap. An access outside
  the array is \<open>None\<close>. The functions that the compiler may specialise for a constant size take
  the value of \<^verbatim>\<open>__builtin_constant_p\<close> as their first argument. Where a destination may be one of the
  operands, every word is read before it is written and never read again, so passing the
  operands by value is faithful.
\<close>

type_synonym bitmap = "u64 list"

subsection \<open>Masks\<close>

definition BIT_WORD :: "nat \<Rightarrow> nat" where "BIT_WORD nr = nr div BITS_PER_LONG"

definition BIT_MASK :: "nat \<Rightarrow> u64" where "BIT_MASK nr = push_bit (nr mod BITS_PER_LONG) 1"

definition BITS_TO_LONGS :: "nat \<Rightarrow> nat" where
  "BITS_TO_LONGS nr = (nr + BITS_PER_LONG - 1) div BITS_PER_LONG"

definition BITMAP_FIRST_WORD_MASK :: "nat \<Rightarrow> u64" where
  "BITMAP_FIRST_WORD_MASK start = push_bit (start mod BITS_PER_LONG) (NOT 0)"

definition BITMAP_LAST_WORD_MASK :: "nat \<Rightarrow> u64" where
  "BITMAP_LAST_WORD_MASK nbits =
     (if nbits mod BITS_PER_LONG \<noteq> 0 then push_bit (nbits mod BITS_PER_LONG) 1 - 1 else NOT 0)"

definition GENMASK :: "nat \<Rightarrow> nat \<Rightarrow> u64" where
  "GENMASK h l = (NOT 0 - push_bit l 1 + 1) AND drop_bit (BITS_PER_LONG - 1 - h) (NOT 0)"

text \<open>\<^verbatim>\<open>small_const_nbits\<close> is defined twice: the inline functions in the first part of \<^verbatim>\<open>bitmap.h\<close> use the
  definition that also accepts 0.\<close>

definition small_const_nbits0 :: "bool \<Rightarrow> nat \<Rightarrow> bool" where
  "small_const_nbits0 const nbits \<longleftrightarrow> const \<and> nbits \<le> BITS_PER_LONG"

definition small_const_nbits :: "bool \<Rightarrow> nat \<Rightarrow> bool" where
  "small_const_nbits const nbits \<longleftrightarrow> const \<and> nbits \<le> BITS_PER_LONG \<and> nbits > 0"

subsection \<open>Single bits\<close>

definition test_bit :: "nat \<Rightarrow> bitmap \<Rightarrow> bool option" where
  "test_bit nr addr = do {
     w \<leftarrow> arr_get addr (BIT_WORD nr);
     Some (1 AND drop_bit (nr mod BITS_PER_LONG) w \<noteq> 0) }"

definition set_bit_nonatomic :: "nat \<Rightarrow> bitmap \<Rightarrow> bitmap option" where
  "set_bit_nonatomic nr addr = do { w \<leftarrow> arr_get addr (BIT_WORD nr); arr_set addr (BIT_WORD nr) (w OR BIT_MASK nr) }"

definition clear_bit_nonatomic :: "nat \<Rightarrow> bitmap \<Rightarrow> bitmap option" where
  "clear_bit_nonatomic nr addr = do { w \<leftarrow> arr_get addr (BIT_WORD nr); arr_set addr (BIT_WORD nr) (w AND NOT (BIT_MASK nr)) }"

definition change_bit_nonatomic :: "nat \<Rightarrow> bitmap \<Rightarrow> bitmap option" where
  "change_bit_nonatomic nr addr = do { w \<leftarrow> arr_get addr (BIT_WORD nr); arr_set addr (BIT_WORD nr) (w XOR BIT_MASK nr) }"

definition set_bit_atomic :: "nat \<Rightarrow> bitmap \<Rightarrow> bitmap option" where
  "set_bit_atomic nr addr = do {
     w \<leftarrow> arr_get addr (nr div 64);
     arr_set addr (nr div 64) (w OR push_bit (nr mod 64) 1) }"

definition clear_bit_atomic :: "nat \<Rightarrow> bitmap \<Rightarrow> bitmap option" where
  "clear_bit_atomic nr addr = do {
     w \<leftarrow> arr_get addr (nr div 64);
     arr_set addr (nr div 64) (w AND NOT (push_bit (nr mod 64) 1)) }"

definition test_and_set_bit :: "nat \<Rightarrow> bitmap \<Rightarrow> (bool \<times> bitmap) option" where
  "test_and_set_bit nr addr = do {
     old \<leftarrow> arr_get addr (BIT_WORD nr);
     addr' \<leftarrow> arr_set addr (BIT_WORD nr) (old OR BIT_MASK nr);
     Some (old AND BIT_MASK nr \<noteq> 0, addr') }"

definition test_and_clear_bit :: "nat \<Rightarrow> bitmap \<Rightarrow> (bool \<times> bitmap) option" where
  "test_and_clear_bit nr addr = do {
     old \<leftarrow> arr_get addr (BIT_WORD nr);
     addr' \<leftarrow> arr_set addr (BIT_WORD nr) (old AND NOT (BIT_MASK nr));
     Some (old AND BIT_MASK nr \<noteq> 0, addr') }"

definition test_and_set_bit_nonatomic :: "nat \<Rightarrow> bitmap \<Rightarrow> (bool \<times> bitmap) option" where
  "test_and_set_bit_nonatomic nr addr = do {
     old \<leftarrow> arr_get addr (BIT_WORD nr);
     addr' \<leftarrow> arr_set addr (BIT_WORD nr) (old OR BIT_MASK nr);
     Some (old AND BIT_MASK nr \<noteq> 0, addr') }"

definition test_and_clear_bit_nonatomic :: "nat \<Rightarrow> bitmap \<Rightarrow> (bool \<times> bitmap) option" where
  "test_and_clear_bit_nonatomic nr addr = do {
     old \<leftarrow> arr_get addr (BIT_WORD nr);
     addr' \<leftarrow> arr_set addr (BIT_WORD nr) (old AND NOT (BIT_MASK nr));
     Some (old AND BIT_MASK nr \<noteq> 0, addr') }"

definition test_and_change_bit_nonatomic :: "nat \<Rightarrow> bitmap \<Rightarrow> (bool \<times> bitmap) option" where
  "test_and_change_bit_nonatomic nr addr = do {
     old \<leftarrow> arr_get addr (BIT_WORD nr);
     addr' \<leftarrow> arr_set addr (BIT_WORD nr) (old XOR BIT_MASK nr);
     Some (old AND BIT_MASK nr \<noteq> 0, addr') }"

subsection \<open>Searches\<close>

text \<open>The word that \<^verbatim>\<open>_find_next_bit\<close> looks at: combined with the second map and inverted on request.\<close>

definition fetch_word :: "bitmap \<Rightarrow> bitmap option \<Rightarrow> u64 \<Rightarrow> nat \<Rightarrow> u64 option" where
  "fetch_word addr1 addr2 invert i = do {
     tmp \<leftarrow> arr_get addr1 i;
     tmp \<leftarrow> (case addr2 of None \<Rightarrow> Some tmp | Some a \<Rightarrow> do { w \<leftarrow> arr_get a i; Some (tmp AND w) });
     Some (tmp XOR invert) }"

function find_next_bit_loop :: "bitmap \<Rightarrow> bitmap option \<Rightarrow> nat \<Rightarrow> u64 \<Rightarrow> nat \<Rightarrow> u64 \<Rightarrow> nat option" where
  "find_next_bit_loop addr1 addr2 nbits invert start tmp =
     (if tmp = 0 then
        if start + BITS_PER_LONG \<ge> nbits then Some nbits
        else do {
          tmp \<leftarrow> fetch_word addr1 addr2 invert ((start + BITS_PER_LONG) div BITS_PER_LONG);
          find_next_bit_loop addr1 addr2 nbits invert (start + BITS_PER_LONG) tmp }
      else Some (min (start + ffs_word tmp) nbits))"
  by pat_completeness auto
termination
  by (relation "measure (\<lambda>(_, _, nbits, _, start, _). nbits - start)") (auto simp: BITS_PER_LONG_def)

definition find_next_bit_common :: "bitmap \<Rightarrow> bitmap option \<Rightarrow> nat \<Rightarrow> nat \<Rightarrow> u64 \<Rightarrow> nat option" where
  "find_next_bit_common addr1 addr2 nbits start invert =
     (if start \<ge> nbits then Some nbits
      else do {
        tmp \<leftarrow> fetch_word addr1 addr2 invert (start div BITS_PER_LONG);
        find_next_bit_loop addr1 addr2 nbits invert (start - start mod BITS_PER_LONG)
          (tmp AND BITMAP_FIRST_WORD_MASK start) })"

definition find_next_bit :: "bool \<Rightarrow> bitmap \<Rightarrow> nat \<Rightarrow> nat \<Rightarrow> nat option" where
  "find_next_bit const addr sz offset =
     (if small_const_nbits const sz then
        if offset \<ge> sz then Some sz
        else do {
          w \<leftarrow> arr_get addr 0;
          let val = w AND GENMASK (sz - 1) offset;
          Some (if val \<noteq> 0 then ffs_word val else sz) }
      else find_next_bit_common addr None sz offset 0)"

definition find_next_zero_bit :: "bool \<Rightarrow> bitmap \<Rightarrow> nat \<Rightarrow> nat \<Rightarrow> nat option" where
  "find_next_zero_bit const addr sz offset =
     (if small_const_nbits const sz then
        if offset \<ge> sz then Some sz
        else do {
          w \<leftarrow> arr_get addr 0;
          let val = w OR NOT (GENMASK (sz - 1) offset);
          Some (if val = NOT 0 then sz else ffz val) }
      else find_next_bit_common addr None sz offset (NOT 0))"

definition find_next_and_bit :: "bool \<Rightarrow> bitmap \<Rightarrow> bitmap \<Rightarrow> nat \<Rightarrow> nat \<Rightarrow> nat option" where
  "find_next_and_bit const addr1 addr2 sz offset =
     (if small_const_nbits const sz then
        if offset \<ge> sz then Some sz
        else do {
          v \<leftarrow> arr_get addr1 0;
          w \<leftarrow> arr_get addr2 0;
          let val = v AND w AND GENMASK (sz - 1) offset;
          Some (if val \<noteq> 0 then ffs_word val else sz) }
      else find_next_bit_common addr1 (Some addr2) sz offset 0)"

function find_first_bit_loop :: "bitmap \<Rightarrow> nat \<Rightarrow> nat \<Rightarrow> nat option" where
  "find_first_bit_loop addr sz idx =
     (if idx * BITS_PER_LONG < sz then do {
        w \<leftarrow> arr_get addr idx;
        if w \<noteq> 0 then Some (min (idx * BITS_PER_LONG + ffs_word w) sz)
        else find_first_bit_loop addr sz (idx + 1) }
      else Some sz)"
  by pat_completeness auto
termination
  by (relation "measure (\<lambda>(_, sz, idx). sz - idx)") (auto simp: BITS_PER_LONG_def)

definition find_first_bit :: "bitmap \<Rightarrow> nat \<Rightarrow> nat option" where
  "find_first_bit addr sz = find_first_bit_loop addr sz 0"

function find_first_zero_bit_loop :: "bitmap \<Rightarrow> nat \<Rightarrow> nat \<Rightarrow> nat option" where
  "find_first_zero_bit_loop addr sz idx =
     (if idx * BITS_PER_LONG < sz then do {
        w \<leftarrow> arr_get addr idx;
        if w \<noteq> NOT 0 then Some (min (idx * BITS_PER_LONG + ffz w) sz)
        else find_first_zero_bit_loop addr sz (idx + 1) }
      else Some sz)"
  by pat_completeness auto
termination
  by (relation "measure (\<lambda>(_, sz, idx). sz - idx)") (auto simp: BITS_PER_LONG_def)

definition find_first_zero_bit :: "bitmap \<Rightarrow> nat \<Rightarrow> nat option" where
  "find_first_zero_bit addr sz = find_first_zero_bit_loop addr sz 0"

text \<open>\<^verbatim>\<open>do ... while (idx--)\<close>: the body runs for \<open>idx\<close>, \<open>idx - 1\<close>, ..., 0.\<close>

fun find_last_bit_loop :: "bitmap \<Rightarrow> nat \<Rightarrow> u64 \<Rightarrow> nat \<Rightarrow> nat option" where
  "find_last_bit_loop addr sz val idx = do {
     w \<leftarrow> arr_get addr idx;
     if val AND w \<noteq> 0 then Some (idx * BITS_PER_LONG + fls_word (val AND w))
     else case idx of 0 \<Rightarrow> Some sz | Suc i \<Rightarrow> find_last_bit_loop addr sz (NOT 0) i }"

definition find_last_bit :: "bitmap \<Rightarrow> nat \<Rightarrow> nat option" where
  "find_last_bit addr sz =
     (if sz \<noteq> 0 then find_last_bit_loop addr sz (BITMAP_LAST_WORD_MASK sz) ((sz - 1) div BITS_PER_LONG)
      else Some sz)"

declare find_next_bit_loop.simps [simp del] find_first_bit_loop.simps [simp del]
  find_first_zero_bit_loop.simps [simp del] find_last_bit_loop.simps [simp del]

subsection \<open>Comparing and counting\<close>

text \<open>The loops over the whole words. \<open>all_words p lim k\<close> runs \<^verbatim>\<open>for (; k < lim; k++)\<close> and stops at the first
  pair of words that does not satisfy \<open>p\<close>.\<close>

function all_words :: "(u64 \<Rightarrow> u64 \<Rightarrow> bool) \<Rightarrow> nat \<Rightarrow> nat \<Rightarrow> bitmap \<Rightarrow> bitmap \<Rightarrow> bool option" where
  "all_words p lim k bitmap1 bitmap2 =
     (if k < lim then do {
        x \<leftarrow> arr_get bitmap1 k;
        y \<leftarrow> arr_get bitmap2 k;
        if p x y then all_words p lim (k + 1) bitmap1 bitmap2 else Some False }
      else Some True)"
  by pat_completeness auto
termination
  by (relation "measure (\<lambda>(_, lim, k, _, _). lim - k)") auto

text \<open>The test of the last word, where the size is not a multiple of the word size.\<close>

definition last_word :: "(u64 \<Rightarrow> u64 \<Rightarrow> u64) \<Rightarrow> nat \<Rightarrow> bitmap \<Rightarrow> bitmap \<Rightarrow> bool option" where
  "last_word f bits bitmap1 bitmap2 =
     (if bits mod BITS_PER_LONG \<noteq> 0 then do {
        x \<leftarrow> arr_get bitmap1 (bits div BITS_PER_LONG);
        y \<leftarrow> arr_get bitmap2 (bits div BITS_PER_LONG);
        Some (f x y AND BITMAP_LAST_WORD_MASK bits \<noteq> 0) }
      else Some False)"

definition bitmap_equal_words :: "bitmap \<Rightarrow> bitmap \<Rightarrow> nat \<Rightarrow> bool option" where
  "bitmap_equal_words bitmap1 bitmap2 bits = do {
     eq \<leftarrow> all_words (=) (bits div BITS_PER_LONG) 0 bitmap1 bitmap2;
     if \<not> eq then Some False
     else do { differ \<leftarrow> last_word (XOR) bits bitmap1 bitmap2; Some (\<not> differ) } }"

definition bitmap_intersects_words :: "bitmap \<Rightarrow> bitmap \<Rightarrow> nat \<Rightarrow> bool option" where
  "bitmap_intersects_words bitmap1 bitmap2 bits = do {
     none \<leftarrow> all_words (\<lambda>x y. x AND y = 0) (bits div BITS_PER_LONG) 0 bitmap1 bitmap2;
     if \<not> none then Some True else last_word (AND) bits bitmap1 bitmap2 }"

definition bitmap_subset_words :: "bitmap \<Rightarrow> bitmap \<Rightarrow> nat \<Rightarrow> bool option" where
  "bitmap_subset_words bitmap1 bitmap2 bits = do {
     sub \<leftarrow> all_words (\<lambda>x y. x AND NOT y = 0) (bits div BITS_PER_LONG) 0 bitmap1 bitmap2;
     if \<not> sub then Some False
     else do { outside \<leftarrow> last_word (\<lambda>x y. x AND NOT y) bits bitmap1 bitmap2; Some (\<not> outside) } }"

function weight_loop :: "bitmap \<Rightarrow> nat \<Rightarrow> nat \<Rightarrow> nat \<Rightarrow> nat option" where
  "weight_loop bitmap lim k w =
     (if k < lim then do { x \<leftarrow> arr_get bitmap k; weight_loop bitmap lim (k + 1) (w + hweight_long x) }
      else Some w)"
  by pat_completeness auto
termination
  by (relation "measure (\<lambda>(_, lim, k, _). lim - k)") auto

definition bitmap_weight_words :: "bitmap \<Rightarrow> nat \<Rightarrow> nat option" where
  "bitmap_weight_words bitmap bits = do {
     w \<leftarrow> weight_loop bitmap (bits div BITS_PER_LONG) 0 0;
     if bits mod BITS_PER_LONG \<noteq> 0 then do {
       x \<leftarrow> arr_get bitmap (bits div BITS_PER_LONG);
       Some (w + hweight_long (x AND BITMAP_LAST_WORD_MASK bits)) }
     else Some w }"

declare all_words.simps [simp del] weight_loop.simps [simp del]

subsection \<open>Combining\<close>

text \<open>\<^verbatim>\<open>for (; k < lim; k++) result |= (dst[k] = f(bitmap1[k], bitmap2[k]))\<close>.\<close>

function combine_loop ::
  "(u64 \<Rightarrow> u64 \<Rightarrow> u64) \<Rightarrow> nat \<Rightarrow> nat \<Rightarrow> u64 \<Rightarrow> bitmap \<Rightarrow> bitmap \<Rightarrow> bitmap \<Rightarrow> (u64 \<times> bitmap) option" where
  "combine_loop f lim k result bitmap1 bitmap2 dst =
     (if k < lim then do {
        x \<leftarrow> arr_get bitmap1 k;
        y \<leftarrow> arr_get bitmap2 k;
        dst' \<leftarrow> arr_set dst k (f x y);
        combine_loop f lim (k + 1) (result OR f x y) bitmap1 bitmap2 dst' }
      else Some (result, dst))"
  by pat_completeness auto
termination
  by (relation "measure (\<lambda>(_, lim, k, _, _, _, _). lim - k)") auto

declare combine_loop.simps [simp del]

definition combine_masked ::
  "(u64 \<Rightarrow> u64 \<Rightarrow> u64) \<Rightarrow> bitmap \<Rightarrow> bitmap \<Rightarrow> bitmap \<Rightarrow> nat \<Rightarrow> (bool \<times> bitmap) option" where
  "combine_masked f dst bitmap1 bitmap2 bits = do {
     (result, dst) \<leftarrow> combine_loop f (bits div BITS_PER_LONG) 0 0 bitmap1 bitmap2 dst;
     if bits mod BITS_PER_LONG \<noteq> 0 then do {
       let k = bits div BITS_PER_LONG;
       x \<leftarrow> arr_get bitmap1 k;
       y \<leftarrow> arr_get bitmap2 k;
       let w = f x y AND BITMAP_LAST_WORD_MASK bits;
       dst \<leftarrow> arr_set dst k w;
       Some (result OR w \<noteq> 0, dst) }
     else Some (result \<noteq> 0, dst) }"

definition bitmap_and_words :: "bitmap \<Rightarrow> bitmap \<Rightarrow> bitmap \<Rightarrow> nat \<Rightarrow> (bool \<times> bitmap) option" where
  "bitmap_and_words dst bitmap1 bitmap2 bits = combine_masked (AND) dst bitmap1 bitmap2 bits"

definition bitmap_andnot_words :: "bitmap \<Rightarrow> bitmap \<Rightarrow> bitmap \<Rightarrow> nat \<Rightarrow> (bool \<times> bitmap) option" where
  "bitmap_andnot_words dst bitmap1 bitmap2 bits = combine_masked (\<lambda>x y. x AND NOT y) dst bitmap1 bitmap2 bits"

definition bitmap_or_words :: "bitmap \<Rightarrow> bitmap \<Rightarrow> bitmap \<Rightarrow> nat \<Rightarrow> bitmap option" where
  "bitmap_or_words dst bitmap1 bitmap2 bits = do {
     (_, dst) \<leftarrow> combine_loop (OR) (BITS_TO_LONGS bits) 0 0 bitmap1 bitmap2 dst;
     Some dst }"

subsection \<open>Clearing a range\<close>

text \<open>\<^verbatim>\<open>bits_to_clear\<close> is always positive: it starts at \<^verbatim>\<open>BITS_PER_LONG - start % BITS_PER_LONG\<close> and is
  \<^verbatim>\<open>BITS_PER_LONG\<close> afterwards.\<close>

function bitmap_clear_loop :: "int \<Rightarrow> int \<Rightarrow> u64 \<Rightarrow> nat \<Rightarrow> bitmap \<Rightarrow> (int \<times> u64 \<times> nat \<times> bitmap) option" where
  "bitmap_clear_loop len bits_to_clear mask_to_clear p bm =
     (if len - bits_to_clear \<ge> 0 \<and> bits_to_clear > 0 then do {
        w \<leftarrow> arr_get bm p;
        bm \<leftarrow> arr_set bm p (w AND NOT mask_to_clear);
        bitmap_clear_loop (len - bits_to_clear) (int BITS_PER_LONG) (NOT 0) (p + 1) bm }
      else Some (len, mask_to_clear, p, bm))"
  by pat_completeness auto
termination
  by (relation "measure (\<lambda>(len, b, _, _, _). nat len)") auto

declare bitmap_clear_loop.simps [simp del]

definition bitmap_clear :: "bitmap \<Rightarrow> nat \<Rightarrow> int \<Rightarrow> bitmap option" where
  "bitmap_clear bm start len = do {
     let sz = nat ((int start + len) mod 2 ^ 32);
     (len, mask_to_clear, p, bm) \<leftarrow> bitmap_clear_loop len (int (BITS_PER_LONG - start mod BITS_PER_LONG))
       (BITMAP_FIRST_WORD_MASK start) (BIT_WORD start) bm;
     if len \<noteq> 0 then do {
       w \<leftarrow> arr_get bm p;
       arr_set bm p (w AND NOT (mask_to_clear AND BITMAP_LAST_WORD_MASK sz)) }
     else Some bm }"

subsection \<open>The inline interface\<close>

text \<open>\<^verbatim>\<open>memset\<close> of the first \<open>n\<close> words and \<^verbatim>\<open>memcpy\<close> of \<open>n\<close> words.\<close>

definition set_words :: "nat \<Rightarrow> u64 \<Rightarrow> bitmap \<Rightarrow> bitmap option" where
  "set_words n v dst = (if n \<le> length dst then Some (replicate n v @ drop n dst) else None)"

definition bitmap_zero :: "bool \<Rightarrow> bitmap \<Rightarrow> nat \<Rightarrow> bitmap option" where
  "bitmap_zero const dst nbits =
     (if small_const_nbits0 const nbits then arr_set dst 0 0 else set_words (BITS_TO_LONGS nbits) 0 dst)"

definition bitmap_fill :: "bool \<Rightarrow> bitmap \<Rightarrow> nat \<Rightarrow> bitmap option" where
  "bitmap_fill const dst nbits = do {
     n \<leftarrow> count_diff (BITS_TO_LONGS nbits) 1;
     dst \<leftarrow> (if small_const_nbits0 const nbits then Some dst else set_words n (NOT 0) dst);
     arr_set dst n (BITMAP_LAST_WORD_MASK nbits) }"

definition bitmap_copy :: "bitmap \<Rightarrow> bitmap \<Rightarrow> nat \<Rightarrow> bitmap option" where
  "bitmap_copy dst src nbits =
     (let n = BITS_TO_LONGS nbits
      in if n \<le> length dst \<and> n \<le> length src then Some (take n src @ drop n dst) else None)"

definition bitmap_empty :: "bool \<Rightarrow> bitmap \<Rightarrow> nat \<Rightarrow> bool option" where
  "bitmap_empty const src nbits =
     (if small_const_nbits0 const nbits then do { w \<leftarrow> arr_get src 0; Some (w AND BITMAP_LAST_WORD_MASK nbits = 0) }
      else do { n \<leftarrow> find_first_bit src nbits; Some (n = nbits) })"

definition bitmap_full :: "bool \<Rightarrow> bitmap \<Rightarrow> nat \<Rightarrow> bool option" where
  "bitmap_full const src nbits =
     (if small_const_nbits0 const nbits then do { w \<leftarrow> arr_get src 0; Some (NOT w AND BITMAP_LAST_WORD_MASK nbits = 0) }
      else do { n \<leftarrow> find_first_zero_bit src nbits; Some (n = nbits) })"

definition bitmap_weight :: "bool \<Rightarrow> bitmap \<Rightarrow> nat \<Rightarrow> nat option" where
  "bitmap_weight const src nbits =
     (if small_const_nbits0 const nbits then do { w \<leftarrow> arr_get src 0; Some (hweight_long (w AND BITMAP_LAST_WORD_MASK nbits)) }
      else bitmap_weight_words src nbits)"

definition bitmap_or :: "bool \<Rightarrow> bitmap \<Rightarrow> bitmap \<Rightarrow> bitmap \<Rightarrow> nat \<Rightarrow> bitmap option" where
  "bitmap_or const dst src1 src2 nbits =
     (if small_const_nbits0 const nbits then do { x \<leftarrow> arr_get src1 0; y \<leftarrow> arr_get src2 0; arr_set dst 0 (x OR y) }
      else bitmap_or_words dst src1 src2 nbits)"

definition bitmap_and :: "bool \<Rightarrow> bitmap \<Rightarrow> bitmap \<Rightarrow> bitmap \<Rightarrow> nat \<Rightarrow> (bool \<times> bitmap) option" where
  "bitmap_and const dst src1 src2 nbits =
     (if small_const_nbits0 const nbits then do {
        x \<leftarrow> arr_get src1 0; y \<leftarrow> arr_get src2 0;
        let w = x AND y AND BITMAP_LAST_WORD_MASK nbits;
        dst \<leftarrow> arr_set dst 0 w;
        Some (w \<noteq> 0, dst) }
      else bitmap_and_words dst src1 src2 nbits)"

definition bitmap_andnot :: "bool \<Rightarrow> bitmap \<Rightarrow> bitmap \<Rightarrow> bitmap \<Rightarrow> nat \<Rightarrow> (bool \<times> bitmap) option" where
  "bitmap_andnot const dst src1 src2 nbits =
     (if small_const_nbits const nbits then do {
        x \<leftarrow> arr_get src1 0; y \<leftarrow> arr_get src2 0;
        let w = x AND NOT y AND BITMAP_LAST_WORD_MASK nbits;
        dst \<leftarrow> arr_set dst 0 w;
        Some (w \<noteq> 0, dst) }
      else bitmap_andnot_words dst src1 src2 nbits)"

text \<open>\<^verbatim>\<open>memcmp\<close> of the first \<open>n\<close> bytes, on a little-endian machine.\<close>

definition byte_at :: "bitmap \<Rightarrow> nat \<Rightarrow> u64 option" where
  "byte_at src j = do { w \<leftarrow> arr_get src (j div 8); Some (drop_bit (8 * (j mod 8)) w AND 0xff) }"

primrec memcmp_equal :: "bitmap \<Rightarrow> bitmap \<Rightarrow> nat \<Rightarrow> bool option" where
  "memcmp_equal src1 src2 0 = Some True"
| "memcmp_equal src1 src2 (Suc n) = do {
     eq \<leftarrow> memcmp_equal src1 src2 n;
     x \<leftarrow> byte_at src1 n;
     y \<leftarrow> byte_at src2 n;
     Some (eq \<and> x = y) }"

definition bitmap_equal :: "bool \<Rightarrow> bitmap \<Rightarrow> bitmap \<Rightarrow> nat \<Rightarrow> bool option" where
  "bitmap_equal const src1 src2 nbits =
     (if small_const_nbits const nbits then do {
        x \<leftarrow> arr_get src1 0; y \<leftarrow> arr_get src2 0;
        Some ((x XOR y) AND BITMAP_LAST_WORD_MASK nbits = 0) }
      else if const \<and> nbits mod 8 = 0 then memcmp_equal src1 src2 (nbits div 8)
      else bitmap_equal_words src1 src2 nbits)"

definition bitmap_intersects :: "bool \<Rightarrow> bitmap \<Rightarrow> bitmap \<Rightarrow> nat \<Rightarrow> bool option" where
  "bitmap_intersects const src1 src2 nbits =
     (if small_const_nbits const nbits then do {
        x \<leftarrow> arr_get src1 0; y \<leftarrow> arr_get src2 0;
        Some (x AND y AND BITMAP_LAST_WORD_MASK nbits \<noteq> 0) }
      else bitmap_intersects_words src1 src2 nbits)"

definition bitmap_subset :: "bool \<Rightarrow> bitmap \<Rightarrow> bitmap \<Rightarrow> nat \<Rightarrow> bool option" where
  "bitmap_subset const src1 src2 nbits =
     (if small_const_nbits const nbits then do {
        x \<leftarrow> arr_get src1 0; y \<leftarrow> arr_get src2 0;
        Some (x AND NOT y AND BITMAP_LAST_WORD_MASK nbits = 0) }
      else bitmap_subset_words src1 src2 nbits)"

end
