(* ===== verification/Bitmap_Correct.thy ===== *)
theory Bitmap_Correct
  imports Bitmap Bitops_Correct
begin

section \<open>Correctness of the bitmap operations\<close>

text \<open>
  A bitmap of \<open>n\<close> bits stands for the set of its members below \<open>n\<close>. The searches return the next
  member, the set operations refine intersection, union and difference, and the iteration
  macros visit the members in increasing order. The last fact is proved once, in the locale
  \<open>bit_iteration\<close>, for anything that has a search for the next member.
\<close>

subsection \<open>Members\<close>

definition bitset :: "nat \<Rightarrow> bitmap \<Rightarrow> nat set" where
  "bitset n ws = {i. i < n \<and> bit (ws ! (i div 64)) (i mod 64)}"

definition fits_bits :: "nat \<Rightarrow> bitmap \<Rightarrow> bool" where
  "fits_bits n ws \<longleftrightarrow> BITS_TO_LONGS n \<le> length ws"

definition next_in :: "nat set \<Rightarrow> nat \<Rightarrow> nat \<Rightarrow> nat" where
  "next_in S n lo = (if \<exists>j\<in>S. lo \<le> j then Min {j \<in> S. lo \<le> j} else n)"

lemma bitset_bound: "i \<in> bitset n ws \<Longrightarrow> i < n"
  by (simp add: bitset_def)

lemma finite_bitset [simp]: "finite (bitset n ws)"
  by (rule finite_subset [of _ "{..<n}"]) (auto simp: bitset_def)

lemma word_in_range: "fits_bits n ws \<Longrightarrow> i < n \<Longrightarrow> i div 64 < length ws"
  by (simp add: fits_bits_def BITS_TO_LONGS_def BITS_PER_LONG_def)

lemma next_inI:
  assumes "finite S" "m \<in> S" "lo \<le> m" "\<And>j. j \<in> S \<Longrightarrow> lo \<le> j \<Longrightarrow> m \<le> j"
  shows "next_in S n lo = m"
proof -
  have "Min {j \<in> S. lo \<le> j} = m" using assms by (intro Min_eqI) auto
  then show ?thesis using assms by (auto simp: next_in_def)
qed

lemma next_in_none: "(\<And>j. j \<in> S \<Longrightarrow> j < lo) \<Longrightarrow> next_in S n lo = n"
  by (auto simp: next_in_def dest: leD)

lemma next_in_cases:
  assumes "finite S"
  obtains (none) "next_in S n lo = n" "\<And>j. j \<in> S \<Longrightarrow> j < lo"
  | (some) "next_in S n lo \<in> S" "lo \<le> next_in S n lo" "\<And>j. j \<in> S \<Longrightarrow> lo \<le> j \<Longrightarrow> next_in S n lo \<le> j"
proof (cases "\<exists>j\<in>S. lo \<le> j")
  case True
  let ?T = "{j \<in> S. lo \<le> j}"
  have "finite ?T" "?T \<noteq> {}" using assms True by auto
  then have "Min ?T \<in> ?T" "\<And>j. j \<in> ?T \<Longrightarrow> Min ?T \<le> j" using Min_in Min_le by metis+
  then show ?thesis using True some by (auto simp: next_in_def)
next
  case False
  then have "next_in S n lo = n" by (simp add: next_in_def)
  then show ?thesis using none False by (meson leI)
qed

subsection \<open>Masks\<close>

lemma bit_FIRST_WORD_MASK: "bit (BITMAP_FIRST_WORD_MASK start) i \<longleftrightarrow> start mod 64 \<le> i \<and> i < 64"
  by (auto simp: BITMAP_FIRST_WORD_MASK_def BITS_PER_LONG_def bit_simps)

lemma bit_LAST_WORD_MASK: "bit (BITMAP_LAST_WORD_MASK n) i \<longleftrightarrow> i < 64 \<and> (n mod 64 \<noteq> 0 \<longrightarrow> i < n mod 64)"
proof -
  have "push_bit (n mod 64) (1 :: u64) - 1 = mask (n mod 64)" by (simp add: mask_eq_exp_minus_1)
  then show ?thesis by (auto simp: BITMAP_LAST_WORD_MASK_def BITS_PER_LONG_def bit_simps)
qed

lemma bit_GENMASK:
  assumes "h < 64" "l < 64" shows "bit (GENMASK h l) i \<longleftrightarrow> l \<le> i \<and> i \<le> h"
proof -
  have "NOT 0 - push_bit l 1 + 1 = (push_bit l (NOT 0) :: u64)" by (simp add: push_bit_eq_mult)
  then have "GENMASK h l = push_bit l (NOT 0) AND drop_bit (63 - h) (NOT 0)" by (simp add: GENMASK_def BITS_PER_LONG_def)
  then show ?thesis using assms by (auto simp: bit_simps)
qed

lemma word_nonzero_bit: "(w :: 'a::len word) \<noteq> 0 \<longleftrightarrow> (\<exists>b. bit w b)"
  using lowest_ex [of w] by (auto simp: lowest_def)

subsection \<open>Searching forwards\<close>

lemma find_loop_ok:
  assumes fetch: "\<And>j. j < BITS_TO_LONGS nbits \<Longrightarrow> fetch_word a1 a2 iv j = Some (W j)"
    and "64 dvd start" "start < nbits" "lo < start + 64"
    and tmp: "\<And>k. k < 64 \<Longrightarrow> bit tmp k \<longleftrightarrow> lo \<le> start + k \<and> bit (W (start div 64)) k"
    and none: "\<And>j. j < start \<Longrightarrow> lo \<le> j \<Longrightarrow> \<not> bit (W (j div 64)) (j mod 64)"
  shows "find_next_bit_loop a1 a2 nbits iv start tmp =
    Some (next_in {i. i < nbits \<and> bit (W (i div 64)) (i mod 64)} nbits lo)"
  using assms(2-)
proof (induction "nbits - start" arbitrary: start tmp rule: less_induct)
  case less
  let ?S = "{i. i < nbits \<and> bit (W (i div 64)) (i mod 64)}"
  have ge: "start \<le> j" if "j \<in> ?S" "lo \<le> j" for j using that less.prems(5) [of j] by (cases "j < start") auto
  have here: "bit tmp (j - start)" if "j \<in> ?S" "lo \<le> j" "j < start + 64" for j
  proof -
    from ge [OF that(1,2)] obtain k where k: "j = start + k" using le_Suc_ex by blast
    then have "j div 64 = start div 64" "j mod 64 = k" "k < 64"
      using that(3) less.prems(1) by (auto elim!: dvdE)
    then show ?thesis using less.prems(4) [of k] that k by auto
  qed
  show ?case
  proof (cases "tmp = 0")
    case True
    then have later: "start + 64 \<le> j" if "j \<in> ?S" "lo \<le> j" for j using here [OF that] by fastforce
    show ?thesis
    proof (cases "start + 64 \<ge> nbits")
      case True
      then have "next_in ?S nbits lo = nbits" using later by (intro next_in_none) fastforce
      then show ?thesis using True \<open>tmp = 0\<close> by (subst find_next_bit_loop.simps) (simp add: BITS_PER_LONG_def)
    next
      case False
      let ?j = "(start + 64) div 64"
      have "?j < BITS_TO_LONGS nbits" using False less.prems(1) by (auto simp: BITS_TO_LONGS_def BITS_PER_LONG_def elim!: dvdE)
      note f = fetch [OF this]
      have "find_next_bit_loop a1 a2 nbits iv (start + 64) (W ?j) = Some (next_in ?S nbits lo)"
      proof (rule less.hyps)
        show "bit (W ?j) k \<longleftrightarrow> lo \<le> start + 64 + k \<and> bit (W ((start + 64) div 64)) k" for k
          using less.prems(3) by auto
        show "\<not> bit (W (j div 64)) (j mod 64)" if "j < start + 64" "lo \<le> j" for j
          using later [of j] that False by fastforce
      qed (use False less.prems in auto)
      then show ?thesis using \<open>tmp = 0\<close> False f by (subst find_next_bit_loop.simps) (simp add: BITS_PER_LONG_def)
    qed
  next
    case False
    let ?k = "ffs_word tmp"
    have k: "bit tmp ?k" "\<And>i. i < ?k \<Longrightarrow> \<not> bit tmp i" using ffs_word_lowest [OF False] by (auto simp: lowest_def)
    then have "?k < 64" using bit_imp_le_length [OF k(1)] by simp
    then have m: "lo \<le> start + ?k" "(start + ?k) div 64 = start div 64" "(start + ?k) mod 64 = ?k"
      using less.prems(1,4) k(1) by (auto elim!: dvdE)
    have least: "start + ?k \<le> j" if "j \<in> ?S" "lo \<le> j" for j
    proof (cases "j < start + 64")
      case True
      then have "\<not> j - start < ?k" using here [OF that True] k(2) by blast
      then show ?thesis using ge [OF that] by linarith
    qed (use \<open>?k < 64\<close> in simp)
    have "next_in ?S nbits lo = min (start + ?k) nbits"
    proof (cases "start + ?k < nbits")
      case True
      have "bit (W (start div 64)) ?k" using less.prems(4) [OF \<open>?k < 64\<close>] k(1) by simp
      then have "next_in ?S nbits lo = start + ?k" using True m least by (intro next_inI) auto
      then show ?thesis using True by simp
    next
      case False
      then have "next_in ?S nbits lo = nbits" using least by (intro next_in_none) fastforce
      then show ?thesis using False by simp
    qed
    then show ?thesis using False by (subst find_next_bit_loop.simps) simp
  qed
qed

lemma find_common_ok:
  assumes "\<And>j. j < BITS_TO_LONGS nbits \<Longrightarrow> fetch_word a1 a2 iv j = Some (W j)"
  shows "find_next_bit_common a1 a2 nbits start iv =
    Some (next_in {i. i < nbits \<and> bit (W (i div 64)) (i mod 64)} nbits start)"
proof (cases "start \<ge> nbits")
  case True
  then have "next_in {i. i < nbits \<and> bit (W (i div 64)) (i mod 64)} nbits start = nbits" by (intro next_in_none) simp
  then show ?thesis using True by (simp add: find_next_bit_common_def)
next
  case False
  have "start div 64 < BITS_TO_LONGS nbits" using False by (simp add: BITS_TO_LONGS_def BITS_PER_LONG_def)
  note f = assms [OF this]
  let ?s = "start - start mod 64"
  have s: "?s div 64 = start div 64" by (simp add: minus_mod_eq_mult_div)
  have "find_next_bit_loop a1 a2 nbits iv ?s (W (start div 64) AND BITMAP_FIRST_WORD_MASK start) =
      Some (next_in {i. i < nbits \<and> bit (W (i div 64)) (i mod 64)} nbits start)"
  proof (rule find_loop_ok [OF assms])
    show "64 dvd ?s" by (simp add: minus_mod_eq_mult_div)
    show "?s < nbits" using False by linarith
    have "start mod 64 < 64" by simp
    then show "start < ?s + 64" by linarith
    show "bit (W (start div 64) AND BITMAP_FIRST_WORD_MASK start) k \<longleftrightarrow> start \<le> ?s + k \<and> bit (W (?s div 64)) k" if "k < 64" for k
      using that unfolding s by (auto simp: bit_and_iff bit_FIRST_WORD_MASK)
  qed simp_all
  then show ?thesis using False f by (simp add: find_next_bit_common_def BITS_PER_LONG_def)
qed

lemma fetch_one: "fits_bits n ws \<Longrightarrow> j < BITS_TO_LONGS n \<Longrightarrow> fetch_word ws None iv j = Some (ws ! j XOR iv)"
  by (simp add: fetch_word_def fits_bits_def arr_get_def)

lemma fetch_two: "fits_bits n ws \<Longrightarrow> fits_bits n vs \<Longrightarrow> j < BITS_TO_LONGS n \<Longrightarrow>
    fetch_word ws (Some vs) 0 j = Some (ws ! j AND vs ! j)"
  by (simp add: fetch_word_def fits_bits_def arr_get_def)

text \<open>The path for small constant sizes: one masked word.\<close>

lemma first_in_word:
  assumes "0 < n" "n \<le> 64" "lo < n" "\<And>i. bit v i \<longleftrightarrow> lo \<le> i \<and> i < n \<and> P i"
  shows "(if v \<noteq> 0 then ffs_word v else n) = next_in {i. i < n \<and> P i} n lo"
proof (cases "v = 0")
  case True
  then have "\<not> (lo \<le> i \<and> i < n \<and> P i)" for i using assms(4) [of i] by simp
  then show ?thesis using True by (subst next_in_none) (auto simp: not_le [symmetric])
next
  case False
  then have "lowest v (ffs_word v)" by (rule ffs_word_lowest)
  then have "next_in {i. i < n \<and> P i} n lo = ffs_word v"
    using assms(4) by (intro next_inI) (auto simp: lowest_def intro: leI)
  then show ?thesis using False by simp
qed

lemma zero_word_bit: "fits_bits n ws \<Longrightarrow> 0 < n \<Longrightarrow> arr_get ws 0 = Some (ws ! 0)"
  using word_in_range [of n ws 0] by (simp add: arr_get_def)

lemma find_next_bit_ok:
  assumes "fits_bits n ws"
  shows "find_next_bit const ws n lo = Some (next_in (bitset n ws) n lo)"
proof (cases "small_const_nbits const n")
  case True
  then have n: "0 < n" "n \<le> 64" by (auto simp: small_const_nbits_def BITS_PER_LONG_def)
  show ?thesis
  proof (cases "lo \<ge> n")
    case True
    then have "next_in (bitset n ws) n lo = n" by (intro next_in_none) (auto simp: bitset_def)
    then show ?thesis using True \<open>small_const_nbits const n\<close> by (simp add: find_next_bit_def)
  next
    case False
    define v where "v = ws ! 0 AND GENMASK (n - 1) lo"
    have "(if v \<noteq> 0 then ffs_word v else n) = next_in {i. i < n \<and> bit (ws ! (i div 64)) (i mod 64)} n lo"
      using n False by (intro first_in_word) (auto simp: v_def bit_and_iff bit_GENMASK)
    moreover have "find_next_bit const ws n lo = Some (if v \<noteq> 0 then ffs_word v else n)"
      unfolding find_next_bit_def v_def using True False zero_word_bit [OF assms n(1)] by simp
    ultimately show ?thesis by (simp add: bitset_def)
  qed
next
  case False
  then show ?thesis using find_common_ok [where nbits = n and start = lo, OF fetch_one [OF assms], of 0]
    by (simp add: find_next_bit_def bitset_def)
qed

lemma find_next_and_bit_ok:
  assumes "fits_bits n ws" "fits_bits n vs"
  shows "find_next_and_bit const ws vs n lo = Some (next_in (bitset n ws \<inter> bitset n vs) n lo)"
proof (cases "small_const_nbits const n")
  case True
  then have n: "0 < n" "n \<le> 64" by (auto simp: small_const_nbits_def BITS_PER_LONG_def)
  show ?thesis
  proof (cases "lo \<ge> n")
    case True
    then have "next_in (bitset n ws \<inter> bitset n vs) n lo = n" by (intro next_in_none) (auto simp: bitset_def)
    then show ?thesis using True \<open>small_const_nbits const n\<close> by (simp add: find_next_and_bit_def)
  next
    case False
    define v where "v = ws ! 0 AND vs ! 0 AND GENMASK (n - 1) lo"
    have "(if v \<noteq> 0 then ffs_word v else n) =
        next_in {i. i < n \<and> bit (ws ! (i div 64)) (i mod 64) \<and> bit (vs ! (i div 64)) (i mod 64)} n lo"
      using n False by (intro first_in_word) (auto simp: v_def bit_and_iff bit_GENMASK)
    moreover have "{i. i < n \<and> bit (ws ! (i div 64)) (i mod 64) \<and> bit (vs ! (i div 64)) (i mod 64)} =
        bitset n ws \<inter> bitset n vs" by (auto simp: bitset_def)
    moreover have "find_next_and_bit const ws vs n lo = Some (if v \<noteq> 0 then ffs_word v else n)"
      unfolding find_next_and_bit_def v_def
      using True False zero_word_bit [OF assms(1) n(1)] zero_word_bit [OF assms(2) n(1)] by simp
    ultimately show ?thesis by simp
  qed
next
  case False
  have "{i. i < n \<and> bit (ws ! (i div 64) AND vs ! (i div 64)) (i mod 64)} = bitset n ws \<inter> bitset n vs"
    by (auto simp: bitset_def bit_and_iff)
  then show ?thesis using False find_common_ok [where nbits = n and start = lo, OF fetch_two [OF assms]]
    by (simp add: find_next_and_bit_def)
qed

lemma zero_bits: "{i. i < n \<and> bit (NOT (ws ! (i div 64)) :: u64) (i mod 64)} = {..<n} - bitset n ws"
  by (auto simp: bitset_def bit_not_iff)

lemma find_next_zero_bit_ok:
  assumes "fits_bits n ws"
  shows "find_next_zero_bit const ws n lo = Some (next_in ({..<n} - bitset n ws) n lo)"
proof (cases "small_const_nbits const n")
  case True
  then have n: "0 < n" "n \<le> 64" by (auto simp: small_const_nbits_def BITS_PER_LONG_def)
  show ?thesis
  proof (cases "lo \<ge> n")
    case True
    then have "next_in ({..<n} - bitset n ws) n lo = n" by (intro next_in_none) auto
    then show ?thesis using True \<open>small_const_nbits const n\<close> by (simp add: find_next_zero_bit_def)
  next
    case False
    define v where "v = ws ! 0 OR NOT (GENMASK (n - 1) lo)"
    have "(if NOT v \<noteq> 0 then ffs_word (NOT v) else n) = next_in {i. i < n \<and> bit (NOT (ws ! (i div 64))) (i mod 64)} n lo"
      using n False by (intro first_in_word) (auto simp: v_def bit_simps bit_GENMASK)
    moreover have "v = NOT 0 \<longleftrightarrow> NOT v = 0" by (metis bit.double_compl)
    then have "find_next_zero_bit const ws n lo = Some (if NOT v \<noteq> 0 then ffs_word (NOT v) else n)"
      unfolding find_next_zero_bit_def v_def ffz_def using True False zero_word_bit [OF assms n(1)] by simp
    ultimately show ?thesis by (simp add: zero_bits)
  qed
next
  case False
  have "ws ! j XOR NOT 0 = NOT (ws ! j)" for j by (rule bit_eqI) (simp add: bit_simps)
  then show ?thesis using False find_common_ok [where nbits = n and start = lo, OF fetch_one [OF assms], of "NOT 0"]
    by (simp only: find_next_zero_bit_def zero_bits if_False)
qed

lemma first_hit:
  fixes W :: "nat \<Rightarrow> u64"
  assumes "lowest (W j) k" and none: "\<And>i. i < j * 64 \<Longrightarrow> \<not> bit (W (i div 64)) (i mod 64)"
  shows "next_in {i. i < n \<and> bit (W (i div 64)) (i mod 64)} n 0 = min (j * 64 + k) n"
proof -
  let ?S = "{i. i < n \<and> bit (W (i div 64)) (i mod 64)}"
  have k: "bit (W j) k" "k < 64" "\<And>i. i < k \<Longrightarrow> \<not> bit (W j) i"
    using assms(1) bit_imp_le_length [of "W j" k] by (auto simp: lowest_def)
  have least: "j * 64 + k \<le> i" if "i \<in> ?S" for i
  proof (rule ccontr)
    assume lt: "\<not> j * 64 + k \<le> i"
    have "j * 64 \<le> i" using none [of i] that by (cases "i < j * 64") auto
    then obtain b where b: "i = j * 64 + b" using le_Suc_ex by blast
    with lt k(2) have "i div 64 = j" "i mod 64 = b" "b < k" by auto
    then show False using that k(3) by simp
  qed
  show ?thesis
  proof (cases "j * 64 + k < n")
    case True
    then have "next_in ?S n 0 = j * 64 + k" using k least by (intro next_inI) auto
    then show ?thesis using True by simp
  next
    case False
    then have "i \<notin> ?S" for i using least [of i] by auto
    then have "next_in ?S n 0 = n" by (intro next_in_none) blast
    then show ?thesis using False by simp
  qed
qed

lemma first_miss:
  fixes W :: "nat \<Rightarrow> u64"
  assumes "W j = 0" "\<And>i. i < j * 64 \<Longrightarrow> \<not> bit (W (i div 64)) (i mod 64)" "i < (j + 1) * 64"
  shows "\<not> bit (W (i div 64)) (i mod 64)"
proof (cases "i < j * 64")
  case False
  then have "i div 64 = j" using assms(3) by (simp add: div_nat_eqI)
  then show ?thesis using assms(1) by simp
qed (use assms(2) in blast)

lemma find_first_loop_ok:
  assumes "fits_bits n ws" "\<And>i. i < idx * 64 \<Longrightarrow> \<not> bit (ws ! (i div 64)) (i mod 64)"
  shows "find_first_bit_loop ws n idx = Some (next_in (bitset n ws) n 0)"
  using assms
proof (induction ws n idx rule: find_first_bit_loop.induct)
  case (1 ws n idx)
  show ?case
  proof (cases "idx * 64 < n")
    case True
    then have g: "arr_get ws idx = Some (ws ! idx)" using word_in_range [OF "1.prems"(1) True] by (simp add: arr_get_def)
    show ?thesis
    proof (cases "ws ! idx = 0")
      case True
      have "find_first_bit_loop ws n (idx + 1) = Some (next_in (bitset n ws) n 0)"
        by (rule "1.IH") (use \<open>idx * 64 < n\<close> g True "1.prems" first_miss [of "\<lambda>j. ws ! j"] in \<open>auto simp: BITS_PER_LONG_def\<close>)
      then show ?thesis using \<open>idx * 64 < n\<close> g True by (subst find_first_bit_loop.simps) (simp add: BITS_PER_LONG_def)
    next
      case False
      have "next_in (bitset n ws) n 0 = min (idx * 64 + ffs_word (ws ! idx)) n"
        unfolding bitset_def using "1.prems"(2) by (intro first_hit ffs_word_lowest [OF False])
      then show ?thesis using \<open>idx * 64 < n\<close> g False by (subst find_first_bit_loop.simps) (simp add: BITS_PER_LONG_def)
    qed
  next
    case False
    then have "next_in (bitset n ws) n 0 = n" using "1.prems"(2) by (intro next_in_none) (fastforce simp: bitset_def)
    then show ?thesis using False by (subst find_first_bit_loop.simps) (simp add: BITS_PER_LONG_def)
  qed
qed

lemma find_first_zero_loop_ok:
  assumes "fits_bits n ws" "\<And>i. i < idx * 64 \<Longrightarrow> \<not> bit (NOT (ws ! (i div 64))) (i mod 64)"
  shows "find_first_zero_bit_loop ws n idx = Some (next_in ({..<n} - bitset n ws) n 0)"
  using assms
proof (induction ws n idx rule: find_first_zero_bit_loop.induct)
  case (1 ws n idx)
  have nz: "ws ! idx \<noteq> NOT 0 \<longleftrightarrow> NOT (ws ! idx) \<noteq> 0" by (metis bit.double_compl)
  show ?case
  proof (cases "idx * 64 < n")
    case True
    then have g: "arr_get ws idx = Some (ws ! idx)" using word_in_range [OF "1.prems"(1) True] by (simp add: arr_get_def)
    show ?thesis
    proof (cases "NOT (ws ! idx) = 0")
      case True
      have miss: "\<not> bit (NOT (ws ! (i div 64))) (i mod 64)" if "i < (idx + 1) * 64" for i
        using first_miss [of "\<lambda>j. NOT (ws ! j)", OF True "1.prems"(2) that] .
      have "find_first_zero_bit_loop ws n (idx + 1) = Some (next_in ({..<n} - bitset n ws) n 0)"
        using \<open>idx * 64 < n\<close> nz True
        by (intro "1.IH" [OF _ g _ "1.prems"(1) miss]) (simp_all only: BITS_PER_LONG_def not_not simp_thms)
      then show ?thesis using \<open>idx * 64 < n\<close> g True nz by (subst find_first_zero_bit_loop.simps) (simp add: BITS_PER_LONG_def)
    next
      case False
      have "next_in ({..<n} - bitset n ws) n 0 = min (idx * 64 + ffs_word (NOT (ws ! idx))) n"
        unfolding zero_bits [symmetric] using "1.prems"(2) by (intro first_hit ffs_word_lowest [OF False])
      then show ?thesis using \<open>idx * 64 < n\<close> g False nz
        by (subst find_first_zero_bit_loop.simps) (simp add: BITS_PER_LONG_def ffz_def)
    qed
  next
    case False
    then have "next_in ({..<n} - bitset n ws) n 0 = n" unfolding zero_bits [symmetric]
      using "1.prems"(2) by (intro next_in_none) fastforce
    then show ?thesis using False by (subst find_first_zero_bit_loop.simps) (simp add: BITS_PER_LONG_def)
  qed
qed

lemma find_first_bit_ok: "fits_bits n ws \<Longrightarrow> find_first_bit ws n = Some (next_in (bitset n ws) n 0)"
  unfolding find_first_bit_def by (rule find_first_loop_ok) simp_all

lemma find_first_zero_bit_ok:
  "fits_bits n ws \<Longrightarrow> find_first_zero_bit ws n = Some (next_in ({..<n} - bitset n ws) n 0)"
  unfolding find_first_zero_bit_def by (rule find_first_zero_loop_ok) simp_all

subsection \<open>Searching backwards\<close>

definition last_in :: "nat set \<Rightarrow> nat \<Rightarrow> nat" where
  "last_in S n = (if S = {} then n else Max S)"

lemma find_last_loop_ok:
  assumes "fits_bits n ws" "idx * 64 < n"
    and "\<And>k. k < 64 \<Longrightarrow> bit (v AND ws ! idx) k \<longleftrightarrow> idx * 64 + k \<in> bitset n ws"
    and "\<And>i. i \<in> bitset n ws \<Longrightarrow> i < (idx + 1) * 64"
  shows "find_last_bit_loop ws n v idx = Some (last_in (bitset n ws) n)"
  using assms
proof (induction ws n v idx rule: find_last_bit_loop.induct)
  case (1 ws n v idx)
  have g: "arr_get ws idx = Some (ws ! idx)" using word_in_range [OF "1.prems"(1,2)] by (simp add: arr_get_def)
  show ?case
  proof (cases "v AND ws ! idx = 0")
    case False
    let ?k = "fls_word (v AND ws ! idx)"
    have k: "bit (v AND ws ! idx) ?k" "\<And>i. i > ?k \<Longrightarrow> \<not> bit (v AND ws ! idx) i"
      using fls_word_highest [OF False] by (auto simp: highest_def)
    then have "?k < 64" using bit_imp_le_length [OF k(1)] by simp
    then have "idx * 64 + ?k \<in> bitset n ws" using "1.prems"(3) k(1) by blast
    moreover have "i \<le> idx * 64 + ?k" if "i \<in> bitset n ws" for i
    proof (rule ccontr)
      assume lt: "\<not> i \<le> idx * 64 + ?k"
      then obtain b where b: "i = idx * 64 + b" using le_Suc_ex [of "idx * 64" i] by (metis add_leD1 nat_le_linear)
      with "1.prems"(4) [OF that] lt have "b < 64" "?k < b" by auto
      then show False using "1.prems"(3) [of b] that k(2) b by blast
    qed
    ultimately have "last_in (bitset n ws) n = idx * 64 + ?k" by (auto simp: last_in_def intro!: Max_eqI)
    then show ?thesis using g False by (subst find_last_bit_loop.simps) (simp add: BITS_PER_LONG_def)
  next
    case True
    then have later: "i < idx * 64" if "i \<in> bitset n ws" for i
    proof (rule_tac ccontr)
      assume lt: "\<not> i < idx * 64"
      then obtain b where b: "i = idx * 64 + b" using le_Suc_ex [of "idx * 64" i] by (metis not_le)
      then have "b < 64" using "1.prems"(4) [OF that] by simp
      then show False using "1.prems"(3) [of b] that b True by simp
    qed
    show ?thesis
    proof (cases idx)
      case 0
      then have "bitset n ws = {}" using later by auto
      then show ?thesis using 0 g True by (subst find_last_bit_loop.simps) (simp add: last_in_def)
    next
      case (Suc i)
      have "find_last_bit_loop ws n (NOT 0) i = Some (last_in (bitset n ws) n)"
        by (rule "1.IH") (use g True Suc "1.prems" later in \<open>auto simp: bitset_def\<close>)
      then show ?thesis using g True Suc by (subst find_last_bit_loop.simps) simp
    qed
  qed
qed

lemma last_word_index:
  fixes n :: nat
  assumes "0 < n"
  shows "n \<le> ((n - 1) div 64 + 1) * 64"
    and "n = (n - 1) div 64 * 64 + (if n mod 64 = 0 then 64 else n mod 64)"
proof -
  obtain q r where n: "n = 64 * q + r" "r < 64" using div_mult_mod_eq [of n 64] by (metis mod_less_divisor mult.commute zero_less_numeral)
  have "n = (n - 1) div 64 * 64 + (if n mod 64 = 0 then 64 else n mod 64)"
  proof (cases r)
    case 0
    then obtain p where "q = Suc p" using n assms by (cases q) auto
    then have "n - 1 = 64 * p + 63" using n 0 by simp
    then have "(n - 1) div 64 = p" by simp
    then show ?thesis using n 0 \<open>q = Suc p\<close> by simp
  next
    case (Suc s)
    then have "n - 1 = 64 * q + s" "s < 64" using n by auto
    then have "(n - 1) div 64 = q" by simp
    then show ?thesis using n Suc by simp
  qed
  then show "n = (n - 1) div 64 * 64 + (if n mod 64 = 0 then 64 else n mod 64)" .
  then show "n \<le> ((n - 1) div 64 + 1) * 64" by (cases "n mod 64 = 0") (auto simp: less_imp_le)
qed

lemma find_last_bit_ok:
  assumes "fits_bits n ws" shows "find_last_bit ws n = Some (last_in (bitset n ws) n)"
proof (cases "n = 0")
  case True
  then show ?thesis by (simp add: find_last_bit_def last_in_def bitset_def)
next
  case False
  let ?j = "(n - 1) div 64"
  have "find_last_bit_loop ws n (BITMAP_LAST_WORD_MASK n) ?j = Some (last_in (bitset n ws) n)"
  proof (rule find_last_loop_ok [OF assms])
    show "?j * 64 < n" using False last_word_index(2) [of n] by (cases "n mod 64 = 0") auto
    show "bit (BITMAP_LAST_WORD_MASK n AND ws ! ?j) k \<longleftrightarrow> ?j * 64 + k \<in> bitset n ws" if "k < 64" for k
    proof -
      have "?j * 64 + k < n \<longleftrightarrow> (n mod 64 \<noteq> 0 \<longrightarrow> k < n mod 64)"
        using that False last_word_index(2) [of n] by (cases "n mod 64 = 0") auto
      then show ?thesis using that by (simp add: bit_and_iff bit_LAST_WORD_MASK bitset_def)
    qed
    show "i < (?j + 1) * 64" if "i \<in> bitset n ws" for i using bitset_bound [OF that] last_word_index(1) [of n] False by auto
  qed
  then show ?thesis using False by (simp add: find_last_bit_def BITS_PER_LONG_def)
qed

end
