(* ===== verification/Bitmap_Sets.thy ===== *)
theory Bitmap_Sets
  imports Bitmap_Correct
begin

section \<open>Bitmaps as sets\<close>

text \<open>
  The word-wise comparisons, counts and combinations of bitmaps refine the operations on sets of
  bit numbers, on both the specialised and the general path.
\<close>

subsection \<open>Quantifying over the bits word by word\<close>

lemma ex_bits_split:
  "(\<exists>i<n. P (i div 64) (i mod 64)) \<longleftrightarrow>
     (\<exists>j<n div 64. \<exists>b<64. P j b) \<or> (\<exists>b<n mod 64. P (n div 64) (b :: nat))"
proof
  assume "\<exists>i<n. P (i div 64) (i mod 64)"
  then obtain i where i: "i < n" "P (i div 64) (i mod 64)" by blast
  show "(\<exists>j<n div 64. \<exists>b<64. P j b) \<or> (\<exists>b<n mod 64. P (n div 64) b)"
  proof (cases "i div 64 < n div 64")
    case True
    moreover have "i mod 64 < 64" by simp
    ultimately show ?thesis using i(2) by blast
  next
    case False
    then have "i div 64 = n div 64" using div_le_mono [of i n 64] i(1) by simp
    then have "i mod 64 < n mod 64" using i(1) by (metis div_mult_mod_eq nat_add_left_cancel_less)
    then show ?thesis using i(2) \<open>i div 64 = n div 64\<close> by auto
  qed
next
  assume "(\<exists>j<n div 64. \<exists>b<64. P j b) \<or> (\<exists>b<n mod 64. P (n div 64) b)"
  then obtain j b where jb: "P j b" "b < 64" "j * 64 + b < n"
  proof (elim disjE exE conjE)
    fix j b :: nat assume a: "j < n div 64" "b < 64" "P j b"
    then have "j * 64 + b < (n div 64) * 64" by linarith
    also have "\<dots> \<le> n" by simp
    finally show thesis using that a by blast
  next
    fix b :: nat assume a: "b < n mod 64" "P (n div 64) b"
    have "n mod 64 < 64" by simp
    then have "b < 64" using a(1) by (rule less_trans [rotated])
    moreover have "n div 64 * 64 + b < n" using a(1) div_mult_mod_eq [of n 64] by linarith
    ultimately show thesis using that a by blast
  qed
  then show "\<exists>i<n. P (i div 64) (i mod 64)" by (intro exI [of _ "j * 64 + b"]) simp
qed

lemma fits_div: "fits_bits n ws \<Longrightarrow> n div 64 \<le> length ws"
  unfolding fits_bits_def BITS_TO_LONGS_def BITS_PER_LONG_def
  using div_le_mono [of n "n + 64 - 1" 64] by linarith

lemma fits_last: "fits_bits n ws \<Longrightarrow> n mod 64 \<noteq> 0 \<Longrightarrow> n div 64 < length ws"
proof -
  assume a: "fits_bits n ws" "n mod 64 \<noteq> 0"
  have "n div 64 * 64 < n" using a(2) div_mult_mod_eq [of n 64] by linarith
  then show ?thesis using word_in_range [OF a(1)] by fastforce
qed

lemma bit_lt_64: "bit (w :: u64) b \<Longrightarrow> b < 64"
  using bit_imp_le_length [of w b] by simp

lemma nonzero_bits: "w \<noteq> 0 \<longleftrightarrow> (\<exists>b<64. bit (w :: u64) b)"
  using word_nonzero_bit [of w] bit_lt_64 [of w] by blast

lemma masked_nonzero: "n mod 64 \<noteq> 0 \<Longrightarrow> w AND BITMAP_LAST_WORD_MASK n \<noteq> 0 \<longleftrightarrow> (\<exists>b<n mod 64. bit w b)"
  unfolding word_nonzero_bit bit_and_iff bit_LAST_WORD_MASK using bit_lt_64 [of w] by blast

lemma all_words_ok:
  assumes "lim \<le> length as" "lim \<le> length bs"
  shows "all_words p lim k as bs = Some (\<forall>j. k \<le> j \<and> j < lim \<longrightarrow> p (as ! j) (bs ! j))"
  using assms
proof (induction p lim k as bs rule: all_words.induct)
  case (1 p lim k as bs)
  show ?case
  proof (cases "k < lim")
    case True
    have split: "(\<forall>j. k \<le> j \<and> j < lim \<longrightarrow> p (as ! j) (bs ! j)) \<longleftrightarrow>
        p (as ! k) (bs ! k) \<and> (\<forall>j. k + 1 \<le> j \<and> j < lim \<longrightarrow> p (as ! j) (bs ! j))"
      using True by (auto simp: Suc_le_eq dest: le_imp_less_or_eq)
    show ?thesis using True 1 unfolding split by (subst all_words.simps) (auto simp: arr_get_def)
  qed (subst all_words.simps, auto)
qed

text \<open>The scan that stops at the first word with a set bit in \<open>f\<close> of the two words.\<close>

lemma any_bit_scan:
  assumes "fits_bits n as" "fits_bits n bs"
  shows "do { none \<leftarrow> all_words (\<lambda>x y. f x y = 0) (n div 64) 0 as bs;
              if \<not> none then Some True else last_word f n as bs } =
    Some (\<exists>i<n. bit (f (as ! (i div 64)) (bs ! (i div 64))) (i mod 64))"
proof -
  let ?any = "\<exists>j<n div 64. \<exists>b<64. bit (f (as ! j) (bs ! j)) b"
  have w: "all_words (\<lambda>x y. f x y = 0) (n div 64) 0 as bs = Some (\<not> ?any)"
    unfolding all_words_ok [OF fits_div [OF assms(1)] fits_div [OF assms(2)]] using nonzero_bits by auto
  have l: "last_word f n as bs = Some (\<exists>b<n mod 64. bit (f (as ! (n div 64)) (bs ! (n div 64))) b)"
  proof (cases "n mod 64 = 0")
    case False
    then show ?thesis using fits_last [OF assms(1) False] fits_last [OF assms(2) False] masked_nonzero [OF False]
      by (simp add: last_word_def BITS_PER_LONG_def arr_get_def)
  qed (simp add: last_word_def BITS_PER_LONG_def)
  show ?thesis unfolding w l ex_bits_split [of n "\<lambda>j b. bit (f (as ! j) (bs ! j)) b"] by (cases ?any) auto
qed

subsection \<open>Predicates\<close>

lemma intersects_ok:
  assumes "fits_bits n as" "fits_bits n bs"
  shows "bitmap_intersects_words as bs n = Some (bitset n as \<inter> bitset n bs \<noteq> {})"
  unfolding bitmap_intersects_words_def BITS_PER_LONG_def any_bit_scan [OF assms, of "(AND)"]
  by (auto simp: bitset_def bit_and_iff)

lemma all_scan:
  "do { none \<leftarrow> all_words q l 0 as bs; if \<not> none then Some False else do { o1 \<leftarrow> last_word f n as bs; Some (\<not> o1) } } =
   map_option Not (do { none \<leftarrow> all_words q l 0 as bs; if \<not> none then Some True else last_word f n as bs })"
  by (cases "all_words q l 0 as bs"; cases "last_word f n as bs") auto

lemma subset_ok:
  assumes "fits_bits n as" "fits_bits n bs"
  shows "bitmap_subset_words as bs n = Some (bitset n as \<subseteq> bitset n bs)"
  unfolding bitmap_subset_words_def BITS_PER_LONG_def all_scan any_bit_scan [OF assms, of "\<lambda>x y. x AND NOT y"]
  by (auto simp: bitset_def bit_simps)

lemma equal_ok:
  assumes "fits_bits n as" "fits_bits n bs"
  shows "bitmap_equal_words as bs n = Some (bitset n as = bitset n bs)"
proof -
  have "x = y \<longleftrightarrow> x XOR y = 0" for x y :: u64 using word_nonzero_bit [of "x XOR y"] by (auto simp: bit_xor_iff bit_eq_iff)
  then have "(=) = (\<lambda>x y :: u64. x XOR y = 0)" by (intro ext)
  then have aw: "all_words (=) = all_words (\<lambda>x y. x XOR y = 0)" by (rule arg_cong)
  show ?thesis
    unfolding bitmap_equal_words_def BITS_PER_LONG_def all_scan aw any_bit_scan [OF assms, of "(XOR)"]
    by (auto simp: bitset_def bit_xor_iff)
qed

lemma empty_iff_next: "next_in S n 0 = n \<longleftrightarrow> S = {}" if "S \<subseteq> {..<n}"
proof -
  have "finite S" using that finite_subset by blast
  then show ?thesis using that by (cases rule: next_in_cases [of S n 0]) auto
qed

subsection \<open>Counting\<close>

lemma hweight_card: "hweight_long w = (\<Sum>b<64. of_bool (bit w b))"
proof -
  have "hweight_long w = card {i. i < 64 \<and> bit w i}"
    by (simp add: hweight_long_def sw_hweight64_sum sum_bits_card bit_unsigned_iff)
  also have "{i. i < 64 \<and> bit w i} = {..<64} \<inter> {i. bit w i}" by auto
  finally show ?thesis by (simp add: sum_of_bool_eq)
qed

lemma weight_loop_ok:
  assumes "lim \<le> length ws"
  shows "weight_loop ws lim k w = Some (w + (\<Sum>j = k..<lim. hweight_long (ws ! j)))"
  using assms
proof (induction ws lim k w rule: weight_loop.induct)
  case (1 ws lim k w)
  then show ?case
    by (subst weight_loop.simps) (auto simp: arr_get_def sum.atLeast_Suc_lessThan)
qed

lemma card_bitset: "card (bitset n ws) = (\<Sum>i<n. of_bool (bit (ws ! (i div 64)) (i mod 64)))"
proof -
  have "bitset n ws = {..<n} \<inter> {i. bit (ws ! (i div 64)) (i mod 64)}" by (auto simp: bitset_def)
  then show ?thesis by (simp add: sum_of_bool_eq)
qed

lemma card_bitset_words:
  "card (bitset n ws) = (\<Sum>j<n div 64. hweight_long (ws ! j)) + (\<Sum>b<n mod 64. of_bool (bit (ws ! (n div 64)) b))"
proof -
  let ?f = "\<lambda>i. of_bool (bit (ws ! (i div 64)) (i mod 64)) :: nat"
  let ?m = "n div 64 * 64"
  have n: "n = ?m + n mod 64" by simp
  have "(\<Sum>i<n. ?f i) = (\<Sum>i<?m. ?f i) + (\<Sum>i = ?m..<n. ?f i)"
    unfolding lessThan_atLeast0 by (rule sum.atLeastLessThan_concat [symmetric]) simp_all
  also have "(\<Sum>i<?m. ?f i) = (\<Sum>j<n div 64. hweight_long (ws ! j))"
  proof -
    have "(\<Sum>i = j * 64..<j * 64 + 64. ?f i) = hweight_long (ws ! j)" for j
      unfolding hweight_card using sum.shift_bounds_nat_ivl [of ?f 0 "j * 64" 64]
      by (simp add: lessThan_atLeast0 add.commute)
    then show ?thesis using sum.nat_group [of ?f 64 "n div 64"] by simp
  qed
  also have "(\<Sum>i = ?m..<n. ?f i) = (\<Sum>b<n mod 64. of_bool (bit (ws ! (n div 64)) b))"
    using sum.shift_bounds_nat_ivl [of ?f 0 ?m "n mod 64"] n by (simp add: lessThan_atLeast0 add.commute)
  finally show ?thesis by (simp add: card_bitset)
qed

lemma masked_weight:
  assumes "n mod 64 \<noteq> 0"
  shows "hweight_long (w AND BITMAP_LAST_WORD_MASK n) = (\<Sum>b<n mod 64. of_bool (bit w b))"
proof -
  have "(\<Sum>b<64. of_bool (bit (w AND BITMAP_LAST_WORD_MASK n) b) :: nat) = (\<Sum>b\<in>{..<64} \<inter> {..<n mod 64}. of_bool (bit w b))"
    using assms by (intro sum.mono_neutral_cong_right) (auto simp: bit_and_iff bit_LAST_WORD_MASK)
  also have "{..<64} \<inter> {..<n mod 64} = {..<n mod 64}" by (auto intro: less_trans [OF _ mod_less_divisor])
  finally show ?thesis by (simp add: hweight_card)
qed

lemma weight_ok:
  assumes "fits_bits n ws" shows "bitmap_weight_words ws n = Some (card (bitset n ws))"
  unfolding bitmap_weight_words_def BITS_PER_LONG_def weight_loop_ok [OF fits_div [OF assms]] card_bitset_words
  using fits_last [OF assms] by (cases "n mod 64 = 0") (auto simp: lessThan_atLeast0 arr_get_def masked_weight)

subsection \<open>Combinations\<close>

lemma ex_from: "k < lim \<Longrightarrow> (\<exists>j. k \<le> j \<and> j < lim \<and> Q j) \<longleftrightarrow> Q k \<or> (\<exists>j. k + 1 \<le> j \<and> j < lim \<and> Q j)" for k lim :: nat
proof (intro iffI)
  assume "k < lim" "\<exists>j. k \<le> j \<and> j < lim \<and> Q j"
  then obtain j where j: "k \<le> j" "j < lim" "Q j" by blast
  then show "Q k \<or> (\<exists>j. k + 1 \<le> j \<and> j < lim \<and> Q j)" by (cases "j = k") (auto intro!: exI [of _ j])
next
  assume "k < lim" "Q k \<or> (\<exists>j. k + 1 \<le> j \<and> j < lim \<and> Q j)"
  then show "\<exists>j. k \<le> j \<and> j < lim \<and> Q j" using add_leD1 order_refl by blast
qed

lemma combine_loop_ok:
  assumes "lim \<le> length as" "lim \<le> length bs" "lim \<le> length dst"
  shows "\<exists>res dst'. combine_loop f lim k r as bs dst = Some (res, dst') \<and> length dst' = length dst \<and>
    (\<forall>j<length dst. dst' ! j = (if k \<le> j \<and> j < lim then f (as ! j) (bs ! j) else dst ! j)) \<and>
    (res \<noteq> 0 \<longleftrightarrow> r \<noteq> 0 \<or> (\<exists>j. k \<le> j \<and> j < lim \<and> f (as ! j) (bs ! j) \<noteq> 0))"
  using assms
proof (induction f lim k r as bs dst rule: combine_loop.induct)
  case (1 f lim k r as bs dst)
  show ?case
  proof (cases "k < lim")
    case True
    let ?w = "f (as ! k) (bs ! k)"
    have "k < length as" "k < length bs" "k < length dst" using True "1.prems" by auto
    note g = arr_get_in [OF this(1)] arr_get_in [OF this(2)] arr_set_in [OF this(3)]
    have "\<exists>res dst'. combine_loop f lim (k + 1) (r OR ?w) as bs (dst[k := ?w]) = Some (res, dst') \<and>
        length dst' = length (dst[k := ?w]) \<and>
        (\<forall>j<length (dst[k := ?w]). dst' ! j = (if k + 1 \<le> j \<and> j < lim then f (as ! j) (bs ! j) else dst[k := ?w] ! j)) \<and>
        (res \<noteq> 0 \<longleftrightarrow> r OR ?w \<noteq> 0 \<or> (\<exists>j. k + 1 \<le> j \<and> j < lim \<and> f (as ! j) (bs ! j) \<noteq> 0))"
      by (rule "1.IH" [OF True]) (use g "1.prems" in auto)
    then obtain res dst' where IH: "combine_loop f lim (k + 1) (r OR ?w) as bs (dst[k := ?w]) = Some (res, dst')"
      "length dst' = length dst"
      "\<forall>j<length dst. dst' ! j = (if k + 1 \<le> j \<and> j < lim then f (as ! j) (bs ! j) else dst[k := ?w] ! j)"
      "res \<noteq> 0 \<longleftrightarrow> r OR ?w \<noteq> 0 \<or> (\<exists>j. k + 1 \<le> j \<and> j < lim \<and> f (as ! j) (bs ! j) \<noteq> 0)" by auto
    have "combine_loop f lim k r as bs dst = Some (res, dst')"
      using True g IH(1) by (subst combine_loop.simps) simp
    moreover have "r OR ?w \<noteq> 0 \<longleftrightarrow> r \<noteq> 0 \<or> ?w \<noteq> 0" by (auto simp: word_nonzero_bit bit_or_iff)
    moreover have "(\<exists>j. k \<le> j \<and> j < lim \<and> f (as ! j) (bs ! j) \<noteq> 0) \<longleftrightarrow>
        ?w \<noteq> 0 \<or> (\<exists>j. k + 1 \<le> j \<and> j < lim \<and> f (as ! j) (bs ! j) \<noteq> 0)"
      by (rule ex_from [OF True])
    moreover have "\<forall>j<length dst. dst' ! j = (if k \<le> j \<and> j < lim then f (as ! j) (bs ! j) else dst ! j)"
    proof (intro allI impI)
      fix j assume "j < length dst"
      then show "dst' ! j = (if k \<le> j \<and> j < lim then f (as ! j) (bs ! j) else dst ! j)"
        using IH(3) True by (cases "j = k") (auto simp: nth_list_update)
    qed
    ultimately show ?thesis using IH(2,4) by (intro exI [of _ res] exI [of _ dst']) blast
  next
    case False
    then show ?thesis by (subst combine_loop.simps) auto
  qed
qed

text \<open>A bitwise operation acts on the members; \<open>g\<close> is its truth table.\<close>

definition bitwise :: "(u64 \<Rightarrow> u64 \<Rightarrow> u64) \<Rightarrow> (bool \<Rightarrow> bool \<Rightarrow> bool) \<Rightarrow> bool" where
  "bitwise f g \<longleftrightarrow> (\<forall>x y b. b < 64 \<longrightarrow> bit (f x y) b = g (bit x b) (bit y b))"

lemma bitwise_ops: "bitwise (AND) (\<and>)" "bitwise (OR) (\<or>)" "bitwise (\<lambda>x y. x AND NOT y) (\<lambda>p q. p \<and> \<not> q)"
  by (auto simp: bitwise_def bit_simps)

definition combined :: "(bool \<Rightarrow> bool \<Rightarrow> bool) \<Rightarrow> nat \<Rightarrow> bitmap \<Rightarrow> bitmap \<Rightarrow> nat set" where
  "combined g n as bs = {i. i < n \<and> g (i \<in> bitset n as) (i \<in> bitset n bs)}"

lemma combined_bit:
  assumes "bitwise f g" "i < n"
  shows "bit (f (as ! (i div 64)) (bs ! (i div 64))) (i mod 64) \<longleftrightarrow> i \<in> combined g n as bs"
proof -
  have "i mod 64 < 64" by simp
  then show ?thesis using assms unfolding bitwise_def combined_def bitset_def by auto
qed

lemma or_ok:
  assumes "fits_bits n as" "fits_bits n bs" "fits_bits n dst"
  shows "\<exists>dst'. bitmap_or_words dst as bs n = Some dst' \<and> length dst' = length dst \<and>
    bitset n dst' = bitset n as \<union> bitset n bs"
proof -
  let ?l = "BITS_TO_LONGS n"
  from combine_loop_ok [of ?l as bs dst "(OR)" 0 0] obtain r dst' where
    l: "combine_loop (OR) ?l 0 0 as bs dst = Some (r, dst')" "length dst' = length dst"
      "\<forall>j<length dst. dst' ! j = (if 0 \<le> j \<and> j < ?l then as ! j OR bs ! j else dst ! j)"
    using assms unfolding fits_bits_def by blast
  have "dst' ! (i div 64) = as ! (i div 64) OR bs ! (i div 64)" if "i < n" for i
  proof -
    have "i div 64 < ?l" using that by (simp add: BITS_TO_LONGS_def BITS_PER_LONG_def)
    then show ?thesis using l(3) assms(3) unfolding fits_bits_def by auto
  qed
  then have "bitset n dst' = bitset n as \<union> bitset n bs" by (auto simp: bitset_def bit_or_iff)
  then show ?thesis using l by (auto simp: bitmap_or_words_def)
qed

lemma masked_ok:
  assumes "fits_bits n as" "fits_bits n bs" "fits_bits n dst" "bitwise f g"
  shows "\<exists>dst'. combine_masked f dst as bs n = Some (combined g n as bs \<noteq> {}, dst') \<and> length dst' = length dst \<and>
    bitset n dst' = combined g n as bs"
proof -
  let ?l = "n div 64"
  have le: "?l \<le> length as" "?l \<le> length bs" "?l \<le> length dst" using assms(1-3) by (simp_all add: fits_div)
  from combine_loop_ok [OF this, of f 0 0] obtain r d where
    l: "combine_loop f ?l 0 0 as bs dst = Some (r, d)" "length d = length dst"
      "\<forall>j<length dst. d ! j = (if 0 \<le> j \<and> j < ?l then f (as ! j) (bs ! j) else dst ! j)"
      "r \<noteq> 0 \<longleftrightarrow> (\<exists>j<?l. f (as ! j) (bs ! j) \<noteq> 0)" by auto
  have ex: "combined g n as bs \<noteq> {} \<longleftrightarrow> (\<exists>i<n. bit (f (as ! (i div 64)) (bs ! (i div 64))) (i mod 64))"
    using combined_bit [OF assms(4)] by (auto simp: combined_def)
  note ex' = ex [unfolded ex_bits_split [of n "\<lambda>j b. bit (f (as ! j) (bs ! j)) b"]]
  show ?thesis
  proof (cases "n mod 64 = 0")
    case True
    then have "combined g n as bs \<noteq> {} \<longleftrightarrow> r \<noteq> 0" unfolding ex' l(4) nonzero_bits [of "f _ _"] by simp
    moreover have "bitset n d = combined g n as bs"
    proof (intro set_eqI)
      fix i
      have "i div 64 < ?l" if "i < n" using that True by (metis div_less_mono dvd_eq_mod_eq_0 zero_less_numeral mod_div_trivial less_mult_imp_div_less dvd_div_mult_self mult.commute)
      then show "i \<in> bitset n d \<longleftrightarrow> i \<in> combined g n as bs"
        using combined_bit [OF assms(4), of i n] l(3) le(3) by (cases "i < n") (auto simp: bitset_def combined_def)
    qed
    ultimately show ?thesis using l True by (auto simp: combine_masked_def BITS_PER_LONG_def)
  next
    case False
    let ?w = "f (as ! ?l) (bs ! ?l) AND BITMAP_LAST_WORD_MASK n"
    let ?d = "d[?l := ?w]"
    have lt: "?l < length as" "?l < length bs" "?l < length dst" using assms(1-3) False by (simp_all add: fits_last)
    have "combined g n as bs \<noteq> {} \<longleftrightarrow> r OR ?w \<noteq> 0"
    proof -
      have "r OR ?w \<noteq> 0 \<longleftrightarrow> r \<noteq> 0 \<or> ?w \<noteq> 0" by (auto simp: word_nonzero_bit bit_or_iff)
      then show ?thesis unfolding ex' l(4) nonzero_bits [of "f _ _"] masked_nonzero [OF False] by simp
    qed
    moreover have "bitset n ?d = combined g n as bs"
    proof (intro set_eqI)
      fix i
      show "i \<in> bitset n ?d \<longleftrightarrow> i \<in> combined g n as bs"
      proof (cases "i < n")
        case True
        then have c: "i div 64 \<le> ?l" by (simp add: div_le_mono)
        show ?thesis
        proof (cases "i div 64 = ?l")
          case True
          then have "i mod 64 < n mod 64" using \<open>i < n\<close> by (metis div_mult_mod_eq nat_add_left_cancel_less)
          then show ?thesis using combined_bit [OF assms(4) \<open>i < n\<close>, of as bs] True lt(3) l(2) False \<open>i < n\<close>
            by (simp add: bitset_def bit_and_iff bit_LAST_WORD_MASK)
        next
          case False
          then show ?thesis using combined_bit [OF assms(4) \<open>i < n\<close>, of as bs] c l(2,3) lt(3) \<open>i < n\<close>
            by (simp add: bitset_def)
        qed
      qed (simp add: bitset_def combined_def)
    qed
    moreover have "combine_masked f dst as bs n = Some (r OR ?w \<noteq> 0, ?d)"
      using l(1,2) False lt by (simp add: combine_masked_def BITS_PER_LONG_def arr_get_def arr_set_def Let_def)
    ultimately show ?thesis using l(2) by (intro exI [of _ ?d]) simp
  qed
qed

subsection \<open>Clearing a range\<close>

definition bit_at :: "bitmap \<Rightarrow> nat \<Rightarrow> bool" where
  "bit_at ws i \<longleftrightarrow> bit (ws ! (i div 64)) (i mod 64)"

lemma bit_at_update:
  assumes "p < length ws" "i < 64 * length ws"
  shows "bit_at (ws[p := w]) i \<longleftrightarrow> (if i div 64 = p then bit w (i mod 64) else bit_at ws i)"
  using assms by (auto simp: bit_at_def nth_list_update)

lemma clear_step_range:
  fixes A C X Y i :: nat
  assumes "D \<longleftrightarrow> C \<le> i \<and> i < A" "D \<Longrightarrow> L \<longleftrightarrow> X \<le> i" "now \<longleftrightarrow> old \<and> \<not> (D \<and> L)"
    "after \<longleftrightarrow> now \<and> \<not> (B \<le> i \<and> i < Y)" "B = A" "C \<le> X" "X \<le> A" "B \<le> Y"
  shows "after \<longleftrightarrow> old \<and> \<not> (X \<le> i \<and> i < Y)"
  using assms by (cases "i < A"; cases "C \<le> i") auto

lemma clear_loop_ok:
  assumes "0 < b" "b \<le> 64" "\<And>i. bit mk i \<longleftrightarrow> 64 - b \<le> i \<and> i < 64" "(p + 1) * 64 - b + len \<le> 64 * length ws"
  shows "\<exists>len' b' mk' p' ws'. bitmap_clear_loop (int len) (int b) mk p ws = Some (int len', mk', p', ws') \<and>
    length ws' = length ws \<and> len' < b' \<and> b' \<le> 64 \<and> (\<forall>i. bit mk' i \<longleftrightarrow> 64 - b' \<le> i \<and> i < 64) \<and>
    (p' + 1) * 64 - b' + len' = (p + 1) * 64 - b + len \<and>
    (\<forall>i<64 * length ws. bit_at ws' i \<longleftrightarrow> bit_at ws i \<and> \<not> ((p + 1) * 64 - b \<le> i \<and> i < (p' + 1) * 64 - b')) \<and>
    (p + 1) * 64 - b \<le> (p' + 1) * 64 - b'"
  using assms
proof (induction len arbitrary: b mk p ws rule: less_induct)
  case (less len)
  show ?case
  proof (cases "len < b")
    case True
    then have "bitmap_clear_loop (int len) (int b) mk p ws = Some (int len, mk, p, ws)"
      by (subst bitmap_clear_loop.simps) simp
    moreover have "\<forall>i. bit mk i \<longleftrightarrow> 64 - b \<le> i \<and> i < 64" using less.prems(3) by blast
    ultimately show ?thesis using True less.prems(2)
      by (intro exI [of _ len] exI [of _ b] exI [of _ mk] exI [of _ p] exI [of _ ws] conjI) simp_all
  next
    case False
    let ?ws = "ws[p := ws ! p AND NOT mk]"
    have p: "p < length ws" using less.prems(1,2,4) False by (simp add: algebra_simps)
    have e: "int len - int b = int (len - b)" using False by simp
    have "\<exists>len' b' mk' p' ws'. bitmap_clear_loop (int (len - b)) (int 64) (NOT 0) (p + 1) ?ws = Some (int len', mk', p', ws') \<and>
      length ws' = length ?ws \<and> len' < b' \<and> b' \<le> 64 \<and> (\<forall>i. bit mk' i \<longleftrightarrow> 64 - b' \<le> i \<and> i < 64) \<and>
      (p' + 1) * 64 - b' + len' = (p + 1 + 1) * 64 - 64 + (len - b) \<and>
      (\<forall>i<64 * length ?ws. bit_at ws' i \<longleftrightarrow> bit_at ?ws i \<and> \<not> ((p + 1 + 1) * 64 - 64 \<le> i \<and> i < (p' + 1) * 64 - b')) \<and>
      (p + 1 + 1) * 64 - 64 \<le> (p' + 1) * 64 - b'"
    proof (rule less.IH)
      show "len - b < len" using False less.prems(1) by simp
      show "bit (NOT 0 :: u64) i \<longleftrightarrow> 64 - 64 \<le> i \<and> i < 64" for i by (simp add: bit_simps)
      show "(p + 1 + 1) * 64 - 64 + (len - b) \<le> 64 * length ?ws" using less.prems False by simp
    qed simp_all
    then obtain len' b' mk' p' ws' where
      IH: "bitmap_clear_loop (int (len - b)) (int 64) (NOT 0) (p + 1) ?ws = Some (int len', mk', p', ws')"
      "length ws' = length ws" "len' < b'" "b' \<le> 64" "\<forall>i. bit mk' i \<longleftrightarrow> 64 - b' \<le> i \<and> i < 64"
      "(p' + 1) * 64 - b' + len' = (p + 1 + 1) * 64 - 64 + (len - b)"
      "\<forall>i<64 * length ws. bit_at ws' i \<longleftrightarrow> bit_at ?ws i \<and> \<not> ((p + 1 + 1) * 64 - 64 \<le> i \<and> i < (p' + 1) * 64 - b')"
      "(p + 1 + 1) * 64 - 64 \<le> (p' + 1) * 64 - b'" by auto
    have "bitmap_clear_loop (int len) (int b) mk p ws = Some (int len', mk', p', ws')"
    proof -
      have "bitmap_clear_loop (int len) (int b) mk p ws = bitmap_clear_loop (int len - int b) (int 64) (NOT 0) (p + 1) ?ws"
        using False p less.prems(1)
        by (subst bitmap_clear_loop.simps) (simp add: arr_get_def arr_set_def BITS_PER_LONG_def)
      then show ?thesis unfolding e IH(1) .
    qed
    moreover have "(p' + 1) * 64 - b' + len' = (p + 1) * 64 - b + len" using IH(6) False less.prems(2) by simp
    moreover have "bit_at ws' i \<longleftrightarrow> bit_at ws i \<and> \<not> ((p + 1) * 64 - b \<le> i \<and> i < (p' + 1) * 64 - b')" if "i < 64 * length ws" for i
    proof -
      have "i div 64 = p \<longleftrightarrow> p * 64 \<le> i \<and> i < (p + 1) * 64"
        by (metis add.commute div_nat_eqI dividend_less_div_times less_mult_imp_div_less mult.commute mult_Suc plus_1_eq_Suc times_div_less_eq_dividend zero_less_numeral)
      moreover have "64 - b \<le> i mod 64 \<longleftrightarrow> (p + 1) * 64 - b \<le> i" if "i div 64 = p"
      proof -
        have "(p + 1) * 64 - b = p * 64 + (64 - b)" using less.prems(2) by simp
        moreover have "i = p * 64 + i mod 64" using div_mult_mod_eq [of i 64] that by simp
        ultimately show ?thesis by (metis nat_add_left_cancel_le)
      qed
      moreover have "bit_at ?ws i \<longleftrightarrow> bit_at ws i \<and> \<not> (i div 64 = p \<and> 64 - b \<le> i mod 64)"
        using bit_at_update [OF p that, of "ws ! p AND NOT mk"] less.prems(3) [of "i mod 64"]
        by (auto simp: bit_and_iff bit_not_iff bit_at_def)
      moreover have "bit_at ws' i \<longleftrightarrow> bit_at ?ws i \<and> \<not> ((p + 1 + 1) * 64 - 64 \<le> i \<and> i < (p' + 1) * 64 - b')"
        using IH(7) that by blast
      moreover have "(p + 1 + 1) * 64 - 64 = (p + 1) * 64" "p * 64 \<le> (p + 1) * 64 - b" using less.prems(2) by simp_all
      moreover have "(p + 1) * 64 - b \<le> (p + 1) * 64" by (rule diff_le_self)
      ultimately show ?thesis using IH(8) by (rule clear_step_range)
    qed
    moreover have "(p + 1) * 64 - b \<le> (p' + 1) * 64 - b'" using IH(8) by simp
    ultimately show ?thesis using IH(2-5) by blast
  qed
qed

lemma bitmap_clear_ok:
  assumes "start + len \<le> 64 * length ws" "start + len < 2 ^ 31"
  shows "\<exists>ws'. bitmap_clear ws start (int len) = Some ws' \<and> length ws' = length ws \<and>
    (\<forall>i<64 * length ws. bit_at ws' i \<longleftrightarrow> bit_at ws i \<and> \<not> (start \<le> i \<and> i < start + len))"
proof -
  let ?b = "64 - start mod 64" and ?p = "start div 64"
  have "start mod 64 < 64" by simp
  moreover from this have "(?p + 1) * 64 - ?b = ?p * 64 + start mod 64" by simp
  then have pos: "(?p + 1) * 64 - ?b = start" by simp
  ultimately have b: "0 < ?b" "?b \<le> 64" by simp_all
  have mk: "bit (BITMAP_FIRST_WORD_MASK start) i \<longleftrightarrow> 64 - ?b \<le> i \<and> i < 64" for i
    using b unfolding bit_FIRST_WORD_MASK by auto
  from clear_loop_ok [OF b mk, of ?p len ws, unfolded pos, OF assms(1)] obtain len' b' mk' p' ws' where
    l: "bitmap_clear_loop (int len) (int ?b) (BITMAP_FIRST_WORD_MASK start) ?p ws = Some (int len', mk', p', ws')"
      "length ws' = length ws" "len' < b'" "b' \<le> 64" "\<forall>i. bit mk' i \<longleftrightarrow> 64 - b' \<le> i \<and> i < 64"
      "(p' + 1) * 64 - b' + len' = start + len"
      "\<forall>i<64 * length ws. bit_at ws' i \<longleftrightarrow> bit_at ws i \<and> \<not> (start \<le> i \<and> i < (p' + 1) * 64 - b')"
      "start \<le> (p' + 1) * 64 - b'" by blast
  have sz: "nat ((int start + int len) mod 2 ^ 32) = start + len" using assms(2) by simp
  have run: "bitmap_clear ws start (int len) =
      (if len' \<noteq> 0 then do { w \<leftarrow> arr_get ws' p'; arr_set ws' p' (w AND NOT (mk' AND BITMAP_LAST_WORD_MASK (start + len))) } else Some ws')"
    unfolding bitmap_clear_def BIT_WORD_def BITS_PER_LONG_def l(1) sz by simp
  show ?thesis
  proof (cases "len' = 0")
    case True
    then show ?thesis using run l(2,6,7) by auto
  next
    case False
    let ?m = "mk' AND BITMAP_LAST_WORD_MASK (start + len)"
    have "start + len = p' * 64 + (64 - b' + len')" using l(6) l(4) by simp
    moreover have lt: "64 - b' + len' < 64" using l(3,4) by linarith
    ultimately have md: "(start + len) mod 64 = 64 - b' + len'" by simp
    have p: "p' < length ws'" using l(2,3,4,6) False assms(1) by (simp add: algebra_simps)
    have "bit_at (ws'[p' := ws' ! p' AND NOT ?m]) i \<longleftrightarrow> bit_at ws i \<and> \<not> (start \<le> i \<and> i < start + len)"
      if "i < 64 * length ws" for i
    proof (cases "i div 64 = p'")
      case True
      define k where "k = i mod 64"
      have i: "i = p' * 64 + k" using div_mult_mod_eq [of i 64] True by (simp add: k_def)
      have m: "bit ?m k \<longleftrightarrow> 64 - b' \<le> k \<and> k < 64 - b' + len'"
        unfolding bit_and_iff bit_LAST_WORD_MASK md using spec [OF l(5), of k] False lt by auto
      have "(p' + 1) * 64 - b' = p' * 64 + (64 - b')" using l(4) by simp
      then have lo: "64 - b' \<le> k \<longleftrightarrow> (p' + 1) * 64 - b' \<le> i" using i by (metis nat_add_left_cancel_le)
      have hi: "k < 64 - b' + len' \<longleftrightarrow> i < start + len" using i \<open>start + len = _\<close> by (metis nat_add_left_cancel_less)
      have "bit_at (ws'[p' := ws' ! p' AND NOT ?m]) i \<longleftrightarrow> bit_at ws' i \<and> \<not> bit ?m k"
        using bit_at_update [OF p, of i "ws' ! p' AND NOT ?m"] that True l(2) bit_lt_64 [of "ws' ! p'" k]
        by (auto simp: bit_and_iff bit_or_iff bit_not_iff bit_at_def k_def)
      moreover have "bit_at ws' i \<longleftrightarrow> bit_at ws i \<and> \<not> (start \<le> i \<and> i < (p' + 1) * 64 - b')" using l(7) that by blast
      ultimately show ?thesis unfolding m lo hi using l(6,8) by auto
    next
      case neq: False
      have "\<not> ((p' + 1) * 64 - b' \<le> i \<and> i < start + len)"
      proof
        assume a: "(p' + 1) * 64 - b' \<le> i \<and> i < start + len"
        then have "p' * 64 \<le> i" "i < p' * 64 + 64" using l(3,4,6) by (auto simp: algebra_simps)
        then show False using neq by (simp add: div_nat_eqI)
      qed
      then show ?thesis using that neq l(2,6,7,8) bit_at_update [OF p, of i "ws' ! p' AND NOT ?m"] by auto
    qed
    moreover have "bitmap_clear ws start (int len) = Some (ws'[p' := ws' ! p' AND NOT ?m])"
      using run False p by (simp add: arr_get_def arr_set_def)
    ultimately show ?thesis using l(2) by (intro exI [of _ "ws'[p' := ws' ! p' AND NOT ?m]"]) simp
  qed
qed

subsection \<open>The inline interface\<close>

text \<open>Bitmaps of at most 64 bits are one masked word.\<close>

lemma small_word:
  assumes "0 < n" "n \<le> 64" "fits_bits n ws"
  shows "bit (BITMAP_LAST_WORD_MASK n) b \<longleftrightarrow> b < n" and "bitset n ws = {i. i < n \<and> bit (ws ! 0) i}"
    and "arr_get ws 0 = Some (ws ! 0)"
proof -
  have "n mod 64 = (if n = 64 then 0 else n)" using assms by auto
  then show "bit (BITMAP_LAST_WORD_MASK n) b \<longleftrightarrow> b < n" using assms by (auto simp: bit_LAST_WORD_MASK)
  show "bitset n ws = {i. i < n \<and> bit (ws ! 0) i}" using assms(2) by (auto simp: bitset_def)
  show "arr_get ws 0 = Some (ws ! 0)" by (rule zero_word_bit [OF assms(3,1)])
qed

lemma small_consts:
  "small_const_nbits0 const n \<Longrightarrow> 0 < n \<Longrightarrow> n \<le> 64" "small_const_nbits const n \<Longrightarrow> 0 < n \<and> n \<le> 64"
  by (auto simp: small_const_nbits0_def small_const_nbits_def BITS_PER_LONG_def)

lemma masked_small: "0 < n \<Longrightarrow> n \<le> 64 \<Longrightarrow> fits_bits n ws \<Longrightarrow>
    w AND BITMAP_LAST_WORD_MASK n \<noteq> 0 \<longleftrightarrow> (\<exists>i<n. bit w i)"
  by (auto simp: word_nonzero_bit bit_and_iff small_word(1))

lemma bitmap_empty_ok:
  assumes "0 < n" "fits_bits n ws" shows "bitmap_empty const ws n = Some (bitset n ws = {})"
proof (cases "small_const_nbits0 const n")
  case True
  note le = small_consts(1) [OF True assms(1)]
  have "ws ! 0 AND BITMAP_LAST_WORD_MASK n = 0 \<longleftrightarrow> bitset n ws = {}"
    using masked_small [OF assms(1) le assms(2), of "ws ! 0"] small_word(2) [OF assms(1) le assms(2)] by auto
  then show ?thesis using True small_word(3) [OF assms(1) le assms(2)] by (simp add: bitmap_empty_def)
next
  case False
  have "bitset n ws \<subseteq> {..<n}" by (auto simp: bitset_def)
  then show ?thesis using False find_first_bit_ok [OF assms(2)] empty_iff_next by (simp add: bitmap_empty_def)
qed

lemma bitmap_full_ok:
  assumes "0 < n" "fits_bits n ws" shows "bitmap_full const ws n = Some (bitset n ws = {..<n})"
proof (cases "small_const_nbits0 const n")
  case True
  note le = small_consts(1) [OF True assms(1)]
  have "NOT (ws ! 0) AND BITMAP_LAST_WORD_MASK n \<noteq> 0 \<longleftrightarrow> (\<exists>i<n. \<not> bit (ws ! 0) i)"
    using masked_small [OF assms(1) le assms(2), of "NOT (ws ! 0)"] le by (auto simp: bit_not_iff)
  then have "NOT (ws ! 0) AND BITMAP_LAST_WORD_MASK n = 0 \<longleftrightarrow> bitset n ws = {..<n}"
    using small_word(2) [OF assms(1) le assms(2)] by auto
  then show ?thesis using True small_word(3) [OF assms(1) le assms(2)] by (simp add: bitmap_full_def)
next
  case False
  have "{..<n} - bitset n ws = {} \<longleftrightarrow> bitset n ws = {..<n}" by (auto simp: bitset_def)
  then show ?thesis using False find_first_zero_bit_ok [OF assms(2)] empty_iff_next [of "{..<n} - bitset n ws" n]
    by (simp add: bitmap_full_def)
qed

lemma bitmap_weight_ok:
  assumes "0 < n" "fits_bits n ws" shows "bitmap_weight const ws n = Some (card (bitset n ws))"
proof (cases "small_const_nbits0 const n")
  case True
  note le = small_consts(1) [OF True assms(1)]
  have "hweight_long (ws ! 0 AND BITMAP_LAST_WORD_MASK n) = card {i. i < 64 \<and> bit (ws ! 0 AND BITMAP_LAST_WORD_MASK n) i}"
    by (simp add: hweight_long_def sw_hweight64_sum sum_bits_card bit_unsigned_iff)
  also have "{i. i < 64 \<and> bit (ws ! 0 AND BITMAP_LAST_WORD_MASK n) i} = bitset n ws"
    using le by (auto simp: bit_and_iff small_word [OF assms(1) le assms(2)])
  finally show ?thesis using True small_word(3) [OF assms(1) le assms(2)] by (simp add: bitmap_weight_def)
qed (simp add: bitmap_weight_def weight_ok [OF assms(2)])

lemma small_combine:
  assumes "0 < n" "n \<le> 64" "fits_bits n as" "fits_bits n bs" "fits_bits n dst" "bitwise f g"
  defines "w \<equiv> f (as ! 0) (bs ! 0) AND BITMAP_LAST_WORD_MASK n"
  shows "(w \<noteq> 0 \<longleftrightarrow> combined g n as bs \<noteq> {}) \<and> bitset n (dst[0 := w]) = combined g n as bs"
proof -
  have b: "bit w i \<longleftrightarrow> i \<in> combined g n as bs" for i
  proof (cases "i < n")
    case True
    then have "i < 64" using assms(2) by simp
    then show ?thesis using True combined_bit [OF assms(6) True, of as bs] assms(1-3)
      by (simp add: w_def bit_and_iff small_word(1))
  qed (simp add: w_def bit_and_iff small_word(1) [OF assms(1-3)] combined_def)
  have "0 < length dst" using word_in_range [OF assms(5,1)] by simp
  moreover have "fits_bits n (dst[0 := w])" using assms(5) by (simp add: fits_bits_def)
  ultimately have "bitset n (dst[0 := w]) = {i. i < n \<and> bit w i}" using small_word(2) [OF assms(1,2)] by simp
  moreover have "{i. i < n \<and> bit w i} = combined g n as bs" unfolding b by (auto simp: combined_def)
  moreover have "w \<noteq> 0 \<longleftrightarrow> combined g n as bs \<noteq> {}" unfolding word_nonzero_bit b by blast
  ultimately show ?thesis by blast
qed

lemma bitmap_and_ok:
  assumes "0 < n" "fits_bits n as" "fits_bits n bs" "fits_bits n dst"
  shows "\<exists>dst'. bitmap_and const dst as bs n = Some (bitset n as \<inter> bitset n bs \<noteq> {}, dst') \<and>
    length dst' = length dst \<and> bitset n dst' = bitset n as \<inter> bitset n bs"
proof -
  have c: "combined (\<and>) n as bs = bitset n as \<inter> bitset n bs" by (auto simp: combined_def bitset_def)
  show ?thesis
  proof (cases "small_const_nbits0 const n")
    case True
    note le = small_consts(1) [OF True assms(1)]
    let ?w = "as ! 0 AND bs ! 0 AND BITMAP_LAST_WORD_MASK n"
    have "bitmap_and const dst as bs n = Some (?w \<noteq> 0, dst[0 := ?w])"
      using True small_word(3) [OF assms(1) le] assms word_in_range [OF assms(4,1)]
      by (simp add: bitmap_and_def arr_set_def Let_def)
    then show ?thesis using small_combine [OF assms(1) le assms(2,3,4) bitwise_ops(1)] unfolding c by (simp add: and.assoc)
  next
    case False
    then show ?thesis using masked_ok [OF assms(2,3,4) bitwise_ops(1)] unfolding c
      by (simp add: bitmap_and_def bitmap_and_words_def)
  qed
qed

lemma bitmap_andnot_ok:
  assumes "fits_bits n as" "fits_bits n bs" "fits_bits n dst"
  shows "\<exists>dst'. bitmap_andnot const dst as bs n = Some (bitset n as - bitset n bs \<noteq> {}, dst') \<and>
    length dst' = length dst \<and> bitset n dst' = bitset n as - bitset n bs"
proof -
  have c: "combined (\<lambda>p q. p \<and> \<not> q) n as bs = bitset n as - bitset n bs" by (auto simp: combined_def bitset_def)
  show ?thesis
  proof (cases "small_const_nbits const n")
    case True
    have n: "0 < n" "n \<le> 64" using small_consts(2) [OF True] by auto
    let ?w = "as ! 0 AND NOT (bs ! 0) AND BITMAP_LAST_WORD_MASK n"
    have "bitmap_andnot const dst as bs n = Some (?w \<noteq> 0, dst[0 := ?w])"
      using True small_word(3) [OF n] assms word_in_range [OF assms(3) n(1)]
      by (simp add: bitmap_andnot_def arr_set_def Let_def)
    then show ?thesis using small_combine [OF n assms bitwise_ops(3)] unfolding c by (simp add: and.assoc)
  next
    case False
    then show ?thesis using masked_ok [OF assms bitwise_ops(3)] unfolding c
      by (simp add: bitmap_andnot_def bitmap_andnot_words_def)
  qed
qed

lemma bitmap_or_ok:
  assumes "0 < n" "fits_bits n as" "fits_bits n bs" "fits_bits n dst"
  shows "\<exists>dst'. bitmap_or const dst as bs n = Some dst' \<and> length dst' = length dst \<and>
    bitset n dst' = bitset n as \<union> bitset n bs"
proof (cases "small_const_nbits0 const n")
  case True
  note le = small_consts(1) [OF True assms(1)]
  have "bitmap_or const dst as bs n = Some (dst[0 := as ! 0 OR bs ! 0])"
    using True small_word(3) [OF assms(1) le] assms word_in_range [OF assms(4,1)] by (simp add: bitmap_or_def arr_set_def)
  moreover have "bitset n (dst[0 := as ! 0 OR bs ! 0]) = bitset n as \<union> bitset n bs"
    using le word_in_range [OF assms(4,1)] by (auto simp: bitset_def bit_or_iff)
  ultimately show ?thesis by simp
qed (simp add: bitmap_or_def or_ok assms)

end
