(* ===== verification/Bitmap_Props.thy ===== *)
theory Bitmap_Props
  imports Bitmap_Sets
begin

section \<open>Properties of bitmaps\<close>

text \<open>
  Single bits, filling and copying, the comparison of whole bytes, iteration over the members, and
  the properties of the component.
\<close>

subsection \<open>Single bits\<close>

lemma bit_BIT_MASK: "bit (BIT_MASK nr) b \<longleftrightarrow> b = nr mod 64"
  by (auto simp: BIT_MASK_def BITS_PER_LONG_def bit_simps)

lemma and_BIT_MASK: "w AND BIT_MASK nr \<noteq> 0 \<longleftrightarrow> bit w (nr mod 64)"
  by (auto simp: word_nonzero_bit bit_and_iff bit_BIT_MASK)

lemma update_bit:
  assumes "nr < n" "fits_bits n ws" "\<And>b. b < 64 \<Longrightarrow> bit w b \<longleftrightarrow> (if b = nr mod 64 then v else bit (ws ! (nr div 64)) b)"
  shows "bitset n (ws[nr div 64 := w]) = (if v then insert nr (bitset n ws) else bitset n ws - {nr})"
proof (intro set_eqI)
  fix i
  have lt: "nr div 64 < length ws" by (rule word_in_range [OF assms(2,1)])
  have "i = nr \<longleftrightarrow> i div 64 = nr div 64 \<and> i mod 64 = nr mod 64" by (metis div_mult_mod_eq)
  then show "i \<in> bitset n (ws[nr div 64 := w]) \<longleftrightarrow> i \<in> (if v then insert nr (bitset n ws) else bitset n ws - {nr})"
    using lt assms(1) assms(3) [of "i mod 64"] by (auto simp: bitset_def nth_list_update)
qed

lemma bit_word_access:
  assumes "nr < n" "fits_bits n ws"
  shows "arr_get ws (BIT_WORD nr) = Some (ws ! (nr div 64))" "arr_set ws (BIT_WORD nr) w = Some (ws[nr div 64 := w])"
  using word_in_range [OF assms(2,1)] by (simp_all add: BIT_WORD_def BITS_PER_LONG_def arr_get_def arr_set_def)

lemma bit_member: "nr < n \<Longrightarrow> bit (ws ! (nr div 64)) (nr mod 64) \<longleftrightarrow> nr \<in> bitset n ws"
  by (simp add: bitset_def)

lemma test_bit_ok: "nr < n \<Longrightarrow> fits_bits n ws \<Longrightarrow> test_bit nr ws = Some (nr \<in> bitset n ws)"
  by (simp add: test_bit_def bit_word_access BITS_PER_LONG_def bit_member [symmetric] and.commute [of 1]
      and_one_eq odd_iff_mod_2_eq_one bit_iff_odd_drop_bit)

lemma set_bit_ok:
  assumes "nr < n" "fits_bits n ws"
  shows "\<exists>ws'. set_bit_nonatomic nr ws = Some ws' \<and> set_bit_atomic nr ws = Some ws' \<and>
    test_and_set_bit nr ws = Some (nr \<in> bitset n ws, ws') \<and> test_and_set_bit_nonatomic nr ws = Some (nr \<in> bitset n ws, ws') \<and>
    length ws' = length ws \<and> bitset n ws' = insert nr (bitset n ws)"
proof -
  let ?w = "ws ! (nr div 64) OR BIT_MASK nr"
  have "bitset n (ws[nr div 64 := ?w]) = insert nr (bitset n ws)"
    using update_bit [OF assms, of ?w True] by (simp add: bit_or_iff bit_BIT_MASK)
  then show ?thesis using bit_word_access [OF assms] and_BIT_MASK [of "ws ! (nr div 64)" nr] bit_member [OF assms(1), of ws]
    by (simp add: set_bit_nonatomic_def set_bit_atomic_def test_and_set_bit_def test_and_set_bit_nonatomic_def
        BIT_WORD_def BITS_PER_LONG_def BIT_MASK_def)
qed

lemma clear_bit_ok:
  assumes "nr < n" "fits_bits n ws"
  shows "\<exists>ws'. clear_bit_nonatomic nr ws = Some ws' \<and> clear_bit_atomic nr ws = Some ws' \<and>
    test_and_clear_bit nr ws = Some (nr \<in> bitset n ws, ws') \<and> test_and_clear_bit_nonatomic nr ws = Some (nr \<in> bitset n ws, ws') \<and>
    length ws' = length ws \<and> bitset n ws' = bitset n ws - {nr}"
proof -
  let ?w = "ws ! (nr div 64) AND NOT (BIT_MASK nr)"
  have "bitset n (ws[nr div 64 := ?w]) = bitset n ws - {nr}"
    using update_bit [OF assms, of ?w False] by (simp add: bit_and_iff bit_not_iff bit_BIT_MASK)
  then show ?thesis using bit_word_access [OF assms] and_BIT_MASK [of "ws ! (nr div 64)" nr] bit_member [OF assms(1), of ws]
    by (simp add: clear_bit_nonatomic_def clear_bit_atomic_def test_and_clear_bit_def test_and_clear_bit_nonatomic_def
        BIT_WORD_def BITS_PER_LONG_def BIT_MASK_def)
qed

lemma change_bit_ok:
  assumes "nr < n" "fits_bits n ws"
  shows "\<exists>ws'. change_bit_nonatomic nr ws = Some ws' \<and> test_and_change_bit_nonatomic nr ws = Some (nr \<in> bitset n ws, ws') \<and>
    length ws' = length ws \<and> bitset n ws' = (if nr \<in> bitset n ws then bitset n ws - {nr} else insert nr (bitset n ws))"
proof -
  let ?w = "ws ! (nr div 64) XOR BIT_MASK nr"
  have "bitset n (ws[nr div 64 := ?w]) = (if nr \<in> bitset n ws then bitset n ws - {nr} else insert nr (bitset n ws))"
    using update_bit [OF assms, of ?w "nr \<notin> bitset n ws"] bit_member [OF assms(1), of ws]
    by (simp add: bit_xor_iff bit_BIT_MASK)
  then show ?thesis using bit_word_access [OF assms] and_BIT_MASK [of "ws ! (nr div 64)" nr] bit_member [OF assms(1), of ws]
    by (simp add: change_bit_nonatomic_def test_and_change_bit_nonatomic_def)
qed

subsection \<open>Zeroing, filling and copying\<close>

lemma zero_ok:
  assumes "0 < n" "fits_bits n ws"
  shows "\<exists>ws'. bitmap_zero const ws n = Some ws' \<and> length ws' = length ws \<and> bitset n ws' = {}"
proof (cases "small_const_nbits0 const n")
  case True
  have "0 < length ws" using word_in_range [OF assms(2,1)] by simp
  moreover have "bitset n (ws[0 := 0]) = {}"
    using small_word(2) [OF assms(1) small_consts(1) [OF True assms(1)], of "ws[0 := 0]"] assms(2) calculation
    by (simp add: fits_bits_def)
  ultimately show ?thesis using True by (simp add: bitmap_zero_def arr_set_def)
next
  case False
  let ?ws = "replicate (BITS_TO_LONGS n) 0 @ drop (BITS_TO_LONGS n) ws"
  have "i div 64 < BITS_TO_LONGS n" if "i < n" for i using that by (simp add: BITS_TO_LONGS_def BITS_PER_LONG_def)
  then have "bitset n ?ws = {}" by (auto simp: bitset_def nth_append)
  then show ?thesis using False assms(2) by (simp add: bitmap_zero_def set_words_def fits_bits_def)
qed

lemma longs_pos: "0 < n \<Longrightarrow> BITS_TO_LONGS n = (n - 1) div 64 + 1"
  by (simp add: BITS_TO_LONGS_def BITS_PER_LONG_def)

lemma fill_ok:
  assumes "0 < n" "fits_bits n ws"
  shows "\<exists>ws'. bitmap_fill const ws n = Some ws' \<and> length ws' = length ws \<and> bitset n ws' = {..<n}"
proof -
  let ?k = "(n - 1) div 64"
  have k: "BITS_TO_LONGS n = Suc ?k" using longs_pos [OF assms(1)] by simp
  then have len: "?k < length ws" using assms(2) by (simp add: fits_bits_def)
  define d where "d = (if small_const_nbits0 const n then ws else replicate ?k (NOT 0) @ drop ?k ws)"
  have d: "length d = length ws" using len by (simp add: d_def)
  have run: "bitmap_fill const ws n = Some (d[?k := BITMAP_LAST_WORD_MASK n])"
    using len d by (simp add: bitmap_fill_def k set_words_def arr_set_def d_def)
  have "bitset n (d[?k := BITMAP_LAST_WORD_MASK n]) = {..<n}"
  proof (intro set_eqI)
    fix i
    show "i \<in> bitset n (d[?k := BITMAP_LAST_WORD_MASK n]) \<longleftrightarrow> i \<in> {..<n}"
    proof (cases "i < n")
      case True
      then have "i \<le> n - 1" by simp
      then have le: "i div 64 \<le> ?k" by (rule div_le_mono)
      show ?thesis
      proof (cases "i div 64 = ?k")
        case True
        have i: "i = ?k * 64 + i mod 64" using True div_mult_mod_eq [of i 64] by simp
        have "i mod 64 < n mod 64" if "n mod 64 \<noteq> 0"
        proof -
          have "n = ?k * 64 + n mod 64" using last_word_index(2) [OF assms(1)] unfolding if_not_P [OF that] .
          then show ?thesis using i \<open>i < n\<close> by linarith
        qed
        then show ?thesis using True \<open>i < n\<close> len d by (simp add: bitset_def bit_LAST_WORD_MASK)
      next
        case False
        then have "i div 64 < ?k" using le by simp
        moreover from this have "\<not> small_const_nbits0 const n"
          using small_consts(1) [OF _ assms(1), of const] by (auto simp: div_less)
        ultimately show ?thesis using \<open>i < n\<close> by (simp add: bitset_def d_def nth_append bit_not_iff)
      qed
    qed (simp add: bitset_def)
  qed
  then show ?thesis using run d by simp
qed

lemma copy_ok:
  assumes "fits_bits n dst" "fits_bits n src"
  shows "\<exists>dst'. bitmap_copy dst src n = Some dst' \<and> length dst' = length dst \<and> bitset n dst' = bitset n src"
proof -
  let ?n = "BITS_TO_LONGS n"
  let ?d = "take ?n src @ drop ?n dst"
  have "?d ! (i div 64) = src ! (i div 64)" if "i < n" for i
  proof -
    have "i div 64 < ?n" using that by (simp add: BITS_TO_LONGS_def BITS_PER_LONG_def)
    then show ?thesis using assms(2) by (simp add: nth_append fits_bits_def)
  qed
  then have "bitset n ?d = bitset n src" by (auto simp: bitset_def)
  then show ?thesis using assms by (simp add: bitmap_copy_def fits_bits_def Let_def)
qed

subsection \<open>Comparing\<close>

lemma all_less_add: "(\<forall>i<(m + k :: nat). P i) \<longleftrightarrow> (\<forall>i<m. P i) \<and> (\<forall>b<k. P (m + b))"
proof
  assume a: "(\<forall>i<m. P i) \<and> (\<forall>b<k. P (m + b))"
  have "P i" if "i < m + k" for i
  proof (cases "i < m")
    case False
    then show ?thesis using a that spec [OF conjunct2 [OF a], of "i - m"] by simp
  qed (use a in blast)
  then show "\<forall>i<m + k. P i" by blast
qed auto

lemma bitset_step: "bitset (8 * Suc m) as = bitset (8 * Suc m) bs \<longleftrightarrow>
    bitset (8 * m) as = bitset (8 * m) bs \<and> (\<forall>b<8. bit_at as (8 * m + b) = bit_at bs (8 * m + b))"
proof -
  have "bitset n as = bitset n bs \<longleftrightarrow> (\<forall>i<n. bit_at as i = bit_at bs i)" for n
    by (auto simp: bitset_def bit_at_def)
  moreover have "8 * Suc m = 8 * m + 8" by simp
  ultimately show ?thesis using all_less_add [of "8 * m" 8 "\<lambda>i. bit_at as i = bit_at bs i"] by (simp add: add.commute)
qed

lemma byte_at_ok:
  assumes "j div 8 < length ws"
  shows "\<exists>v. byte_at ws j = Some v \<and> (\<forall>b. bit v b \<longleftrightarrow> b < 8 \<and> bit_at ws (8 * j + b))"
proof -
  let ?v = "drop_bit (8 * (j mod 8)) (ws ! (j div 8)) AND 0xff"
  have ff: "(0xff :: u64) = mask 8" by (simp add: mask_eq_exp_minus_1)
  have "bit ?v b \<longleftrightarrow> b < 8 \<and> bit_at ws (8 * j + b)" for b
  proof (cases "b < 8")
    case True
    have "8 * j + b = j div 8 * 64 + (8 * (j mod 8) + b)"
      using div_mult_mod_eq [of j 8] by linarith
    moreover have "8 * (j mod 8) + b < 64" using True mod_less_divisor [of 8 j] by linarith
    ultimately have "(8 * j + b) div 64 = j div 8" "(8 * j + b) mod 64 = 8 * (j mod 8) + b"
      by (simp_all only: div_mult_self3 mod_mult_self3 div_less mod_less)
    then show ?thesis using True by (simp add: bit_at_def ff bit_and_iff bit_drop_bit_eq bit_mask_iff)
  qed (simp add: ff bit_and_iff bit_mask_iff)
  then show ?thesis using assms by (simp add: byte_at_def arr_get_def)
qed

lemma memcmp_ok: "m \<le> 8 * length as \<Longrightarrow> m \<le> 8 * length bs \<Longrightarrow>
    memcmp_equal as bs m = Some (bitset (8 * m) as = bitset (8 * m) bs)"
proof (induction m)
  case 0
  then show ?case by (simp add: bitset_def)
next
  case (Suc m)
  have "m div 8 < length as" "m div 8 < length bs" using Suc.prems by auto
  from byte_at_ok [OF this(1)] byte_at_ok [OF this(2)] obtain v w where
    v: "byte_at as m = Some v" "\<forall>b. bit v b \<longleftrightarrow> b < 8 \<and> bit_at as (8 * m + b)"
    and w: "byte_at bs m = Some w" "\<forall>b. bit w b \<longleftrightarrow> b < 8 \<and> bit_at bs (8 * m + b)" by blast
  have "v = w \<longleftrightarrow> (\<forall>b. bit v b = bit w b)" by (metis bit_eqI)
  also have "\<dots> \<longleftrightarrow> (\<forall>b<8. bit_at as (8 * m + b) = bit_at bs (8 * m + b))" using v(2) w(2) by blast
  finally show ?case using Suc v(1) w(1) bitset_step [of m as bs] by simp
qed

lemma fits_bytes: "fits_bits n ws \<Longrightarrow> n mod 8 = 0 \<Longrightarrow> n div 8 \<le> 8 * length ws"
  by (simp add: fits_bits_def BITS_TO_LONGS_def BITS_PER_LONG_def)

lemma bitmap_equal_ok:
  assumes "fits_bits n as" "fits_bits n bs"
  shows "bitmap_equal const as bs n = Some (bitset n as = bitset n bs)"
proof (cases "small_const_nbits const n")
  case True
  have n: "0 < n" "n \<le> 64" using small_consts(2) [OF True] by auto
  have "(as ! 0 XOR bs ! 0) AND BITMAP_LAST_WORD_MASK n \<noteq> 0 \<longleftrightarrow> bitset n as \<noteq> bitset n bs"
    unfolding masked_small [OF n assms(1)] small_word(2) [OF n assms(1)] small_word(2) [OF n assms(2)]
    by (auto simp: bit_xor_iff)
  then show ?thesis using True small_word(3) [OF n assms(1)] small_word(3) [OF n assms(2)] by (auto simp: bitmap_equal_def)
next
  case False
  show ?thesis
  proof (cases "const \<and> n mod 8 = 0")
    case True
    then have "8 * (n div 8) = n" by auto
    then show ?thesis using memcmp_ok [of "n div 8" as bs] fits_bytes assms False True by (simp add: bitmap_equal_def)
  next
    case nc: False
    show ?thesis unfolding bitmap_equal_def if_not_P [OF False] if_not_P [OF nc] by (rule equal_ok [OF assms])
  qed
qed

lemma bitmap_intersects_ok:
  assumes "fits_bits n as" "fits_bits n bs"
  shows "bitmap_intersects const as bs n = Some (bitset n as \<inter> bitset n bs \<noteq> {})"
proof (cases "small_const_nbits const n")
  case True
  have n: "0 < n" "n \<le> 64" using small_consts(2) [OF True] by auto
  have "(as ! 0 AND bs ! 0) AND BITMAP_LAST_WORD_MASK n \<noteq> 0 \<longleftrightarrow> bitset n as \<inter> bitset n bs \<noteq> {}"
    unfolding masked_small [OF n assms(1)] small_word(2) [OF n assms(1)] small_word(2) [OF n assms(2)]
    by (auto simp: bit_and_iff)
  then show ?thesis using True small_word(3) [OF n assms(1)] small_word(3) [OF n assms(2)]
    by (simp add: bitmap_intersects_def and.assoc)
qed (simp add: bitmap_intersects_def intersects_ok [OF assms])

lemma bitmap_subset_ok:
  assumes "fits_bits n as" "fits_bits n bs"
  shows "bitmap_subset const as bs n = Some (bitset n as \<subseteq> bitset n bs)"
proof (cases "small_const_nbits const n")
  case True
  have n: "0 < n" "n \<le> 64" using small_consts(2) [OF True] by auto
  have "(as ! 0 AND NOT (bs ! 0)) AND BITMAP_LAST_WORD_MASK n \<noteq> 0 \<longleftrightarrow> \<not> bitset n as \<subseteq> bitset n bs"
    unfolding masked_small [OF n assms(1)] small_word(2) [OF n assms(1)] small_word(2) [OF n assms(2)]
    using n by (auto simp: bit_and_iff bit_not_iff)
  then show ?thesis using True small_word(3) [OF n assms(1)] small_word(3) [OF n assms(2)]
    by (auto simp: bitmap_subset_def and.assoc)
qed (simp add: bitmap_subset_def subset_ok [OF assms])

subsection \<open>Iteration\<close>

text \<open>The loop macros \<^verbatim>\<open>for_each_set_bit\<close> and \<^verbatim>\<open>for_each_cpu\<close>: search for the next member from a position, stop at
  the bound, run the body and go on after the member. The model returns the members in the order of
  the visits.\<close>

primrec for_each_bit :: "nat \<Rightarrow> (nat \<Rightarrow> nat option) \<Rightarrow> nat \<Rightarrow> nat \<Rightarrow> nat list option" where
  "for_each_bit 0 nxt bound i = None"
| "for_each_bit (Suc fuel) nxt bound i = do {
     j \<leftarrow> nxt i;
     if j < bound then do { js \<leftarrow> for_each_bit fuel nxt bound (j + 1); Some (j # js) } else Some [] }"

locale bit_iteration =
  fixes nxt :: "'m \<Rightarrow> nat \<Rightarrow> nat option"
    and members :: "'m \<Rightarrow> nat set"
    and ok :: "'m \<Rightarrow> bool"
    and bound :: "'m \<Rightarrow> nat"
  assumes members_bound: "ok m \<Longrightarrow> members m \<subseteq> {..<bound m}"
    and nxt_member: "ok m \<Longrightarrow> nxt m i = Some (next_in (members m) (bound m) i)"
begin

lemma finite_members: "ok m \<Longrightarrow> finite (members m)"
  using members_bound finite_subset by blast

lemma visits_from:
  assumes "ok m" "bound m - i < fuel"
  shows "for_each_bit fuel (nxt m) (bound m) i = Some (sorted_list_of_set {j \<in> members m. i \<le> j})"
  using assms(2)
proof (induction fuel arbitrary: i)
  case (Suc fuel)
  let ?n = "next_in (members m) (bound m) i"
  have "finite (members m)" by (rule finite_members [OF assms(1)])
  then show ?case
  proof (cases rule: next_in_cases [of "members m" "bound m" i])
    case none
    then have e: "{j \<in> members m. i \<le> j} = {}" using leD by blast
    show ?thesis unfolding e using none(1) nxt_member [OF assms(1), of i] by simp
  next
    case some
    have lt: "?n < bound m" using some(1) members_bound [OF assms(1)] by blast
    then have IH: "for_each_bit fuel (nxt m) (bound m) (?n + 1) = Some (sorted_list_of_set {j \<in> members m. ?n + 1 \<le> j})"
      using Suc some(2) by simp
    let ?A = "{j \<in> members m. i \<le> j}"
    have "Min ?A = ?n" using some \<open>finite (members m)\<close> by (intro Min_eqI) auto
    moreover have "?A - {?n} = {j \<in> members m. ?n + 1 \<le> j}"
    proof (intro set_eqI)
      fix j
      show "j \<in> ?A - {?n} \<longleftrightarrow> j \<in> {j \<in> members m. ?n + 1 \<le> j}" using some(2) some(3) [of j] by auto
    qed
    moreover have "finite ?A" "?A \<noteq> {}" using some \<open>finite (members m)\<close> by auto
    ultimately have "sorted_list_of_set ?A = ?n # sorted_list_of_set {j \<in> members m. ?n + 1 \<le> j}"
      using sorted_list_of_set_nonempty [of ?A] by metis
    then show ?thesis using IH lt nxt_member [OF assms(1), of i] by simp
  qed
qed simp

lemma visits_all:
  "ok m \<Longrightarrow> for_each_bit (bound m + 1) (nxt m) (bound m) 0 = Some (sorted_list_of_set (members m))"
  using visits_from [of m 0 "bound m + 1"] by simp

end

interpretation set_bits: bit_iteration "\<lambda>(n, ws). find_next_bit const ws n" "\<lambda>(n, ws). bitset n ws" "\<lambda>(n, ws). fits_bits n ws" fst
  for const by unfold_locales (auto simp: find_next_bit_ok dest: bitset_bound)

interpretation clear_bits: bit_iteration "\<lambda>(n, ws). find_next_zero_bit const ws n" "\<lambda>(n, ws). {..<n} - bitset n ws"
  "\<lambda>(n, ws). fits_bits n ws" fst
  for const by unfold_locales (auto simp: find_next_zero_bit_ok)

interpretation common_bits: bit_iteration "\<lambda>(n, ws, vs). find_next_and_bit const ws vs n" "\<lambda>(n, ws, vs). bitset n ws \<inter> bitset n vs"
  "\<lambda>(n, ws, vs). fits_bits n ws \<and> fits_bits n vs" fst
  for const by unfold_locales (auto simp: find_next_and_bit_ok dest: bitset_bound)

subsection \<open>Properties\<close>

text \<open>C7. The searches return the next (first, last) member, common member or non-member of the bitmap from
  the given position, and the size where there is none. The result does not depend on whether the
  compiler takes the path for small constant sizes.\<close>

theorem bitmap_searches_correct:
  assumes "fits_bits n ws" "fits_bits n vs"
  shows "find_next_bit const ws n i = Some (next_in (bitset n ws) n i) \<and>
    find_next_zero_bit const ws n i = Some (next_in ({..<n} - bitset n ws) n i) \<and>
    find_next_and_bit const ws vs n i = Some (next_in (bitset n ws \<inter> bitset n vs) n i) \<and>
    find_first_bit ws n = Some (next_in (bitset n ws) n 0) \<and>
    find_first_zero_bit ws n = Some (next_in ({..<n} - bitset n ws) n 0) \<and>
    find_last_bit ws n = Some (if bitset n ws = {} then n else Max (bitset n ws))"
  using assms by (simp add: find_next_bit_ok find_next_zero_bit_ok find_next_and_bit_ok find_first_bit_ok
      find_first_zero_bit_ok find_last_bit_ok last_in_def)

lemma sample_fits: "fits_bits 70 [0x10, 0x3]" "fits_bits 70 [0xff, 0x2]"
  by (simp_all add: fits_bits_def BITS_TO_LONGS_def BITS_PER_LONG_def)

theorem bitmap_searches_correct_witness:
  "find_next_bit False [0x10, 0x3] 70 5 = Some (next_in (bitset 70 [0x10, 0x3]) 70 5) \<and>
   find_last_bit [0x10, 0x3] 70 =
     Some (if bitset 70 [0x10, 0x3] = {} then 70 else Max (bitset 70 [0x10, 0x3]))"
  using bitmap_searches_correct [OF sample_fits, of False 5] by blast

text \<open>C10. Intersection, union and difference of bitmaps are those of the sets they stand for; the
  boolean results say whether the set is not empty; zeroing, filling and copying give the empty
  set, all bits and the source.\<close>

theorem bitmap_combine_refines:
  assumes "0 < n" "fits_bits n as" "fits_bits n bs" "fits_bits n dst"
  shows "(\<exists>d. bitmap_and const dst as bs n = Some (bitset n as \<inter> bitset n bs \<noteq> {}, d) \<and> bitset n d = bitset n as \<inter> bitset n bs) \<and>
    (\<exists>d. bitmap_andnot const dst as bs n = Some (bitset n as - bitset n bs \<noteq> {}, d) \<and> bitset n d = bitset n as - bitset n bs) \<and>
    (\<exists>d. bitmap_or const dst as bs n = Some d \<and> bitset n d = bitset n as \<union> bitset n bs) \<and>
    (\<exists>d. bitmap_zero const dst n = Some d \<and> bitset n d = {}) \<and>
    (\<exists>d. bitmap_fill const dst n = Some d \<and> bitset n d = {..<n}) \<and>
    (\<exists>d. bitmap_copy dst as n = Some d \<and> bitset n d = bitset n as)"
  using bitmap_and_ok [OF assms, of const] bitmap_andnot_ok [OF assms(2-4), of const] bitmap_or_ok [OF assms, of const]
    zero_ok [OF assms(1,4), of const] fill_ok [OF assms(1,4), of const] copy_ok [OF assms(4,2)]
  by blast

theorem bitmap_combine_refines_witness:
  "\<exists>d. bitmap_and False [0, 0] [0x10, 0x3] [0xff, 0x2] 70 = Some (bitset 70 [0x10, 0x3] \<inter> bitset 70 [0xff, 0x2] \<noteq> {}, d) \<and>
     bitset 70 d = bitset 70 [0x10, 0x3] \<inter> bitset 70 [0xff, 0x2]"
proof -
  have "(0 :: nat) < 70" "fits_bits 70 [0, 0]" by (simp_all add: fits_bits_def BITS_TO_LONGS_def BITS_PER_LONG_def)
  from bitmap_combine_refines [OF this(1) sample_fits this(2), of False] show ?thesis by blast
qed

text \<open>C32. Equality, inclusion and intersection tests, emptiness, fullness and weight of bitmaps agree with
  the sets, whichever of the word-wise, byte-wise and single-word paths the compiler selects.\<close>

theorem bitmap_predicates_correct:
  assumes "0 < n" "fits_bits n as" "fits_bits n bs"
  shows "bitmap_equal const as bs n = Some (bitset n as = bitset n bs) \<and>
    bitmap_subset const as bs n = Some (bitset n as \<subseteq> bitset n bs) \<and>
    bitmap_intersects const as bs n = Some (bitset n as \<inter> bitset n bs \<noteq> {}) \<and>
    bitmap_empty const as n = Some (bitset n as = {}) \<and>
    bitmap_full const as n = Some (bitset n as = {..<n}) \<and>
    bitmap_weight const as n = Some (card (bitset n as))"
  by (intro conjI bitmap_equal_ok bitmap_subset_ok bitmap_intersects_ok bitmap_empty_ok bitmap_full_ok bitmap_weight_ok assms)

theorem bitmap_predicates_correct_witness:
  "bitmap_subset True [0x10, 0x3] [0xff, 0x2] 70 = Some (bitset 70 [0x10, 0x3] \<subseteq> bitset 70 [0xff, 0x2]) \<and>
   bitmap_weight False [0x10, 0x3] 70 = Some (card (bitset 70 [0x10, 0x3]))"
proof -
  have "(0 :: nat) < 70" by simp
  note p = bitmap_predicates_correct [OF this sample_fits]
  from p [of True] p [of False] show ?thesis by blast
qed

text \<open>C33. \<^verbatim>\<open>bitmap_clear\<close> clears exactly the bits of the range and keeps every other bit of the array.\<close>

theorem bitmap_clear_correct:
  assumes "start + len \<le> 64 * length ws" "start + len < 2 ^ 31"
  shows "\<exists>ws'. bitmap_clear ws start (int len) = Some ws' \<and> length ws' = length ws \<and>
    bitset (64 * length ws) ws' = bitset (64 * length ws) ws - {start..<start + len}"
proof -
  from bitmap_clear_ok [OF assms] obtain ws' where
    w: "bitmap_clear ws start (int len) = Some ws'" "length ws' = length ws"
      "\<forall>i<64 * length ws. bit_at ws' i \<longleftrightarrow> bit_at ws i \<and> \<not> (start \<le> i \<and> i < start + len)" by blast
  have "bitset (64 * length ws) ws' = bitset (64 * length ws) ws - {start..<start + len}"
    using w(3) by (auto simp: bitset_def bit_at_def)
  then show ?thesis using w by blast
qed

theorem bitmap_clear_correct_witness:
  "\<exists>ws'. bitmap_clear [0xff, 0xff, 0xff] 4 (int 126) = Some ws' \<and> length ws' = length [0xff :: u64, 0xff, 0xff] \<and>
    bitset (64 * length [0xff :: u64, 0xff, 0xff]) ws' = bitset (64 * length [0xff :: u64, 0xff, 0xff]) [0xff, 0xff, 0xff] - {4..<4 + 126}"
  by (rule bitmap_clear_correct) simp_all

text \<open>C34. The single-bit operations insert, remove or toggle one member, report the old value, and the
  atomic and non-atomic variants agree.\<close>

theorem single_bits_correct:
  assumes "nr < n" "fits_bits n ws"
  shows "test_bit nr ws = Some (nr \<in> bitset n ws) \<and>
    (\<exists>ws'. set_bit_nonatomic nr ws = Some ws' \<and> set_bit_atomic nr ws = Some ws' \<and>
      test_and_set_bit nr ws = Some (nr \<in> bitset n ws, ws') \<and> bitset n ws' = insert nr (bitset n ws)) \<and>
    (\<exists>ws'. clear_bit_nonatomic nr ws = Some ws' \<and> clear_bit_atomic nr ws = Some ws' \<and>
      test_and_clear_bit nr ws = Some (nr \<in> bitset n ws, ws') \<and> bitset n ws' = bitset n ws - {nr}) \<and>
    (\<exists>ws'. change_bit_nonatomic nr ws = Some ws' \<and> test_and_change_bit_nonatomic nr ws = Some (nr \<in> bitset n ws, ws') \<and>
      (nr \<in> bitset n ws' \<longleftrightarrow> nr \<notin> bitset n ws) \<and> bitset n ws' - {nr} = bitset n ws - {nr})"
proof -
  obtain ws' where c: "change_bit_nonatomic nr ws = Some ws'" "test_and_change_bit_nonatomic nr ws = Some (nr \<in> bitset n ws, ws')"
    "bitset n ws' = (if nr \<in> bitset n ws then bitset n ws - {nr} else insert nr (bitset n ws))"
    using change_bit_ok [OF assms] by blast
  then have "(nr \<in> bitset n ws' \<longleftrightarrow> nr \<notin> bitset n ws) \<and> bitset n ws' - {nr} = bitset n ws - {nr}" by auto
  then show ?thesis using c(1,2) test_bit_ok [OF assms] set_bit_ok [OF assms] clear_bit_ok [OF assms] by blast
qed

theorem single_bits_correct_witness:
  "test_bit 65 [0x10, 0x3] = Some (65 \<in> bitset 70 [0x10, 0x3]) \<and>
   (\<exists>ws'. set_bit_nonatomic 65 [0x10, 0x3] = Some ws' \<and> bitset 70 ws' = insert 65 (bitset 70 [0x10, 0x3]))"
proof -
  have "(65 :: nat) < 70" by simp
  from single_bits_correct [OF this sample_fits(1)] show ?thesis by blast
qed



end
