(* ===== verification/Word_Facts.thy ===== *)
theory Word_Facts
  imports Prelude
begin

section \<open>Facts about machine words shared by the components\<close>

text \<open>
  Widening and narrowing casts read as natural numbers or integers, sums and differences that do
  not wrap around, and single high bits.
\<close>

named_theorems cast_simps \<open>casts between word sizes read as numbers\<close>

lemma unat_ucast_up [cast_simps]:
  "LENGTH('a::len) \<le> LENGTH('b::len) \<Longrightarrow> unat (ucast (w :: 'a word) :: 'b word) = unat w"
proof -
  assume "LENGTH('a) \<le> LENGTH('b)"
  then have "(2 :: nat) ^ LENGTH('a) \<le> 2 ^ LENGTH('b)" by simp
  with unsigned_less [of w] have "unat w < 2 ^ LENGTH('b)" by (rule order_less_le_trans)
  then show ?thesis by (simp add: unsigned_ucast_eq take_bit_nat_eq_self_iff)
qed

lemma unat_not_zero [cast_simps]: "unat (NOT 0 :: 'a::len word) = 2 ^ LENGTH('a) - 1"
  by (metis mask_nat_def unsigned_minus_1_eq_mask bit.compl_zero)

lemma uint_ucast_up [cast_simps]:
  "LENGTH('a::len) \<le> LENGTH('b::len) \<Longrightarrow> uint (ucast (w :: 'a word) :: 'b word) = uint w"
  using unat_ucast_up [of w] by (metis uint_nat)

lemma unat_ucast_down [cast_simps]:
  "unat (w :: 'a::len word) < 2 ^ LENGTH('b::len) \<Longrightarrow> unat (ucast w :: 'b word) = unat w"
  by (simp add: unsigned_ucast_eq take_bit_nat_eq_self_iff)

lemma unat_add_fits: "unat x + unat y < 2 ^ LENGTH('a) \<Longrightarrow> unat (x + y :: 'a::len word) = unat x + unat y"
  by (simp add: unat_word_ariths)

lemma unat_mult_fits: "unat x * unat y < 2 ^ LENGTH('a) \<Longrightarrow> unat (x * y :: 'a::len word) = unat x * unat y"
  by (simp add: unat_word_ariths)

lemma sint_word_of_int_fits:
  "- (2 ^ (LENGTH('a) - 1)) \<le> i \<Longrightarrow> i < 2 ^ (LENGTH('a) - 1) \<Longrightarrow> sint (word_of_int i :: 'a::len word) = i"
  by (simp add: signed_of_int signed_take_bit_int_eq_self)

end
