(* ===== verification/Ctype.thy ===== *)
theory Ctype
  imports Word_Facts
begin

section \<open>Character classes (lib/ctype.c, include/linux/ctype.h)\<close>

text \<open>
  A C \<^verbatim>\<open>char\<close> is a byte. The classification macros look the byte up in the 256-entry table
  \<^verbatim>\<open>_ctype\<close>, which is written out as in the source. The lemmas read each macro as a range test,
  so no later proof opens the table. A comparison of plain \<^verbatim>\<open>char\<close> values is signed.
\<close>

subsection \<open>The table\<close>

definition ct_U :: u8 where "ct_U = 0x01"
definition ct_L :: u8 where "ct_L = 0x02"
definition ct_D :: u8 where "ct_D = 0x04"
definition ct_C :: u8 where "ct_C = 0x08"
definition ct_P :: u8 where "ct_P = 0x10"
definition ct_S :: u8 where "ct_S = 0x20"
definition ct_X :: u8 where "ct_X = 0x40"
definition ct_SP :: u8 where "ct_SP = 0x80"

definition ctype_table :: "u8 list" where
  "ctype_table = [
   ct_C, ct_C, ct_C, ct_C, ct_C, ct_C, ct_C, ct_C,
   ct_C, ct_C OR ct_S, ct_C OR ct_S, ct_C OR ct_S, ct_C OR ct_S, ct_C OR ct_S, ct_C, ct_C,
   ct_C, ct_C, ct_C, ct_C, ct_C, ct_C, ct_C, ct_C,
   ct_C, ct_C, ct_C, ct_C, ct_C, ct_C, ct_C, ct_C,
   ct_S OR ct_SP, ct_P, ct_P, ct_P, ct_P, ct_P, ct_P, ct_P,
   ct_P, ct_P, ct_P, ct_P, ct_P, ct_P, ct_P, ct_P,
   ct_D, ct_D, ct_D, ct_D, ct_D, ct_D, ct_D, ct_D,
   ct_D, ct_D, ct_P, ct_P, ct_P, ct_P, ct_P, ct_P,
   ct_P, ct_U OR ct_X, ct_U OR ct_X, ct_U OR ct_X, ct_U OR ct_X, ct_U OR ct_X, ct_U OR ct_X, ct_U,
   ct_U, ct_U, ct_U, ct_U, ct_U, ct_U, ct_U, ct_U,
   ct_U, ct_U, ct_U, ct_U, ct_U, ct_U, ct_U, ct_U,
   ct_U, ct_U, ct_U, ct_P, ct_P, ct_P, ct_P, ct_P,
   ct_P, ct_L OR ct_X, ct_L OR ct_X, ct_L OR ct_X, ct_L OR ct_X, ct_L OR ct_X, ct_L OR ct_X, ct_L,
   ct_L, ct_L, ct_L, ct_L, ct_L, ct_L, ct_L, ct_L,
   ct_L, ct_L, ct_L, ct_L, ct_L, ct_L, ct_L, ct_L,
   ct_L, ct_L, ct_L, ct_P, ct_P, ct_P, ct_P, ct_C,
   0, 0, 0, 0, 0, 0, 0, 0, 0, 0, 0, 0, 0, 0, 0, 0,
   0, 0, 0, 0, 0, 0, 0, 0, 0, 0, 0, 0, 0, 0, 0, 0,
   ct_S OR ct_SP, ct_P, ct_P, ct_P, ct_P, ct_P, ct_P, ct_P, ct_P, ct_P, ct_P, ct_P, ct_P, ct_P, ct_P, ct_P,
   ct_P, ct_P, ct_P, ct_P, ct_P, ct_P, ct_P, ct_P, ct_P, ct_P, ct_P, ct_P, ct_P, ct_P, ct_P, ct_P,
   ct_U, ct_U, ct_U, ct_U, ct_U, ct_U, ct_U, ct_U, ct_U, ct_U, ct_U, ct_U, ct_U, ct_U, ct_U, ct_U,
   ct_U, ct_U, ct_U, ct_U, ct_U, ct_U, ct_U, ct_P, ct_U, ct_U, ct_U, ct_U, ct_U, ct_U, ct_U, ct_L,
   ct_L, ct_L, ct_L, ct_L, ct_L, ct_L, ct_L, ct_L, ct_L, ct_L, ct_L, ct_L, ct_L, ct_L, ct_L, ct_L,
   ct_L, ct_L, ct_L, ct_L, ct_L, ct_L, ct_L, ct_P, ct_L, ct_L, ct_L, ct_L, ct_L, ct_L, ct_L, ct_L]"

subsection \<open>The macros\<close>

definition ismask :: "u8 \<Rightarrow> u8" where "ismask x = ctype_table ! unat x"

definition isalnum :: "u8 \<Rightarrow> bool" where "isalnum c \<longleftrightarrow> ismask c AND (ct_U OR ct_L OR ct_D) \<noteq> 0"
definition isalpha :: "u8 \<Rightarrow> bool" where "isalpha c \<longleftrightarrow> ismask c AND (ct_U OR ct_L) \<noteq> 0"
definition iscntrl :: "u8 \<Rightarrow> bool" where "iscntrl c \<longleftrightarrow> ismask c AND ct_C \<noteq> 0"
definition isdigit :: "u8 \<Rightarrow> bool" where "isdigit c \<longleftrightarrow> 0x30 \<le>s c \<and> c \<le>s 0x39"
definition isgraph :: "u8 \<Rightarrow> bool" where "isgraph c \<longleftrightarrow> ismask c AND (ct_P OR ct_U OR ct_L OR ct_D) \<noteq> 0"
definition islower :: "u8 \<Rightarrow> bool" where "islower c \<longleftrightarrow> ismask c AND ct_L \<noteq> 0"
definition isprint :: "u8 \<Rightarrow> bool" where
  "isprint c \<longleftrightarrow> ismask c AND (ct_P OR ct_U OR ct_L OR ct_D OR ct_SP) \<noteq> 0"
definition ispunct :: "u8 \<Rightarrow> bool" where "ispunct c \<longleftrightarrow> ismask c AND ct_P \<noteq> 0"
definition isspace :: "u8 \<Rightarrow> bool" where "isspace c \<longleftrightarrow> ismask c AND ct_S \<noteq> 0"
definition isupper :: "u8 \<Rightarrow> bool" where "isupper c \<longleftrightarrow> ismask c AND ct_U \<noteq> 0"
definition isxdigit :: "u8 \<Rightarrow> bool" where "isxdigit c \<longleftrightarrow> ismask c AND (ct_D OR ct_X) \<noteq> 0"
definition isascii :: "u8 \<Rightarrow> bool" where "isascii c \<longleftrightarrow> c \<le> 0x7f"
definition toascii :: "u8 \<Rightarrow> u8" where "toascii c = c AND 0x7f"

definition tolower :: "u8 \<Rightarrow> u8" where "tolower c = (if isupper c then c - (0x41 - 0x61) else c)"
definition toupper :: "u8 \<Rightarrow> u8" where "toupper c = (if islower c then c - (0x61 - 0x41) else c)"
definition tolower_fast :: "u8 \<Rightarrow> u8" where "tolower_fast c = c OR 0x20"
definition isodigit :: "u8 \<Rightarrow> bool" where "isodigit c \<longleftrightarrow> 0x30 \<le>s c \<and> c \<le>s 0x37"

subsection \<open>The macros as range tests\<close>

named_theorems char_class \<open>the character classes as ranges of codes\<close>

lemma uint_byte: "0 \<le> uint (c :: u8)" "uint (c :: u8) < 256"
  using unsigned_less [of c, where 'a = int] by simp_all

lemma all_bytes: "list_all (\<lambda>n. P (word_of_int n :: u8)) [0..255] \<Longrightarrow> P c"
  using uint_byte [of c] by (auto simp: list_all_iff dest: bspec [of _ _ "uint c"])

lemma table_class:
  assumes "list_all2 (\<lambda>m n. (m AND k \<noteq> 0) = P (word_of_int n :: u8)) ctype_table [0..255]"
  shows "(ismask c AND k \<noteq> 0) = P c"
proof -
  have b: "nat (uint c) < 256" using uint_byte [of c] by linarith
  then have "nat (uint c) < length [0..255]" by (simp only: length_upto)
  from list_all2_nthD2 [OF assms this] show ?thesis
    using uint_byte [of c] b by (simp add: ismask_def nth_upto)
qed

lemma isdigit_range [char_class]: "isdigit c \<longleftrightarrow> 0x30 \<le> c \<and> c \<le> 0x39"
  by (rule all_bytes [where c = c]) code_simp

lemma isodigit_range [char_class]: "isodigit c \<longleftrightarrow> 0x30 \<le> c \<and> c \<le> 0x37"
  by (rule all_bytes [where c = c]) code_simp

lemma isxdigit_range [char_class]:
  "isxdigit c \<longleftrightarrow> 0x30 \<le> c \<and> c \<le> 0x39 \<or> 0x41 \<le> c \<and> c \<le> 0x46 \<or> 0x61 \<le> c \<and> c \<le> 0x66"
  unfolding isxdigit_def by (rule table_class) code_simp

lemma isspace_range [char_class]: "isspace c \<longleftrightarrow> 9 \<le> c \<and> c \<le> 13 \<or> c = 0x20 \<or> c = 0xa0"
  unfolding isspace_def by (rule table_class) code_simp

lemma isupper_range [char_class]:
  "isupper c \<longleftrightarrow> 0x41 \<le> c \<and> c \<le> 0x5a \<or> 0xc0 \<le> c \<and> c \<le> 0xde \<and> c \<noteq> 0xd7"
  unfolding isupper_def by (rule table_class) code_simp

lemma isspace_not_nul [simp]: "\<not> isspace 0"
  by (simp add: char_class)

end
