(* ===== verification/Kstrtox.thy ===== *)
theory Kstrtox
  imports Ctype
begin

section \<open>Integer parsing (lib/kstrtox.c)\<close>

text \<open>
  A \<^verbatim>\<open>const char *\<close> that is only read is the list of bytes from the pointer to the end of the
  object it points into: \<^verbatim>\<open>s[i]\<close> is \<open>arr_get s i\<close>, undefined past the end, and \<^verbatim>\<open>s += n\<close> is
  \<open>drop n s\<close>. A conversion returns the error code or the converted word; \<^verbatim>\<open>*res\<close> is written
  only on success. The scan loop keeps the 64-bit accumulator and the 32-bit count of consumed
  characters, whose top bit is the overflow flag, at their widths.
\<close>

datatype errno = EINVAL | ERANGE | EFAULT | ENOMEM

type_synonym cstring = "u8 list"

definition KSTRTOX_OVERFLOW :: u32 where "KSTRTOX_OVERFLOW = push_bit 31 1"

definition div_u64 :: "u64 \<Rightarrow> u32 \<Rightarrow> u64" where "div_u64 dividend divisor = dividend div ucast divisor"

definition parse_integer_fixup_radix :: "cstring \<Rightarrow> u32 \<Rightarrow> (cstring \<times> u32) option" where
  "parse_integer_fixup_radix s base = do {
     base \<leftarrow> (if base = 0 then do {
                c0 \<leftarrow> arr_get s 0;
                if c0 = 0x30 then do {
                  c1 \<leftarrow> arr_get s 1;
                  if tolower_fast c1 = 0x78
                  then do { c2 \<leftarrow> arr_get s 2; Some (if isxdigit c2 then 16 else 8) }
                  else Some 8
                } else Some 10
              } else Some base);
     skip \<leftarrow> (if base = 16 then do {
                c0 \<leftarrow> arr_get s 0;
                if c0 = 0x30 then do { c1 \<leftarrow> arr_get s 1; Some (tolower_fast c1 = 0x78) } else Some False
              } else Some False);
     Some (if skip then drop 2 s else s, base)
   }"

definition digit_value :: "u8 \<Rightarrow> u32 option" where
  "digit_value ch =
     (let c = scast ch :: u32; lc = c OR 0x20 in
      if 0x30 \<le> c \<and> c \<le> 0x39 then Some (c - 0x30)
      else if 0x61 \<le> lc \<and> lc \<le> 0x66 then Some (lc - 0x61 + 10)
      else None)"

fun parse_integer_loop :: "cstring \<Rightarrow> u32 \<Rightarrow> u64 \<Rightarrow> u32 \<Rightarrow> (u64 \<times> u32) option" where
  "parse_integer_loop [] base res rv = None" |
  "parse_integer_loop (ch # s) base res rv =
     (case digit_value ch of
        None \<Rightarrow> Some (res, rv)
      | Some val \<Rightarrow>
          if val \<ge> base then Some (res, rv)
          else let rv = (if res AND push_bit 60 (NOT 0) \<noteq> 0 \<and> res > div_u64 (NOT 0 - ucast val) base
                         then rv OR KSTRTOX_OVERFLOW else rv)
               in parse_integer_loop s base (res * ucast base + ucast val) (rv + 1))"

definition parse_integer :: "cstring \<Rightarrow> u32 \<Rightarrow> (u64 \<times> u32) option" where
  "parse_integer s base = parse_integer_loop s base 0 0"

definition kstrtoull_nosign :: "cstring \<Rightarrow> u32 \<Rightarrow> (errno + u64) option" where
  "kstrtoull_nosign s base = do {
     (s, base) \<leftarrow> parse_integer_fixup_radix s base;
     (res, rv) \<leftarrow> parse_integer s base;
     if rv AND KSTRTOX_OVERFLOW \<noteq> 0 then Some (Inl ERANGE)
     else if rv = 0 then Some (Inl EINVAL)
     else do {
       let s = drop (unat rv) s;
       c \<leftarrow> arr_get s 0;
       let s = (if c = 0x0a then drop 1 s else s);
       c \<leftarrow> arr_get s 0;
       Some (if c \<noteq> 0 then Inl EINVAL else Inr res)
     }
   }"

definition kstrtoull :: "cstring \<Rightarrow> u32 \<Rightarrow> (errno + u64) option" where
  "kstrtoull s base = do {
     c \<leftarrow> arr_get s 0;
     kstrtoull_nosign (if c = 0x2b then drop 1 s else s) base
   }"

definition kstrtoll :: "cstring \<Rightarrow> u32 \<Rightarrow> (errno + u64) option" where
  "kstrtoll s base = do {
     c \<leftarrow> arr_get s 0;
     if c = 0x2d then do {
       r \<leftarrow> kstrtoull_nosign (drop 1 s) base;
       Some (case r of Inl e \<Rightarrow> Inl e | Inr tmp \<Rightarrow> if 0 <s - tmp then Inl ERANGE else Inr (- tmp))
     } else do {
       r \<leftarrow> kstrtoull s base;
       Some (case r of Inl e \<Rightarrow> Inl e | Inr tmp \<Rightarrow> if tmp <s 0 then Inl ERANGE else Inr tmp)
     }
   }"

text \<open>The narrower conversions store the parsed value if it survives the cast to the target type:
  zero extension for the unsigned and sign extension for the signed ones.\<close>

definition narrow_u :: "(errno + u64) \<Rightarrow> errno + 'a::len word" where
  "narrow_u r = (case r of Inl e \<Rightarrow> Inl e
     | Inr tmp \<Rightarrow> if tmp \<noteq> ucast (ucast tmp :: 'a word) then Inl ERANGE else Inr (ucast tmp))"

definition narrow_s :: "(errno + u64) \<Rightarrow> errno + 'a::len word" where
  "narrow_s r = (case r of Inl e \<Rightarrow> Inl e
     | Inr tmp \<Rightarrow> if tmp \<noteq> scast (ucast tmp :: 'a word) then Inl ERANGE else Inr (ucast tmp))"

definition kstrtoul_internal :: "cstring \<Rightarrow> u32 \<Rightarrow> (errno + u64) option" where
  "kstrtoul_internal s base = do { r \<leftarrow> kstrtoull s base; Some (narrow_u r) }"

definition kstrtol_internal :: "cstring \<Rightarrow> u32 \<Rightarrow> (errno + u64) option" where
  "kstrtol_internal s base = do { r \<leftarrow> kstrtoll s base; Some (narrow_s r) }"

text \<open>\<^verbatim>\<open>long\<close> and \<^verbatim>\<open>long long\<close> have the same size and alignment, so the inline wrappers take the
  direct call.\<close>

definition kstrtoul :: "cstring \<Rightarrow> u32 \<Rightarrow> (errno + u64) option" where
  "kstrtoul s base = kstrtoull s base"

definition kstrtol :: "cstring \<Rightarrow> u32 \<Rightarrow> (errno + u64) option" where
  "kstrtol s base = kstrtoll s base"

definition kstrtouint :: "cstring \<Rightarrow> u32 \<Rightarrow> (errno + u32) option" where
  "kstrtouint s base = do { r \<leftarrow> kstrtoull s base; Some (narrow_u r) }"

definition kstrtoint :: "cstring \<Rightarrow> u32 \<Rightarrow> (errno + u32) option" where
  "kstrtoint s base = do { r \<leftarrow> kstrtoll s base; Some (narrow_s r) }"

definition kstrtou16 :: "cstring \<Rightarrow> u32 \<Rightarrow> (errno + u16) option" where
  "kstrtou16 s base = do { r \<leftarrow> kstrtoull s base; Some (narrow_u r) }"

definition kstrtos16 :: "cstring \<Rightarrow> u32 \<Rightarrow> (errno + u16) option" where
  "kstrtos16 s base = do { r \<leftarrow> kstrtoll s base; Some (narrow_s r) }"

definition kstrtou8 :: "cstring \<Rightarrow> u32 \<Rightarrow> (errno + u8) option" where
  "kstrtou8 s base = do { r \<leftarrow> kstrtoull s base; Some (narrow_u r) }"

definition kstrtos8 :: "cstring \<Rightarrow> u32 \<Rightarrow> (errno + u8) option" where
  "kstrtos8 s base = do { r \<leftarrow> kstrtoll s base; Some (narrow_s r) }"

text \<open>A null pointer is \<open>None\<close>.\<close>

definition kstrtobool :: "cstring option \<Rightarrow> (errno + bool) option" where
  "kstrtobool sp = (case sp of None \<Rightarrow> Some (Inl EINVAL) | Some s \<Rightarrow> do {
     c \<leftarrow> arr_get s 0;
     if c \<in> {0x79, 0x59, 0x31} then Some (Inr True)
     else if c \<in> {0x6e, 0x4e, 0x30} then Some (Inr False)
     else if c \<in> {0x6f, 0x4f} then do {
       d \<leftarrow> arr_get s 1;
       Some (if d \<in> {0x6e, 0x4e} then Inr True
             else if d \<in> {0x66, 0x46} then Inr False else Inl EINVAL)
     }
     else Some (Inl EINVAL)
   })"

text \<open>
  \<^verbatim>\<open>copy_from_user(buf, s, count)\<close> is an argument \<open>copy\<close>: the \<open>count\<close> bytes at the user address,
  or \<open>None\<close> where it reports bytes not copied. The local buffer has room for \<open>room\<close> bytes and
  the terminator.
\<close>

definition from_user :: "(nat \<Rightarrow> cstring option) \<Rightarrow> nat \<Rightarrow> nat \<Rightarrow> (cstring \<Rightarrow> (errno + 'b) option) \<Rightarrow> (errno + 'b) option" where
  "from_user copy room count g =
     (let count = min count room in
      case copy count of None \<Rightarrow> Some (Inl EFAULT) | Some bytes \<Rightarrow> g (bytes @ [0]))"

definition kstrtobool_from_user :: "(nat \<Rightarrow> cstring option) \<Rightarrow> nat \<Rightarrow> (errno + bool) option" where
  "kstrtobool_from_user copy count = from_user copy (4 - 1) count (\<lambda>buf. kstrtobool (Some buf))"

definition kstrto_from_user ::
  "(cstring \<Rightarrow> u32 \<Rightarrow> (errno + 'a::len word) option) \<Rightarrow> (nat \<Rightarrow> cstring option) \<Rightarrow> nat \<Rightarrow> u32
     \<Rightarrow> (errno + 'a word) option" where
  "kstrto_from_user g copy count base =
     from_user copy (1 + LENGTH('a) + 1 + 1 - 1) count (\<lambda>buf. g buf base)"

definition kstrtoull_from_user :: "(nat \<Rightarrow> cstring option) \<Rightarrow> nat \<Rightarrow> u32 \<Rightarrow> (errno + u64) option" where
  "kstrtoull_from_user = kstrto_from_user kstrtoull"

definition kstrtoll_from_user :: "(nat \<Rightarrow> cstring option) \<Rightarrow> nat \<Rightarrow> u32 \<Rightarrow> (errno + u64) option" where
  "kstrtoll_from_user = kstrto_from_user kstrtoll"

definition kstrtoul_from_user :: "(nat \<Rightarrow> cstring option) \<Rightarrow> nat \<Rightarrow> u32 \<Rightarrow> (errno + u64) option" where
  "kstrtoul_from_user = kstrto_from_user kstrtoul"

definition kstrtol_from_user :: "(nat \<Rightarrow> cstring option) \<Rightarrow> nat \<Rightarrow> u32 \<Rightarrow> (errno + u64) option" where
  "kstrtol_from_user = kstrto_from_user kstrtol"

definition kstrtouint_from_user :: "(nat \<Rightarrow> cstring option) \<Rightarrow> nat \<Rightarrow> u32 \<Rightarrow> (errno + u32) option" where
  "kstrtouint_from_user = kstrto_from_user kstrtouint"

definition kstrtoint_from_user :: "(nat \<Rightarrow> cstring option) \<Rightarrow> nat \<Rightarrow> u32 \<Rightarrow> (errno + u32) option" where
  "kstrtoint_from_user = kstrto_from_user kstrtoint"

definition kstrtou16_from_user :: "(nat \<Rightarrow> cstring option) \<Rightarrow> nat \<Rightarrow> u32 \<Rightarrow> (errno + u16) option" where
  "kstrtou16_from_user = kstrto_from_user kstrtou16"

definition kstrtos16_from_user :: "(nat \<Rightarrow> cstring option) \<Rightarrow> nat \<Rightarrow> u32 \<Rightarrow> (errno + u16) option" where
  "kstrtos16_from_user = kstrto_from_user kstrtos16"

definition kstrtou8_from_user :: "(nat \<Rightarrow> cstring option) \<Rightarrow> nat \<Rightarrow> u32 \<Rightarrow> (errno + u8) option" where
  "kstrtou8_from_user = kstrto_from_user kstrtou8"

definition kstrtos8_from_user :: "(nat \<Rightarrow> cstring option) \<Rightarrow> nat \<Rightarrow> u32 \<Rightarrow> (errno + u8) option" where
  "kstrtos8_from_user = kstrto_from_user kstrtos8"

end
