(* ===== verification/Kstrtox_Correct.thy ===== *)
theory Kstrtox_Correct
  imports Kstrtox
begin

section \<open>The integer parser computes the number the text denotes\<close>

text \<open>
  The reference semantics works on the characters before the terminator and on natural numbers:
  an optional sign, an optional hexadecimal prefix, the longest run of digits below the radix,
  its value, at most one newline, and the range of the target type. The lemmas relate the word
  loop to it, with the overflow flag set exactly when the value leaves 64 bits.
\<close>

definition digit :: "u8 \<Rightarrow> nat option" where
  "digit c = (if 0x30 \<le> c \<and> c \<le> 0x39 then Some (unat c - 0x30)
     else if 0x61 \<le> c \<and> c \<le> 0x66 then Some (unat c - 0x61 + 10)
     else if 0x41 \<le> c \<and> c \<le> 0x46 then Some (unat c - 0x41 + 10) else None)"

definition is_digit :: "nat \<Rightarrow> u8 \<Rightarrow> bool" where
  "is_digit b c = (case digit c of None \<Rightarrow> False | Some d \<Rightarrow> d < b)"

definition digits_from :: "nat \<Rightarrow> nat \<Rightarrow> cstring \<Rightarrow> nat" where
  "digits_from b v ds = foldl (\<lambda>v c. v * b + the (digit c)) v ds"

definition hex_prefix :: "cstring \<Rightarrow> bool" where
  "hex_prefix cs = (case cs of z # x # _ \<Rightarrow> z = 0x30 \<and> (x = 0x78 \<or> x = 0x58) | _ \<Rightarrow> False)"

definition radix :: "nat \<Rightarrow> cstring \<Rightarrow> nat" where
  "radix b cs = (if b \<noteq> 0 then b
     else if hex_prefix cs \<and> 2 < length cs \<and> isxdigit (cs ! 2) then 16
     else if cs \<noteq> [] \<and> hd cs = 0x30 then 8 else 10)"

definition body :: "nat \<Rightarrow> cstring \<Rightarrow> cstring" where
  "body b cs = (if radix b cs = 16 \<and> hex_prefix cs then drop 2 cs else cs)"

definition parse_nosign :: "nat \<Rightarrow> cstring \<Rightarrow> errno + nat" where
  "parse_nosign b cs =
     (let ds = takeWhile (is_digit (radix b cs)) (body b cs);
          rest = dropWhile (is_digit (radix b cs)) (body b cs);
          v = digits_from (radix b cs) 0 ds
      in if 2 ^ 64 \<le> v then Inl ERANGE
         else if ds \<noteq> [] \<and> (rest = [] \<or> rest = [0x0a]) then Inr v else Inl EINVAL)"

definition parse_nat :: "nat \<Rightarrow> cstring \<Rightarrow> errno + nat" where
  "parse_nat b cs = parse_nosign b (if cs \<noteq> [] \<and> hd cs = 0x2b then tl cs else cs)"

definition parse_int :: "nat \<Rightarrow> cstring \<Rightarrow> errno + int" where
  "parse_int b cs =
     (if cs \<noteq> [] \<and> hd cs = 0x2d
      then case parse_nosign b (tl cs) of Inl e \<Rightarrow> Inl e
           | Inr v \<Rightarrow> if 2 ^ 63 < v then Inl ERANGE else Inr (- int v)
      else case parse_nat b cs of Inl e \<Rightarrow> Inl e
           | Inr v \<Rightarrow> if 2 ^ 63 \<le> v then Inl ERANGE else Inr (int v))"

subsection \<open>Single characters\<close>

lemma digit_value_digit: "digit_value c = map_option word_of_nat (digit c)"
  by (rule all_bytes [where c = c]) code_simp

lemma tolower_fast_x: "tolower_fast c = 0x78 \<longleftrightarrow> c = 0x78 \<or> c = 0x58"
  by (rule all_bytes [where c = c]) code_simp

lemma digit_lt: "(case digit c of None \<Rightarrow> True | Some d \<Rightarrow> d < 16)"
  by (rule all_bytes [where c = c]) code_simp

subsection \<open>The scan loop\<close>

lemma high_bits: "res AND push_bit 60 (NOT 0) \<noteq> 0 \<longleftrightarrow> 2 ^ 60 \<le> unat (res :: u64)"
proof -
  have "push_bit 60 (NOT 0) = NOT (mask 60 :: u64)"
    by (rule bit_word_eqI) (auto simp: bit_simps)
  then have "res AND push_bit 60 (NOT 0) = 0 \<longleftrightarrow> take_bit 60 res = res"
    by (auto simp: take_bit_eq_mask bit_eq_iff bit_simps)
  also have "... \<longleftrightarrow> unat res < 2 ^ 60"
    by (metis take_bit_nat_eq_self_iff unsigned_take_bit_eq word_unat_eq_iff)
  finally show ?thesis by auto
qed

lemma overflow_check:
  assumes "unat res = v" "unat base = b" "unat val = d" "d < b" "b \<le> 16"
  shows "res AND push_bit 60 (NOT 0) \<noteq> 0 \<and> res > div_u64 (NOT 0 - ucast val) base \<longleftrightarrow> 2 ^ 64 \<le> v * b + d"
proof -
  have u: "unat (ucast base :: u64) = b" "unat (ucast val :: u64) = d"
    using assms by (simp_all add: cast_simps)
  have "ucast val \<le> (NOT 0 :: u64)" by simp
  then have "unat (NOT 0 - ucast val :: u64) = 2 ^ 64 - 1 - d"
    using u unat_sub [of "ucast val" "NOT 0 :: u64"] unat_not_zero [where 'a = 64]
    by (simp del: bit.compl_zero)
  then have "unat (div_u64 (NOT 0 - ucast val) base) = (2 ^ 64 - 1 - d) div b"
    using u by (simp add: div_u64_def unat_div)
  then have "res > div_u64 (NOT 0 - ucast val) base \<longleftrightarrow> 2 ^ 64 - 1 - d < v * b"
    using assms by (simp add: word_less_nat_alt div_less_iff_less_mult)
  moreover have "2 ^ 60 \<le> v" if "2 ^ 64 \<le> v * b + d"
  proof (rule ccontr)
    assume "\<not> 2 ^ 60 \<le> v"
    then have "v \<le> 2 ^ 60 - 1" by simp
    then have "v * b \<le> (2 ^ 60 - 1) * 16" using assms by (intro mult_le_mono) auto
    with that assms show False by simp
  qed
  moreover have "res AND push_bit 60 (NOT 0) \<noteq> 0 \<longleftrightarrow> 2 ^ 60 \<le> v"
    using high_bits [of res] assms(1) by simp
  ultimately show ?thesis using assms(4) by auto
qed

lemma bit31: "bit rv 31 \<longleftrightarrow> 2 ^ 31 \<le> unat (rv :: u32)"
proof -
  have "unat rv < 2 ^ 32" using unsigned_less [of rv, where 'a = nat] by simp
  then have "unat rv div 2 ^ 31 < 2" by simp
  then have "odd (unat rv div 2 ^ 31) \<longleftrightarrow> unat rv div 2 ^ 31 = 1"
    by (auto simp: less_2_cases_iff)
  also have "... \<longleftrightarrow> 2 ^ 31 \<le> unat rv"
    using \<open>unat rv div 2 ^ 31 < 2\<close> by (auto simp: less_2_cases_iff div_eq_0_iff not_less)
  finally have "bit (unat rv) 31 \<longleftrightarrow> 2 ^ 31 \<le> unat rv" by (simp add: bit_iff_odd)
  then show ?thesis by (simp add: bit_unsigned_iff)
qed

lemma overflow_bit: "bit KSTRTOX_OVERFLOW n \<longleftrightarrow> n = 31"
  by (auto simp: KSTRTOX_OVERFLOW_def bit_push_bit_iff bit_1_iff simp del: push_bit_of_1)

lemma overflow_flag: "rv AND KSTRTOX_OVERFLOW \<noteq> 0 \<longleftrightarrow> 2 ^ 31 \<le> unat rv"
proof -
  have "bit (rv AND KSTRTOX_OVERFLOW) n \<longleftrightarrow> bit rv 31 \<and> n = 31" for n
    by (auto simp: bit_and_iff overflow_bit)
  then have "rv AND KSTRTOX_OVERFLOW \<noteq> 0 \<longleftrightarrow> bit rv 31"
    by (metis bit_0_eq bot_apply bot_bool_def bit_eqI)
  then show ?thesis by (simp add: bit31)
qed

lemma overflow_or: "unat (rv OR KSTRTOX_OVERFLOW) = (if 2 ^ 31 \<le> unat rv then unat rv else unat rv + 2 ^ 31)"
proof (cases "2 ^ 31 \<le> unat rv")
  case True
  then have "bit rv 31" by (simp add: bit31)
  then have "rv OR KSTRTOX_OVERFLOW = rv"
    by (intro bit_eqI) (auto simp: bit_or_iff overflow_bit)
  then show ?thesis using True by simp
next
  case False
  then have "rv AND KSTRTOX_OVERFLOW = 0" using overflow_flag [of rv] by simp
  then have "rv OR KSTRTOX_OVERFLOW = rv + KSTRTOX_OVERFLOW" by (simp add: disjunctive_add_eq_or)
  moreover have "unat KSTRTOX_OVERFLOW = 2 ^ 31" by (simp add: KSTRTOX_OVERFLOW_def)
  ultimately show ?thesis using False by (simp add: unat_add_fits)
qed

lemma digit_step:
  assumes "is_digit b c" "unat base = b" "b \<le> 16"
  obtains d val where "digit c = Some d" "digit_value c = Some val" "unat val = d" "d < b" "\<not> base \<le> val"
proof -
  from assms(1) obtain d where d: "digit c = Some d" "d < b" by (auto simp: is_digit_def split: option.splits)
  then have "unat (word_of_nat d :: u32) = d" using assms(3) by (simp add: unat_of_nat)
  with d assms(2) show ?thesis
    by (intro that [of d "word_of_nat d"]) (auto simp: digit_value_digit word_le_nat_alt)
qed

lemma digit_stop: "\<not> is_digit (unat base) c \<Longrightarrow> parse_integer_loop (c # t) base res rv = Some (res, rv)"
  using digit_lt [of c]
  by (auto simp: is_digit_def digit_value_digit word_le_nat_alt unat_of_nat split: option.splits)

lemma digits_from_ge: "0 < b \<Longrightarrow> v \<le> digits_from b v ds"
proof (induction ds arbitrary: v)
  case (Cons c ds)
  from Cons.prems have "v \<le> v * b + the (digit c)" by (cases b) auto
  also have "... \<le> digits_from b (v * b + the (digit c)) ds" by (rule Cons.IH [OF Cons.prems])
  finally show ?case by (simp add: digits_from_def)
qed (simp add: digits_from_def)

lemma parse_integer_loop_digits:
  assumes "unat base = b" "b \<le> 16" "list_all (is_digit b) ds" "\<not> is_digit b c"
    "unat rv = n + (if ovf then 2 ^ 31 else 0)" "n + length ds < 2 ^ 31" "\<not> ovf \<longrightarrow> unat res = v"
  shows "\<exists>res' rv'. parse_integer_loop (ds @ c # t) base res rv = Some (res', rv') \<and>
     unat rv' = n + length ds + (if ovf \<or> 2 ^ 64 \<le> digits_from b v ds then 2 ^ 31 else 0) \<and>
     (\<not> ovf \<and> digits_from b v ds < 2 ^ 64 \<longrightarrow> unat res' = digits_from b v ds)"
  using assms(3,5-7)
proof (induction ds arbitrary: n ovf res rv v)
  case Nil
  have "unat res < 2 ^ 64" using unsigned_less [of res, where 'a = nat] by simp
  moreover have "parse_integer_loop ([] @ c # t) base res rv = Some (res, rv)"
    using assms(1,4) digit_stop [of base c t res rv] by simp
  ultimately show ?case using Nil.prems by (intro exI [of _ res] exI [of _ rv]) (auto simp: digits_from_def)
next
  case (Cons a ds)
  from Cons.prems(1) have a: "is_digit b a" and ds: "list_all (is_digit b) ds" by simp_all
  from a assms(1,2) obtain d val where d: "digit a = Some d" "digit_value a = Some val" "unat val = d" "d < b"
    "\<not> base \<le> val" by (rule digit_step)
  define rv1 where "rv1 = (if res AND push_bit 60 (NOT 0) \<noteq> 0 \<and> res > div_u64 (NOT 0 - ucast val) base
    then rv OR KSTRTOX_OVERFLOW else rv)"
  define res1 where "res1 = res * ucast base + ucast val"
  define w where "w = v * b + d"
  define ovf1 where "ovf1 \<longleftrightarrow> ovf \<or> 2 ^ 64 \<le> w"
  have n: "n < 2 ^ 31 - 1" using Cons.prems(3) by simp
  have "unat rv1 = n + (if ovf1 then 2 ^ 31 else 0)"
    using Cons.prems(2,4) n overflow_check [OF _ assms(1) d(3,4) assms(2)]
    by (cases ovf) (auto simp: rv1_def overflow_or ovf1_def w_def simp del: bit.compl_zero)
  with n have rv1: "unat (rv1 + 1) = Suc n + (if ovf1 then 2 ^ 31 else 0)"
    by (subst unat_add_fits) (auto)
  have res1: "\<not> ovf1 \<longrightarrow> unat res1 = w"
  proof
    assume "\<not> ovf1"
    then have "unat res = v" "v * b + d < 2 ^ 64" using Cons.prems(4) by (auto simp: ovf1_def w_def)
    moreover have "unat (ucast base :: u64) = b" "unat (ucast val :: u64) = d"
      using assms(1) d(3) by (simp_all add: cast_simps)
    ultimately show "unat res1 = w"
      by (simp add: res1_def w_def unat_add_fits unat_mult_fits)
  qed
  have "Suc n + length ds < 2 ^ 31" using Cons.prems(3) by simp
  from Cons.IH [OF ds rv1 this res1] obtain res' rv' where *:
    "parse_integer_loop (ds @ c # t) base res1 (rv1 + 1) = Some (res', rv')"
    "unat rv' = Suc n + length ds + (if ovf1 \<or> 2 ^ 64 \<le> digits_from b w ds then 2 ^ 31 else 0)"
    "\<not> ovf1 \<and> digits_from b w ds < 2 ^ 64 \<longrightarrow> unat res' = digits_from b w ds"
    by blast
  have "w \<le> digits_from b w ds" using d(4) by (intro digits_from_ge) simp
  moreover have "digits_from b v (a # ds) = digits_from b w ds"
    using d(1) by (simp add: digits_from_def w_def)
  moreover have "parse_integer_loop ((a # ds) @ c # t) base res rv = Some (res', rv')"
    using *(1) d(2,5) by (simp add: Let_def rv1_def res1_def)
  ultimately show ?case using *(2,3) by (intro exI [of _ res'] exI [of _ rv']) (auto simp: ovf1_def)
qed

subsection \<open>The conversions\<close>

lemma unat_eq_numeral [simp]: "unat (base :: u32) = 16 \<longleftrightarrow> base = 16" "unat base = 0 \<longleftrightarrow> base = 0"
  by (simp_all add: word_unat_eq_iff)

lemma fixup_radix:
  assumes "0 \<notin> set cs"
  shows "parse_integer_fixup_radix (cs @ 0 # junk) base
    = Some (body (unat base) cs @ 0 # junk, word_of_nat (radix (unat base) cs))"
proof -
  consider "cs = []" | a where "cs = [a]" | a c where "cs = [a, c]" | a c d r where "cs = a # c # d # r"
    by (metis list.exhaust)
  then show ?thesis
    using assms
    by cases (auto simp: parse_integer_fixup_radix_def arr_get_def body_def radix_def hex_prefix_def
      tolower_fast_x char_class)
qed

lemma kstrtoull_nosign_parse:
  assumes "0 \<notin> set cs" "length cs < 2 ^ 31" "unat base \<le> 16"
  shows "kstrtoull_nosign (cs @ 0 # junk) base = Some (map_sum id word_of_nat (parse_nosign (unat base) cs))"
proof -
  define b where "b = radix (unat base) cs"
  define t where "t = body (unat base) cs"
  define ds where "ds = takeWhile (is_digit b) t"
  define rest where "rest = dropWhile (is_digit b) t"
  have b: "b \<le> 16" using assms(3) by (simp add: b_def radix_def)
  have ub: "unat (word_of_nat b :: u32) = b" using b by (simp add: unat_of_nat)
  have t: "t = ds @ rest" by (simp add: ds_def rest_def)
  have "0 \<notin> set t" "length t \<le> length cs"
    using assms(1) by (auto simp: t_def body_def dest: in_set_dropD)
  then have nul: "0 \<notin> set rest" "length ds < 2 ^ 31" using assms(2) t by auto
  obtain c tail where ct: "rest @ 0 # junk = c # tail" by (cases rest) auto
  have "\<not> is_digit b c"
  proof (cases rest)
    case Nil
    with ct show ?thesis by (auto simp: is_digit_def digit_def)
  next
    case (Cons x xs)
    with ct show ?thesis using hd_dropWhile [of "is_digit b" t] by (auto simp: rest_def)
  qed
  moreover have "list_all (is_digit b) ds" by (auto simp: ds_def list_all_iff dest: set_takeWhileD)
  ultimately obtain res rv where *: "parse_integer_loop (ds @ c # tail) (word_of_nat b) 0 0 = Some (res, rv)"
    "unat rv = length ds + (if 2 ^ 64 \<le> digits_from b 0 ds then 2 ^ 31 else 0)"
    "digits_from b 0 ds < 2 ^ 64 \<longrightarrow> unat res = digits_from b 0 ds"
    using parse_integer_loop_digits [OF ub b, where rv = 0 and res = 0 and n = 0 and v = 0 and ovf = False] nul(2)
    by force
  have scan: "parse_integer (t @ 0 # junk) (word_of_nat b) = Some (res, rv)"
    using *(1) ct t by (simp add: parse_integer_def)
  have fixup: "parse_integer_fixup_radix (cs @ 0 # junk) base = Some (t @ 0 # junk, word_of_nat b)"
    unfolding t_def b_def by (rule fixup_radix [OF assms(1)])
  have parse: "parse_nosign (unat base) cs = (if 2 ^ 64 \<le> digits_from b 0 ds then Inl ERANGE
      else if ds \<noteq> [] \<and> (rest = [] \<or> rest = [0x0a]) then Inr (digits_from b 0 ds) else Inl EINVAL)"
    unfolding parse_nosign_def Let_def b_def t_def ds_def rest_def by (rule refl)
  show ?thesis
  proof (cases "2 ^ 64 \<le> digits_from b 0 ds")
    case True
    then have "2 ^ 31 \<le> unat rv" using *(2) by (simp only: if_True)
    then have "rv AND KSTRTOX_OVERFLOW \<noteq> 0" unfolding overflow_flag .
    then show ?thesis unfolding kstrtoull_nosign_def fixup parse using True scan by simp
  next
    case False
    then have rv: "\<not> rv AND KSTRTOX_OVERFLOW \<noteq> 0" "unat rv = length ds" 
      using *(2) nul(2) unfolding overflow_flag by simp_all
    have res: "res = word_of_nat (digits_from b 0 ds)"
      using False *(3) by (metis not_less of_nat_unat ucast_id)
    have "rv = 0 \<longleftrightarrow> ds = []" using rv(2) by (metis length_0_conv unat_eq_zero)
    moreover have "drop (unat rv) (t @ 0 # junk) = rest @ 0 # junk" using t rv(2) by simp
    ultimately show ?thesis using False rv(1) nul(1) unfolding kstrtoull_nosign_def fixup parse res
      by (cases rest rule: remdups_adj.cases) (auto simp: scan res arr_get_def Let_def)
  qed
qed

lemma parse_nosign_lt: "parse_nosign b cs = Inr v \<Longrightarrow> v < 2 ^ 64"
  by (auto simp: parse_nosign_def Let_def split: if_splits)

lemma parse_nat_lt: "parse_nat b cs = Inr v \<Longrightarrow> v < 2 ^ 64"
  unfolding parse_nat_def by (rule parse_nosign_lt)

lemma kstrtoull_parse:
  assumes "0 \<notin> set cs" "length cs < 2 ^ 31" "unat base \<le> 16"
  shows "kstrtoull (cs @ 0 # junk) base = Some (map_sum id word_of_nat (parse_nat (unat base) cs))"
proof (cases cs)
  case Nil
  then show ?thesis using kstrtoull_nosign_parse [OF assms] by (simp add: kstrtoull_def parse_nat_def arr_get_def)
next
  case (Cons a cs')
  then have "0 \<notin> set cs'" "length cs' < 2 ^ 31" using assms by auto
  from kstrtoull_nosign_parse [OF this assms(3)] kstrtoull_nosign_parse [OF assms] Cons
  show ?thesis by (simp add: kstrtoull_def parse_nat_def arr_get_def)
qed

lemma sint_int64: "- (2 ^ 63) \<le> i \<Longrightarrow> i < 2 ^ 63 \<Longrightarrow> sint (word_of_int i :: u64) = i"
  using sint_word_of_int_fits [where 'a = 64 and i = i] by simp

lemma word_of_int_wrap: "(word_of_int (i - 2 ^ 64) :: u64) = word_of_int i" "(word_of_int (2 ^ 64 - i) :: u64) = - word_of_int i"
  by simp_all

lemma sint_word_of_nat:
  assumes "v < 2 ^ 64"
  shows "sint (word_of_nat v :: u64) = (if v < 2 ^ 63 then int v else int v - 2 ^ 64)"
proof (cases "v < 2 ^ 63")
  case False
  then have "sint (word_of_int (int v - 2 ^ 64) :: u64) = int v - 2 ^ 64" using assms by (intro sint_int64) auto
  then show ?thesis unfolding word_of_int_wrap using False by simp
qed (use sint_int64 [of "int v"] in auto)

lemma sint_minus_word_of_nat:
  assumes "v < 2 ^ 64"
  shows "sint (- word_of_nat v :: u64) = (if v \<le> 2 ^ 63 then - int v else 2 ^ 64 - int v)"
proof (cases "v \<le> 2 ^ 63")
  case False
  then have "sint (word_of_int (2 ^ 64 - int v) :: u64) = 2 ^ 64 - int v" using assms by (intro sint_int64) auto
  then show ?thesis unfolding word_of_int_wrap using False by simp
qed (use sint_int64 [of "- int v"] in auto)

lemma signs:
  "v < 2 ^ 64 \<Longrightarrow> 0 <s - (word_of_nat v :: u64) \<longleftrightarrow> 2 ^ 63 < v"
  "v < 2 ^ 64 \<Longrightarrow> (word_of_nat v :: u64) <s 0 \<longleftrightarrow> 2 ^ 63 \<le> v"
  by (auto simp: word_sless_alt sint_word_of_nat sint_minus_word_of_nat)

lemma kstrtoll_parse:
  assumes "0 \<notin> set cs" "length cs < 2 ^ 31" "unat base \<le> 16"
  shows "kstrtoll (cs @ 0 # junk) base = Some (map_sum id word_of_int (parse_int (unat base) cs))"
proof (cases "cs \<noteq> [] \<and> hd cs = 0x2d")
  case True
  then obtain cs' where cs: "cs = 0x2d # cs'" by (cases cs) auto
  then have "0 \<notin> set cs'" "length cs' < 2 ^ 31" using assms by auto
  from kstrtoull_nosign_parse [OF this assms(3)] show ?thesis
    using parse_nosign_lt [of "unat base" cs']
    by (auto simp: kstrtoll_def parse_int_def cs arr_get_def signs split: sum.splits)
next
  case False
  have "arr_get (cs @ 0 # junk) 0 = Some (if cs = [] then 0 else hd cs)"
    by (cases cs) (auto simp: arr_get_def)
  then show ?thesis
    using False kstrtoull_parse [OF assms, of junk] parse_nat_lt [of "unat base" cs]
    by (auto simp: kstrtoll_def parse_int_def signs split: sum.splits)
qed

lemma narrow_u_fits:
  fixes n :: nat
  assumes "LENGTH('a::len) \<le> 64" "n < 2 ^ 64"
  shows "narrow_u (Inr (word_of_nat n)) = (if n < 2 ^ LENGTH('a) then Inr (word_of_nat n :: 'a word) else Inl ERANGE)"
proof -
  have *: "ucast (word_of_nat n :: u64) = (word_of_nat n :: 'a word)"
    using assms(1) ucast_down_wi [of "int n", where 'a = 64 and 'b = 'a]
    by (simp add: is_down)
  moreover have "unat (ucast (word_of_nat n :: 'a word) :: u64) = n mod 2 ^ LENGTH('a)"
    using assms(1) by (simp add: unat_ucast_up unat_of_nat)
  moreover have "unat (word_of_nat n :: u64) = n" using assms(2) by (simp add: unat_of_nat)
  ultimately have "(word_of_nat n :: u64) = ucast (word_of_nat n :: 'a word) \<longleftrightarrow> n < 2 ^ LENGTH('a)"
    by (metis mod_less mod_less_divisor word_unat_eq_iff zero_less_numeral zero_less_power)
  with * show ?thesis by (simp add: narrow_u_def)
qed

lemma narrow_s_fits:
  assumes "LENGTH('a::len) \<le> 64" "- (2 ^ 63) \<le> i" "i < 2 ^ 63"
  shows "narrow_s (Inr (word_of_int i)) = (if - (2 ^ (LENGTH('a) - 1)) \<le> i \<and> i < 2 ^ (LENGTH('a) - 1)
     then Inr (word_of_int i :: 'a word) else Inl ERANGE)"
proof -
  have *: "ucast (word_of_int i :: u64) = (word_of_int i :: 'a word)"
    using assms(1) by (simp add: ucast_down_wi is_down)
  moreover have "sint (scast (word_of_int i :: 'a word) :: u64) = signed_take_bit (LENGTH('a) - 1) i"
    using assms(1) by (simp add: sint_up_scast is_up signed_of_int)
  moreover have "sint (word_of_int i :: u64) = i" using assms(2,3) by (rule sint_int64)
  ultimately have "(word_of_int i :: u64) = scast (word_of_int i :: 'a word)
      \<longleftrightarrow> - (2 ^ (LENGTH('a) - 1)) \<le> i \<and> i < 2 ^ (LENGTH('a) - 1)"
    by (metis signed_take_bit_int_eq_self_iff signed_word_eqI)
  with * show ?thesis by (simp add: narrow_s_def)
qed
definition to_unsigned :: "errno + nat \<Rightarrow> errno + 'a::len word" where
  "to_unsigned r = (case r of Inl e \<Rightarrow> Inl e
     | Inr v \<Rightarrow> if v < 2 ^ LENGTH('a) then Inr (word_of_nat v) else Inl ERANGE)"

definition to_signed :: "errno + int \<Rightarrow> errno + 'a::len word" where
  "to_signed r = (case r of Inl e \<Rightarrow> Inl e
     | Inr i \<Rightarrow> if - (2 ^ (LENGTH('a) - 1)) \<le> i \<and> i < 2 ^ (LENGTH('a) - 1) then Inr (word_of_int i) else Inl ERANGE)"

lemma narrow_u_parse:
  assumes "LENGTH('a::len) \<le> 64"
  shows "narrow_u (map_sum id word_of_nat (parse_nat b cs)) = (to_unsigned (parse_nat b cs) :: errno + 'a word)"
  using narrow_u_fits [OF assms parse_nat_lt]
  by (cases "parse_nat b cs") (auto simp: to_unsigned_def narrow_u_def)

lemma parse_int_range: "parse_int b cs = Inr i \<Longrightarrow> - (2 ^ 63) \<le> i \<and> i < 2 ^ 63"
  by (auto simp: parse_int_def split: if_splits sum.splits)

lemma narrow_s_parse:
  assumes "LENGTH('a::len) \<le> 64"
  shows "narrow_s (map_sum id word_of_int (parse_int b cs)) = (to_signed (parse_int b cs) :: errno + 'a word)"
proof (cases "parse_int b cs")
  case (Inr i)
  with parse_int_range [of b cs i] show ?thesis
    using narrow_s_fits [OF assms, of i] by (simp add: to_signed_def)
qed (simp add: to_signed_def narrow_s_def)

lemma wide_parse:
  "map_sum id word_of_nat (parse_nat b cs) = (to_unsigned (parse_nat b cs) :: errno + u64)"
  "map_sum id word_of_int (parse_int b cs) = (to_signed (parse_int b cs) :: errno + u64)"
  using parse_nat_lt [of b cs] parse_int_range [of b cs]
  by (auto simp: to_unsigned_def to_signed_def split: sum.splits)

text \<open>C9. For every NUL-terminated text and every radix the interface supports, each
  conversion returns exactly what the reference semantics says: the value of the digits as a word
  of the target type where it fits the type, \<^verbatim>\<open>-ERANGE\<close> where the number is well formed but out
  of range (or its digits alone exceed 64 bits), and \<^verbatim>\<open>-EINVAL\<close> for every other text. No
  character after the terminator is read.\<close>

theorem kstrtox_correct:
  assumes "0 \<notin> set cs" "length cs < 2 ^ 31" "unat base \<le> 16"
  shows "kstrtoull (cs @ 0 # junk) base = Some (to_unsigned (parse_nat (unat base) cs)) \<and>
    kstrtoll (cs @ 0 # junk) base = Some (to_signed (parse_int (unat base) cs)) \<and>
    kstrtoul (cs @ 0 # junk) base = Some (to_unsigned (parse_nat (unat base) cs)) \<and>
    kstrtol (cs @ 0 # junk) base = Some (to_signed (parse_int (unat base) cs)) \<and>
    kstrtouint (cs @ 0 # junk) base = Some (to_unsigned (parse_nat (unat base) cs)) \<and>
    kstrtoint (cs @ 0 # junk) base = Some (to_signed (parse_int (unat base) cs)) \<and>
    kstrtou16 (cs @ 0 # junk) base = Some (to_unsigned (parse_nat (unat base) cs)) \<and>
    kstrtos16 (cs @ 0 # junk) base = Some (to_signed (parse_int (unat base) cs)) \<and>
    kstrtou8 (cs @ 0 # junk) base = Some (to_unsigned (parse_nat (unat base) cs)) \<and>
    kstrtos8 (cs @ 0 # junk) base = Some (to_signed (parse_int (unat base) cs))"
  unfolding kstrtoul_def kstrtol_def kstrtouint_def kstrtoint_def kstrtou16_def kstrtos16_def kstrtou8_def
    kstrtos8_def kstrtoull_parse [OF assms] kstrtoll_parse [OF assms]
  by (simp add: narrow_u_parse narrow_s_parse, simp add: wide_parse)

theorem kstrtox_correct_witness:
  "kstrtoint [0x2d, 0x30, 0x58, 0x38, 0x30, 0x30, 0x30, 0x30, 0x30, 0x30, 0x30, 0x0a, 0] 0 = Some (Inr 0x80000000) \<and>
   kstrtou8 [0x32, 0x35, 0x36, 0] 10 = Some (Inl ERANGE)"
proof -
  have "kstrtoint ([0x2d, 0x30, 0x58, 0x38, 0x30, 0x30, 0x30, 0x30, 0x30, 0x30, 0x30, 0x0a] @ 0 # []) 0
      = Some (to_signed (parse_int (unat (0 :: u32)) [0x2d, 0x30, 0x58, 0x38, 0x30, 0x30, 0x30, 0x30, 0x30, 0x30, 0x30, 0x0a]))"
    using kstrtox_correct [of "[0x2d, 0x30, 0x58, 0x38, 0x30, 0x30, 0x30, 0x30, 0x30, 0x30, 0x30, 0x0a]" 0 "[]"] by simp
  moreover have "kstrtou8 ([0x32, 0x35, 0x36] @ 0 # []) 10 = Some (to_unsigned (parse_nat (unat (10 :: u32)) [0x32, 0x35, 0x36]))"
    using kstrtox_correct [of "[0x32, 0x35, 0x36]" 10 "[]"] by simp
  moreover have "parse_int 0 [0x2d, 0x30, 0x58, 0x38, 0x30, 0x30, 0x30, 0x30, 0x30, 0x30, 0x30, 0x0a] = Inr (- 2147483648)"
    by (simp add: parse_int_def parse_nosign_def body_def radix_def hex_prefix_def char_class is_digit_def digit_def digits_from_def)
  moreover have "parse_nat 10 [0x32, 0x35, 0x36] = Inr 256"
    by (simp add: parse_nat_def parse_nosign_def body_def radix_def hex_prefix_def is_digit_def digit_def digits_from_def)
  ultimately show ?thesis by (simp add: to_signed_def to_unsigned_def)
qed

end
