(* ===== verification/Vsprintf.thy ===== *)
theory Vsprintf
  imports Kstrtox_Correct
begin

section \<open>Decimal output (lib/vsprintf.c)\<close>

text \<open>
  \<^verbatim>\<open>put_dec\<close> writes the decimal digits of a number into a buffer, least significant digit first, two
  digits per store, and divides by 100 with a multiplication and a shift. A buffer pointer is a
  byte list and an offset; a 16-bit store writes the low byte first. \<^verbatim>\<open>num_to_str\<close> reverses the digits
  into the caller's buffer and pads them with blanks. The local array \<^verbatim>\<open>tmp\<close> is an argument,
  because its initial content is arbitrary. The build is the 64-bit branch of the file.
\<close>

definition decpair :: "u16 list" where
  "decpair = map (\<lambda>x. (word_of_nat (x mod 10) OR push_bit 8 (word_of_nat (x div 10))) + 0x3030) [0..<100]"

definition store16 :: "u8 list \<Rightarrow> nat \<Rightarrow> u16 \<Rightarrow> u8 list option" where
  "store16 buf p w = do { buf \<leftarrow> arr_set buf p (ucast w); arr_set buf (p + 1) (ucast (drop_bit 8 w)) }"

definition put_pair :: "u8 list \<Rightarrow> nat \<Rightarrow> u32 \<Rightarrow> u8 list option" where
  "put_pair buf p r = do { w \<leftarrow> arr_get decpair (unat r); store16 buf p w }"

definition mul_shift :: "u32 \<Rightarrow> u32" where
  "mul_shift r = ucast (drop_bit 32 (ucast r * (0x28f5c29 :: u64)))"

text \<open>The code at the label \<^verbatim>\<open>out_r\<close>; a jump to \<^verbatim>\<open>out_q\<close> copies \<^verbatim>\<open>q\<close> to \<^verbatim>\<open>r\<close> and continues there.\<close>

definition put_dec_out_r :: "u8 list \<times> nat \<Rightarrow> u32 \<Rightarrow> (u8 list \<times> nat) option" where
  "put_dec_out_r bp r = do {
     let (buf, p) = bp;
     buf \<leftarrow> put_pair buf p r;
     Some (buf, p + (if r < 10 then 1 else 2))
   }"

definition put_dec_trunc8 :: "u8 list \<times> nat \<Rightarrow> u32 \<Rightarrow> (u8 list \<times> nat) option" where
  "put_dec_trunc8 bp r =
     (let (buf, p) = bp in
      if r < 100 then put_dec_out_r (buf, p) r
      else do {
        let q = mul_shift r;
        buf \<leftarrow> put_pair buf p (r - 100 * q);
        if q < 100 then put_dec_out_r (buf, p + 2) q
        else do {
          let r = mul_shift q;
          buf \<leftarrow> put_pair buf (p + 2) (q - 100 * r);
          if r < 100 then put_dec_out_r (buf, p + 4) r
          else do {
            let q = drop_bit 19 (r * 0x147b);
            buf \<leftarrow> put_pair buf (p + 4) (r - 100 * q);
            put_dec_out_r (buf, p + 6) q
          }
        }
      })"

definition put_dec_full8 :: "u8 list \<times> nat \<Rightarrow> u32 \<Rightarrow> (u8 list \<times> nat) option" where
  "put_dec_full8 bp r = do {
     let (buf, p) = bp;
     let q = mul_shift r;
     buf \<leftarrow> put_pair buf p (r - 100 * q);
     let r = mul_shift q;
     buf \<leftarrow> put_pair buf (p + 2) (q - 100 * r);
     let q = drop_bit 19 (r * 0x147b);
     buf \<leftarrow> put_pair buf (p + 4) (r - 100 * q);
     buf \<leftarrow> put_pair buf (p + 6) q;
     Some (buf, p + 8)
   }"

text \<open>\<^verbatim>\<open>do_div(n, base)\<close> replaces \<^verbatim>\<open>n\<close> by the quotient and returns the remainder.\<close>

definition put_dec_step :: "(u8 list \<times> nat) \<times> u64 \<Rightarrow> ((u8 list \<times> nat) \<times> u64) option" where
  "put_dec_step s = (let (bp, n) = s in
     if n \<ge> 100 * 1000 * 1000
     then do { bp \<leftarrow> put_dec_full8 bp (ucast (n mod (100 * 1000 * 1000))); Some (bp, n div (100 * 1000 * 1000)) }
     else Some (bp, n))"

definition put_dec :: "u8 list \<times> nat \<Rightarrow> u64 \<Rightarrow> (u8 list \<times> nat) option" where
  "put_dec bp n = do {
     (bp, n) \<leftarrow> put_dec_step (bp, n);
     (bp, n) \<leftarrow> put_dec_step (bp, n);
     put_dec_trunc8 bp (ucast n)
   }"

primrec fill_blanks :: "nat \<Rightarrow> nat \<Rightarrow> u8 list \<Rightarrow> u8 list option" where
  "fill_blanks 0 i buf = Some buf" |
  "fill_blanks (Suc k) i buf = do { buf \<leftarrow> arr_set buf i 0x20; fill_blanks k (i + 1) buf }"

text \<open>\<open>copy_reversed k i\<close> runs the last \<open>k\<close> iterations of the copy loop, from index \<open>i\<close> on.\<close>

primrec copy_reversed :: "nat \<Rightarrow> nat \<Rightarrow> nat \<Rightarrow> nat \<Rightarrow> u8 list \<Rightarrow> u8 list \<Rightarrow> u8 list option" where
  "copy_reversed 0 i len width tmp buf = Some buf" |
  "copy_reversed (Suc k) i len width tmp buf = do {
     c \<leftarrow> arr_get tmp (len - i - 1);
     buf \<leftarrow> arr_set buf (i + width) c;
     copy_reversed k (i + 1) len width tmp buf
   }"

text \<open>The result is the returned length and the caller's buffer. \<^verbatim>\<open>size\<close> is signed and \<^verbatim>\<open>width\<close>
  is not, so their comparison converts \<^verbatim>\<open>size\<close> to unsigned.\<close>

definition num_to_str :: "u8 list \<Rightarrow> u8 list \<Rightarrow> int \<Rightarrow> u64 \<Rightarrow> u32 \<Rightarrow> (nat \<times> u8 list) option" where
  "num_to_str tmp buf sz num width = do {
     (tmp, len) \<leftarrow> (if num \<le> 9 then do { tmp \<leftarrow> arr_set tmp 0 (0x30 + ucast num); Some (tmp, 1) }
                   else put_dec (tmp, 0) num);
     if int len > sz \<or> width > word_of_int sz then Some (0, buf)
     else do {
       (width, buf) \<leftarrow> (if width > word_of_nat len
          then do {
            let width = unat (width - word_of_nat len);
            buf \<leftarrow> fill_blanks width 0 buf;
            Some (width, buf)
          }
          else Some (0, buf));
       buf \<leftarrow> copy_reversed len 0 len width tmp buf;
       Some (len + width, buf)
     }
   }"

end
