(* ===== verification/Vsprintf_Correct.thy ===== *)
theory Vsprintf_Correct
  imports Vsprintf
begin

section \<open>Decimal output is the decimal numeral\<close>

text \<open>
  The multiplication by a reciprocal is division by 100 on the range where it is used, every store
  appends two digits, and the digits come out least significant first. Reading the result of
  \<^verbatim>\<open>num_to_str\<close> back with \<^verbatim>\<open>kstrtoull\<close> gives the number.
\<close>

subsection \<open>Division by 100\<close>

lemma mul_shift_div: "unat r < 10 ^ 8 \<Longrightarrow> unat (mul_shift r) = unat r div 100"
proof -
  assume r: "unat r < 10 ^ 8"
  define x where "x = unat r"
  have "unat (ucast r * (0x28f5c29 :: u64)) = x * 0x28f5c29"
    using r by (subst unat_mult_fits) (simp_all add: cast_simps x_def)
  then have "unat (drop_bit 32 (ucast r * (0x28f5c29 :: u64))) = x * 0x28f5c29 div 2 ^ 32"
    unfolding unat_drop_bit_eq by (simp add: drop_bit_eq_div)
  moreover have "x * 0x28f5c29 div 2 ^ 32 = x div 100"
  proof (rule div_nat_eqI)
    have "x = 100 * (x div 100) + x mod 100" "x mod 100 < 100" by simp_all
    then show "2 ^ 32 * (x div 100) \<le> x * 42949673" "x * 42949673 < 2 ^ 32 * Suc (x div 100)"
      using r x_def by simp_all
  qed
  ultimately show ?thesis using r by (simp add: mul_shift_def cast_simps x_def)
qed

lemma mul_shift4_div: "unat r < 10 ^ 4 \<Longrightarrow> unat (drop_bit 19 (r * 0x147b :: u32)) = unat r div 100"
proof -
  assume r: "unat r < 10 ^ 4"
  define x where "x = unat r"
  have "unat (r * 0x147b) = x * 0x147b"
    using r by (subst unat_mult_fits) (simp_all add: x_def)
  then have "unat (drop_bit 19 (r * 0x147b)) = x * 0x147b div 2 ^ 19"
    unfolding unat_drop_bit_eq by (simp add: drop_bit_eq_div)
  moreover have "x * 0x147b div 2 ^ 19 = x div 100"
  proof (rule div_nat_eqI)
    have "x = 100 * (x div 100) + x mod 100" "x mod 100 < 100" by simp_all
    then show "2 ^ 19 * (x div 100) \<le> x * 0x147b" "x * 0x147b < 2 ^ 19 * Suc (x div 100)"
      using r x_def by simp_all
  qed
  ultimately show ?thesis by (simp add: x_def)
qed

lemma sub_mul_100: "unat q = unat r div 100 \<Longrightarrow> unat (r - 100 * q :: u32) = unat r mod 100"
proof -
  assume q: "unat q = unat r div 100"
  have le: "unat q * 100 \<le> unat r" by (simp add: q)
  also have "... < 2 ^ 32" using unsigned_less [of r, where 'a = nat] by simp
  finally have m: "unat (100 * q) = 100 * unat q" by (subst unat_mult_fits) simp_all
  then have "100 * q \<le> r" using le by (simp add: word_le_nat_alt)
  then have "unat (r - 100 * q) = unat r - 100 * (unat r div 100)" by (simp add: unat_sub m q)
  then show ?thesis by (simp add: minus_mult_div_eq_mod)
qed

subsection \<open>Stores of digit pairs\<close>

definition asc :: "nat \<Rightarrow> u8" where "asc d = word_of_nat (0x30 + d)"

definition puts :: "u8 list \<times> nat \<Rightarrow> nat list \<Rightarrow> u8 list \<times> nat \<Rightarrow> bool" where
  "puts a ds b \<longleftrightarrow> length (fst b) = length (fst a) \<and> snd b = snd a + length ds \<and>
     take (snd b) (fst b) = take (snd a) (fst a) @ map asc ds \<and> snd b \<le> length (fst b)"

lemma puts_trans: "puts a ds b \<Longrightarrow> puts b es c \<Longrightarrow> puts a (ds @ es) c"
  by (auto simp: puts_def)

lemma decpair_bytes:
  assumes "x < 100"
  shows "ucast (decpair ! x) = asc (x mod 10)" "ucast (drop_bit 8 (decpair ! x)) = asc (x div 10)"
proof -
  have "list_all2 (\<lambda>w x. ucast w = asc (x mod 10) \<and> ucast (drop_bit 8 w) = asc (x div 10)) decpair [0..<100]"
    by code_simp
  from list_all2_nthD2 [OF this, of x] assms
  show "ucast (decpair ! x) = asc (x mod 10)" "ucast (drop_bit 8 (decpair ! x)) = asc (x div 10)" by simp_all
qed

lemma put_pair_digits:
  assumes "unat r < 100" "p + 2 \<le> length buf"
  obtains buf' where "put_pair buf p r = Some buf'" "puts (buf, p) [unat r mod 10, unat r div 10] (buf', p + 2)"
    "puts (buf, p) [unat r mod 10] (buf', p + 1)"
proof -
  have "length decpair = 100" by (simp add: decpair_def)
  then have "put_pair buf p r = Some (buf[p := asc (unat r mod 10), p + 1 := asc (unat r div 10)])"
    using assms decpair_bytes [OF assms(1)] by (simp add: put_pair_def store16_def arr_get_def arr_set_def)
  then show ?thesis using assms
    by (intro that) (auto simp: puts_def take_Suc_conv_app_nth take_update_swap numeral_2_eq_2 list_update_append)
qed

subsection \<open>Digits\<close>

primrec rdig :: "nat \<Rightarrow> nat \<Rightarrow> nat list" where
  "rdig 0 n = []" |
  "rdig (Suc k) n = n mod 10 # rdig k (n div 10)"

fun rdec :: "nat \<Rightarrow> nat list" where
  "rdec n = (if n < 10 then [n] else n mod 10 # rdec (n div 10))"

declare rdec.simps [simp del]

lemma length_rdig [simp]: "length (rdig k n) = k"
  by (induction k arbitrary: n) auto

lemma rdec_split: "10 ^ k \<le> n \<Longrightarrow> rdec n = rdig k n @ rdec (n div 10 ^ k)"
proof (induction k arbitrary: n)
  case (Suc k)
  have "1 \<le> (10 :: nat) ^ k" by simp
  then have "10 \<le> n" using Suc.prems by (simp add: order_trans [of 10 "10 * 10 ^ k"])
  moreover have "10 ^ k \<le> n div 10" using Suc.prems by (simp add: less_eq_div_iff_mult_less_eq mult.commute)
  ultimately show ?case using Suc.IH [of "n div 10"] by (simp add: rdec.simps [of n] div_mult2_eq)
qed simp

lemma rdig_add: "rdig (j + k) n = rdig j n @ rdig k (n div 10 ^ j)"
  by (induction j arbitrary: n) (simp_all add: div_mult2_eq)

lemma rdig_2: "rdig 2 n = [n mod 100 mod 10, n mod 100 div 10]"
  by (simp add: numeral_2_eq_2) (simp add: mod_mult2_eq [of n 10 10, simplified])

lemma rdig_mod: "rdig k (n mod 10 ^ k) = rdig k n"
proof (induction k arbitrary: n)
  case (Suc k)
  have "n mod 10 ^ Suc k mod 10 = n mod 10" by (simp add: mod_mod_cancel)
  moreover have "n mod 10 ^ Suc k div 10 = n div 10 mod 10 ^ k" by (simp add: div_mult2_eq mod_mult2_eq)
  ultimately show ?case using Suc.IH [of "n div 10"] by simp
qed simp

lemma length_rdec: "n < 10 ^ Suc k \<Longrightarrow> length (rdec n) \<le> Suc k"
proof (induction k arbitrary: n)
  case (Suc k)
  show ?case
  proof (cases "n < 10")
    case False
    have "n div 10 < 10 ^ Suc k" using Suc.prems by simp
    then show ?thesis using Suc.IH [of "n div 10"] False by (simp add: rdec.simps [of n])
  qed (simp add: rdec.simps)
qed (simp add: rdec.simps)

lemma put_dec_out_r_digits:
  assumes "unat r < 100" "p + 2 \<le> length buf"
  shows "\<exists>b. put_dec_out_r (buf, p) r = Some b \<and> puts (buf, p) (rdec (unat r)) b"
proof (cases "unat r < 10")
  case True
  with assms show ?thesis
    by (elim put_pair_digits) (auto simp: put_dec_out_r_def rdec.simps word_less_nat_alt)
next
  case False
  moreover have "unat r div 10 < 10" using assms by simp
  ultimately have "rdec (unat r) = [unat r mod 10, unat r div 10]" by (simp add: rdec.simps)
  with False assms show ?thesis
    by (elim put_pair_digits) (auto simp: put_dec_out_r_def word_less_nat_alt)
qed

lemma put_pair_rdig:
  assumes "unat r = n mod 100" "p + 2 \<le> length buf" "p' = p + 2"
  shows "\<exists>b. put_pair buf p r = Some b \<and> puts (buf, p) (rdig 2 n) (b, p') \<and> length b = length buf"
proof -
  have r: "unat r < 100" using assms(1) by simp
  from put_pair_digits [OF r assms(2)] obtain b where
    b: "put_pair buf p r = Some b" "puts (buf, p) [unat r mod 10, unat r div 10] (b, p + 2)" .
  have "length b = length buf" using b(2) by (simp add: puts_def)
  with b show ?thesis by (intro exI [of _ b]) (simp add: rdig_2 assms(1,3))
qed

lemma digit_chain:
  assumes "unat r < 10 ^ 8" "q = mul_shift r" "r1 = mul_shift q" "q1 = drop_bit 19 (r1 * 0x147b)"
  shows "unat q = unat r div 10 ^ 2" "unat r1 = unat r div 10 ^ 4" "unat q1 = unat r div 10 ^ 6"
    "unat (r - 100 * q) = unat r mod 100" "unat (q - 100 * r1) = unat r div 10 ^ 2 mod 100"
    "unat (r1 - 100 * q1) = unat r div 10 ^ 4 mod 100" "unat q1 = unat r div 10 ^ 6 mod 100"
proof -
  show q: "unat q = unat r div 10 ^ 2" using mul_shift_div [OF assms(1)] assms(2) by simp
  then show r1: "unat r1 = unat r div 10 ^ 4"
    using mul_shift_div [of q] assms(1,3) by (simp add: div_mult2_eq [symmetric])
  then show q1: "unat q1 = unat r div 10 ^ 6"
    using mul_shift4_div [of r1] assms(1,4) by (simp add: div_mult2_eq [symmetric])
  show "unat (r - 100 * q) = unat r mod 100" "unat (q - 100 * r1) = unat r div 10 ^ 2 mod 100"
    "unat (r1 - 100 * q1) = unat r div 10 ^ 4 mod 100"
    using q r1 q1 by (simp_all add: sub_mul_100 div_mult2_eq [symmetric])
  show "unat q1 = unat r div 10 ^ 6 mod 100" using q1 assms(1) by simp
qed

lemma put_dec_full8_digits:
  assumes "unat r < 10 ^ 8" "p + 8 \<le> length buf"
  shows "\<exists>b. put_dec_full8 (buf, p) r = Some b \<and> puts (buf, p) (rdig 8 (unat r)) b"
proof -
  define q where "q = mul_shift r"
  define r1 where "r1 = mul_shift q"
  define q1 where "q1 = drop_bit 19 (r1 * 0x147b)"
  note c = digit_chain [OF assms(1) q_def r1_def q1_def]
  from put_pair_rdig [OF c(4), of p buf "p + 2"] assms(2) obtain b1
    where b1: "put_pair buf p (r - 100 * q) = Some b1" "puts (buf, p) (rdig 2 (unat r)) (b1, p + 2)"
      "length b1 = length buf" by auto
  from put_pair_rdig [OF c(5), of "p + 2" b1 "p + 4"] assms(2) b1(3) obtain b2
    where b2: "put_pair b1 (p + 2) (q - 100 * r1) = Some b2"
      "puts (b1, p + 2) (rdig 2 (unat r div 10 ^ 2)) (b2, p + 4)" "length b2 = length buf" by auto
  from put_pair_rdig [OF c(6), of "p + 4" b2 "p + 6"] assms(2) b2(3) obtain b3
    where b3: "put_pair b2 (p + 4) (r1 - 100 * q1) = Some b3"
      "puts (b2, p + 4) (rdig 2 (unat r div 10 ^ 4)) (b3, p + 6)" "length b3 = length buf" by auto
  from put_pair_rdig [OF c(7), of "p + 6" b3 "p + 8"] assms(2) b3(3) obtain b4
    where b4: "put_pair b3 (p + 6) q1 = Some b4" "puts (b3, p + 6) (rdig 2 (unat r div 10 ^ 6)) (b4, p + 8)"
    by auto
  have "rdig 8 (unat r) = ((rdig 2 (unat r) @ rdig 2 (unat r div 10 ^ 2)) @ rdig 2 (unat r div 10 ^ 4))
      @ rdig 2 (unat r div 10 ^ 6)"
    using rdig_add [of 6 2 "unat r"] rdig_add [of 4 2 "unat r"] rdig_add [of 2 2 "unat r"] by simp
  then have "puts (buf, p) (rdig 8 (unat r)) (b4, p + 8)"
    using puts_trans [OF puts_trans [OF puts_trans [OF b1(2) b2(2)] b3(2)] b4(2)] by simp
  moreover have "put_dec_full8 (buf, p) r = Some (b4, p + 8)"
    using b1(1) b2(1) b3(1) b4(1) by (simp add: put_dec_full8_def q_def r1_def q1_def)
  ultimately show ?thesis by blast
qed

lemma put_dec_trunc8_digits:
  assumes "unat r < 10 ^ 8" "p + 8 \<le> length buf"
  shows "\<exists>b. put_dec_trunc8 (buf, p) r = Some b \<and> puts (buf, p) (rdec (unat r)) b"
proof (cases "r < 100")
  case True
  then have "unat r < 100" by (simp add: word_less_nat_alt)
  with True show ?thesis using put_dec_out_r_digits [of r p buf] assms(2) by (simp add: put_dec_trunc8_def)
next
  case r: False
  define q where "q = mul_shift r"
  define r1 where "r1 = mul_shift q"
  define q1 where "q1 = drop_bit 19 (r1 * 0x147b)"
  note c = digit_chain [OF assms(1) q_def r1_def q1_def]
  have rd: "rdec (unat r) = rdig 2 (unat r) @ rdec (unat q)"
    using r rdec_split [of 2 "unat r"] by (simp add: word_less_nat_alt c(1))
  from put_pair_rdig [OF c(4), of p buf "p + 2"] assms(2) obtain b1
    where b1: "put_pair buf p (r - 100 * q) = Some b1" "puts (buf, p) (rdig 2 (unat r)) (b1, p + 2)"
      "length b1 = length buf" by auto
  show ?thesis
  proof (cases "q < 100")
    case True
    then have "unat q < 100" by (simp add: word_less_nat_alt)
    then obtain b where b: "put_dec_out_r (b1, p + 2) q = Some b" "puts (b1, p + 2) (rdec (unat q)) b"
      using put_dec_out_r_digits [of q "p + 2" b1] assms(2) b1(3) by auto
    have "put_dec_trunc8 (buf, p) r = Some b"
      using r True b1(1) b(1) by (simp add: put_dec_trunc8_def q_def)
    with puts_trans [OF b1(2) b(2)] rd show ?thesis by auto
  next
    case q: False
    have qd: "rdec (unat q) = rdig 2 (unat r div 10 ^ 2) @ rdec (unat r1)"
      using q rdec_split [of 2 "unat q"] by (simp add: word_less_nat_alt c(1,2) div_mult2_eq [symmetric])
    from put_pair_rdig [OF c(5), of "p + 2" b1 "p + 4"] assms(2) b1(3) obtain b2
      where b2: "put_pair b1 (p + 2) (q - 100 * r1) = Some b2"
        "puts (b1, p + 2) (rdig 2 (unat r div 10 ^ 2)) (b2, p + 4)" "length b2 = length buf" by auto
    show ?thesis
    proof (cases "r1 < 100")
      case True
      then have "unat r1 < 100" by (simp add: word_less_nat_alt)
      then obtain b where b: "put_dec_out_r (b2, p + 4) r1 = Some b" "puts (b2, p + 4) (rdec (unat r1)) b"
        using put_dec_out_r_digits [of r1 "p + 4" b2] assms(2) b2(3) by auto
      have "put_dec_trunc8 (buf, p) r = Some b"
        using r q True b1(1) b2(1) b(1) by (simp add: put_dec_trunc8_def q_def r1_def)
      with puts_trans [OF b1(2) puts_trans [OF b2(2) b(2)]] rd qd show ?thesis by auto
    next
      case r1: False
      have r1d: "rdec (unat r1) = rdig 2 (unat r div 10 ^ 4) @ rdec (unat q1)"
        using r1 rdec_split [of 2 "unat r1"] by (simp add: word_less_nat_alt c(2,3) div_mult2_eq [symmetric])
      from put_pair_rdig [OF c(6), of "p + 4" b2 "p + 6"] assms(2) b2(3) obtain b3
        where b3: "put_pair b2 (p + 4) (r1 - 100 * q1) = Some b3"
          "puts (b2, p + 4) (rdig 2 (unat r div 10 ^ 4)) (b3, p + 6)" "length b3 = length buf" by auto
      have "unat q1 < 100" using c(7) by simp
      then obtain b where b: "put_dec_out_r (b3, p + 6) q1 = Some b" "puts (b3, p + 6) (rdec (unat q1)) b"
        using put_dec_out_r_digits [of q1 "p + 6" b3] assms(2) b3(3) by auto
      have "put_dec_trunc8 (buf, p) r = Some b"
        using r q r1 b1(1) b2(1) b3(1) b(1) by (simp add: put_dec_trunc8_def q_def r1_def q1_def)
      with puts_trans [OF b1(2) puts_trans [OF b2(2) puts_trans [OF b3(2) b(2)]]] rd qd r1d show ?thesis by auto
    qed
  qed
qed

lemma put_dec_step_digits:
  assumes "p + 8 \<le> length buf"
  shows "\<exists>b m ds. put_dec_step ((buf, p), n) = Some (b, m) \<and> puts (buf, p) ds b \<and> rdec (unat n) = ds @ rdec (unat m) \<and>
    length ds \<le> 8 \<and> unat m = (if 10 ^ 8 \<le> unat n then unat n div 10 ^ 8 else unat n)"
proof (cases "n \<ge> 100 * 1000 * 1000")
  case True
  then have n: "10 ^ 8 \<le> unat n" by (simp add: word_le_nat_alt)
  have m: "unat (ucast (n mod 100000000) :: u32) = unat n mod 10 ^ 8"
    by (subst unat_ucast_down) (simp_all add: unat_mod order_less_trans [of _ "100000000"])
  then obtain b where "put_dec_full8 (buf, p) (ucast (n mod 100000000)) = Some b"
    "puts (buf, p) (rdig 8 (unat n mod 10 ^ 8)) b"
    using put_dec_full8_digits [OF _ assms, of "ucast (n mod 100000000)"] by auto
  moreover have "rdig 8 (unat n mod 10 ^ 8) = rdig 8 (unat n)" by (rule rdig_mod)
  ultimately show ?thesis using True n rdec_split [OF n]
    by (intro exI [of _ b] exI [of _ "n div (100 * 1000 * 1000)"] exI [of _ "rdig 8 (unat n)"])
      (simp add: put_dec_step_def unat_div)
next
  case False
  then show ?thesis using assms by (intro exI [of _ "(buf, p)"] exI [of _ n] exI [of _ "[]"])
    (simp add: put_dec_step_def puts_def word_le_nat_alt)
qed

lemma put_dec_digits:
  assumes "p + 24 \<le> length buf"
  shows "\<exists>b. put_dec (buf, p) n = Some b \<and> puts (buf, p) (rdec (unat n)) b"
proof -
  have n: "unat n < 2 ^ 64" using unsigned_less [of n, where 'a = nat] by simp
  from put_dec_step_digits [of p buf n] assms obtain b1 m1 ds1 where
    1: "put_dec_step ((buf, p), n) = Some (b1, m1)" "puts (buf, p) ds1 b1" "rdec (unat n) = ds1 @ rdec (unat m1)"
      "length ds1 \<le> 8" "unat m1 = (if 10 ^ 8 \<le> unat n then unat n div 10 ^ 8 else unat n)" by force
  obtain buf1 p1 where b1: "b1 = (buf1, p1)" by (cases b1)
  with 1(2,4) assms have l1: "p1 + 16 \<le> length buf1" by (auto simp: puts_def)
  from put_dec_step_digits [of p1 buf1 m1] l1 obtain b2 m2 ds2 where
    2: "put_dec_step (b1, m1) = Some (b2, m2)" "puts b1 ds2 b2" "rdec (unat m1) = ds2 @ rdec (unat m2)"
      "length ds2 \<le> 8" "unat m2 = (if 10 ^ 8 \<le> unat m1 then unat m1 div 10 ^ 8 else unat m1)"
    unfolding b1 by force
  obtain buf2 p2 where b2: "b2 = (buf2, p2)" by (cases b2)
  with 2(2,4) l1 b1 have l2: "p2 + 8 \<le> length buf2" by (auto simp: puts_def)
  have m2: "unat m2 < 10 ^ 8" using n 1(5) 2(5) by (simp split: if_splits)
  then have "unat (ucast m2 :: u32) = unat m2" by (intro unat_ucast_down) simp
  with put_dec_trunc8_digits [of "ucast m2" p2 buf2] m2 l2 obtain b where
    3: "put_dec_trunc8 b2 (ucast m2) = Some b" "puts b2 (rdec (unat m2)) b" unfolding b2 by auto
  have "put_dec (buf, p) n = Some b" using 1(1) 2(1) 3(1) by (simp add: put_dec_def)
  with puts_trans [OF 1(2) puts_trans [OF 2(2) 3(2)]] 1(3) 2(3) show ?thesis by auto
qed

subsection \<open>\<open>num_to_str\<close>\<close>

definition decimal :: "nat \<Rightarrow> u8 list" where "decimal n = map asc (rev (rdec n))"

lemma fill_blanks_writes:
  "i + k \<le> length buf \<Longrightarrow> fill_blanks k i buf = Some (take i buf @ replicate k 0x20 @ drop (i + k) buf)"
proof (induction k arbitrary: i buf)
  case (Suc k)
  then have "fill_blanks k (i + 1) (buf[i := 0x20])
      = Some (take (i + 1) (buf[i := 0x20]) @ replicate k 0x20 @ drop (i + 1 + k) (buf[i := 0x20]))"
    by (intro Suc.IH) simp
  then show ?case using Suc.prems by (simp add: arr_set_def take_Suc_conv_app_nth)
qed simp

lemma copy_reversed_writes:
  "i + k = len \<Longrightarrow> len \<le> length tmp \<Longrightarrow> len + w \<le> length buf \<Longrightarrow>
   copy_reversed k i len w tmp buf = Some (take (i + w) buf @ rev (take k tmp) @ drop (len + w) buf)"
proof (induction k arbitrary: i buf)
  case (Suc k)
  let ?c = "tmp ! k"
  have "len - i - 1 = k" using Suc.prems by simp
  moreover have "copy_reversed k (i + 1) len w tmp (buf[i + w := ?c])
      = Some (take (i + 1 + w) (buf[i + w := ?c]) @ rev (take k tmp) @ drop (len + w) (buf[i + w := ?c]))"
    using Suc.prems by (intro Suc.IH) simp_all
  ultimately show ?case using Suc.prems
    by (simp add: arr_set_def arr_get_def take_Suc_conv_app_nth)
qed auto

lemma rdec_not_Nil: "rdec n \<noteq> []"
  by (subst rdec.simps) simp

lemma rdec_lt: "d \<in> set (rdec n) \<Longrightarrow> d < 10"
proof (induction n rule: rdec.induct)
  case (1 n)
  then show ?case by (cases "n < 10") (auto simp: rdec.simps [of n])
qed

lemma length_decimal: "0 < length (decimal (unat (n :: u64)))" "length (decimal (unat n)) \<le> 20"
proof -
  have "unat n < 2 ^ 64" using unsigned_less [of n, where 'a = nat] by simp
  then have "unat n < 10 ^ Suc 19" by simp
  then show "length (decimal (unat n)) \<le> 20" unfolding decimal_def using length_rdec [of "unat n" 19] by simp
qed (simp add: decimal_def rdec_not_Nil)

lemma num_digits:
  assumes "length tmp = 24"
  shows "\<exists>tmp'. (if num \<le> 9 then do { tmp \<leftarrow> arr_set tmp 0 (0x30 + ucast num); Some (tmp, 1) } else put_dec (tmp, 0) num)
    = Some (tmp', length (decimal (unat num))) \<and> length (decimal (unat num)) \<le> length tmp' \<and>
      rev (take (length (decimal (unat num))) tmp') = decimal (unat num)"
proof (cases "num \<le> 9")
  case True
  then have "unat num < 10" by (simp add: word_le_nat_alt)
  then have "decimal (unat num) = [0x30 + ucast num]"
    by (simp add: decimal_def rdec.simps [of "unat num"] asc_def of_nat_unat)
  with True assms show ?thesis by (cases tmp) (auto simp: arr_set_def)
next
  case False
  from put_dec_digits [of 0 tmp num] assms obtain b where
    "put_dec (tmp, 0) num = Some b" "puts (tmp, 0) (rdec (unat num)) b" by auto
  with False show ?thesis by (cases b) (auto simp: puts_def decimal_def rev_map)
qed

lemma num_to_str_eq:
  assumes "length tmp = 24" "sz \<le> int (length buf)" "sz < 2 ^ 31"
  shows "num_to_str tmp buf sz num width =
    Some (let d = decimal (unat num); k = unat width - length d in
      if sz < int (length d) \<or> sz < int (unat width) then (0, buf)
      else (k + length d, replicate k 0x20 @ d @ drop (k + length d) buf))"
proof -
  define d where "d = decimal (unat num)"
  from num_digits [OF assms(1), of num] obtain tmp' where
    t: "(if num \<le> 9 then do { tmp \<leftarrow> arr_set tmp 0 (0x30 + ucast num); Some (tmp, 1) } else put_dec (tmp, 0) num)
      = Some (tmp', length d)" "length d \<le> length tmp'" "rev (take (length d) tmp') = d"
    unfolding d_def by blast
  have l: "length d \<le> 20" "0 < length d" unfolding d_def by (rule length_decimal)+
  have w: "word_of_nat (length d) < width \<longleftrightarrow> length d < unat width"
    using l by (simp add: word_less_nat_alt unat_of_nat)
  have sw: "word_of_int sz < width \<longleftrightarrow> sz < int (unat width)" if "0 \<le> sz"
    using that assms(3) by (simp add: word_less_def uint_word_of_int_eq take_bit_int_eq_self)
  show ?thesis
  proof (cases "sz < int (length d) \<or> sz < int (unat width)")
    case True
    then have "sz < int (length d) \<or> word_of_int sz < width" using sw by linarith
    then show ?thesis using True unfolding num_to_str_def t(1) d_def [symmetric] by simp
  next
    case False
    then have fits: "\<not> (sz < int (length d) \<or> word_of_int sz < width)" using sw by linarith
    have b: "length d \<le> length buf" "unat width \<le> length buf" using False assms(2) by linarith+
    show ?thesis
    proof (cases "length d < unat width")
      case True
      have "unat (width - word_of_nat (length d)) = unat width - length d"
        using True w l by (subst unat_sub) (simp_all add: unat_of_nat)
      then show ?thesis using fits False True w b t(2)
        unfolding num_to_str_def t(1) d_def [symmetric]
        by (simp add: fill_blanks_writes copy_reversed_writes t(3) Let_def)
    next
      case F: False
      then show ?thesis using fits False w b t(2)
        unfolding num_to_str_def t(1) d_def [symmetric]
        by (simp add: copy_reversed_writes t(3))
    qed
  qed
qed

lemma asc_digit: "d < 10 \<Longrightarrow> digit (asc d) = Some d"
proof -
  assume "d < 10"
  then have "unat (asc d) = 0x30 + d" unfolding asc_def unat_of_nat by simp
  with \<open>d < 10\<close> show ?thesis by (simp add: digit_def word_le_nat_alt)
qed

lemma digits_from_append: "digits_from b v (xs @ ys) = digits_from b (digits_from b v xs) ys"
  by (simp add: digits_from_def)

lemma digits_decimal: "digits_from 10 0 (decimal n) = n"
proof (induction n rule: rdec.induct)
  case (1 n)
  show ?case
  proof (cases "n < 10")
    case True
    then show ?thesis by (simp add: decimal_def rdec.simps [of n] digits_from_def asc_digit)
  next
    case False
    then have "decimal n = decimal (n div 10) @ [asc (n mod 10)]" by (simp add: decimal_def rdec.simps [of n])
    then show ?thesis using 1 [OF False] by (simp add: digits_from_append) (simp add: digits_from_def asc_digit)
  qed
qed

lemma decimal_chars:
  assumes "c \<in> set (decimal n)"
  shows "is_digit 10 c" "c \<noteq> 0" "c \<noteq> 0x2b"
proof -
  from assms obtain d where "d < 10" "c = asc d" by (auto simp: decimal_def dest: rdec_lt)
  then have "digit c = Some d" "d < 10" by (simp_all add: asc_digit)
  then show "is_digit 10 c" "c \<noteq> 0" "c \<noteq> 0x2b" by (auto simp: is_digit_def digit_def)
qed

lemma parse_decimal: "parse_nat 10 (decimal (unat (n :: u64))) = Inr (unat n)"
proof -
  have n: "decimal (unat n) \<noteq> []" using length_decimal(1) [of n] by simp
  then have "hd (decimal (unat n)) \<noteq> 0x2b" using decimal_chars(3) [of "hd (decimal (unat n))" "unat n"] by auto
  moreover have tw: "takeWhile (is_digit 10) (decimal (unat n)) = decimal (unat n)"
    "dropWhile (is_digit 10) (decimal (unat n)) = []"
    using decimal_chars(1) by simp_all
  moreover have "unat n < 2 ^ 64" using unsigned_less [of n, where 'a = nat] by simp
  ultimately show ?thesis using n
    by (simp add: parse_nat_def parse_nosign_def radix_def body_def digits_decimal Let_def tw(1))
qed

lemma kstrtoull_decimal: "kstrtoull (decimal (unat num) @ 0 # junk) 10 = Some (Inr num)"
proof -
  define d where "d = decimal (unat num)"
  have "0 \<notin> set d" unfolding d_def using decimal_chars(2) by blast
  moreover have "length d < 2 ^ 31" using length_decimal(2) [of num] by (simp add: d_def)
  ultimately have "kstrtoull (d @ 0 # junk) 10 = Some (map_sum id word_of_nat (parse_nat 10 d))"
    using kstrtoull_parse [of d 10 junk] by simp
  then show ?thesis by (simp add: d_def parse_decimal)
qed

lemma drop_blanks: "dropWhile (\<lambda>c. c = 0x20) (replicate k 0x20 @ decimal n) = decimal n"
proof -
  have "decimal n \<noteq> [] \<Longrightarrow> hd (decimal n) \<noteq> 0x20"
    using decimal_chars(1) [of "hd (decimal n)" n] by (auto simp: is_digit_def digit_def)
  then show ?thesis by (cases "decimal n") (simp_all add: dropWhile_append)
qed

text \<open>C13. \<^verbatim>\<open>num_to_str\<close> never leaves either buffer. It returns 0 exactly where the number or
  the field is wider than \<^verbatim>\<open>size\<close>, and then the caller's buffer is unchanged. Otherwise it returns
  the larger of the field width and the number of digits, changes nothing behind them, and reading the
  text back with \<^verbatim>\<open>kstrtoull\<close> in base 10, after the padding, gives the number, for every 64-bit value.\<close>

theorem num_to_str_roundtrip:
  assumes "length tmp = 24" "sz \<le> int (length buf)" "sz < 2 ^ 31"
  shows "\<exists>len buf'. num_to_str tmp buf sz num width = Some (len, buf') \<and> length buf' = length buf \<and>
    (len = 0 \<longleftrightarrow> sz < int (length (decimal (unat num))) \<or> sz < int (unat width)) \<and>
    (if len = 0 then buf' = buf
     else len = max (unat width) (length (decimal (unat num))) \<and> drop len buf' = drop len buf \<and>
       kstrtoull (dropWhile (\<lambda>c. c = 0x20) (take len buf') @ 0 # junk) 10 = Some (Inr num))"
proof -
  define d where "d = decimal (unat num)"
  define k where "k = unat width - length d"
  have l: "0 < length d" unfolding d_def by (rule length_decimal)
  have eq: "num_to_str tmp buf sz num width = Some (if sz < int (length d) \<or> sz < int (unat width) then (0, buf)
      else (k + length d, replicate k 0x20 @ d @ drop (k + length d) buf))"
    using num_to_str_eq [OF assms, of num width] by (simp add: Let_def d_def k_def)
  have "length buf \<ge> k + length d" "max (unat width) (length d) = k + length d"
    if "\<not> (sz < int (length d) \<or> sz < int (unat width))"
    using that assms(2) unfolding k_def by linarith+
  moreover have "kstrtoull (dropWhile (\<lambda>c. c = 0x20) (replicate k 0x20 @ d) @ 0 # junk) 10 = Some (Inr num)"
    unfolding d_def drop_blanks by (rule kstrtoull_decimal)
  ultimately show ?thesis using l unfolding eq d_def [symmetric]
    by (cases "sz < int (length d) \<or> sz < int (unat width)") simp_all
qed

theorem num_to_str_roundtrip_witness:
  "\<exists>len buf'. num_to_str (replicate 24 7) (replicate 8 1) 7 1234 5 = Some (len, buf') \<and>
    kstrtoull (dropWhile (\<lambda>c. c = 0x20) (take len buf') @ 0 # []) 10 = Some (Inr 1234)"
proof -
  have d: "length (decimal 1234) = 4" by (simp add: decimal_def rdec.simps)
  from num_to_str_roundtrip [of "replicate 24 7" 7 "replicate 8 1" 1234 5 "[]"] obtain len buf' where
    *: "num_to_str (replicate 24 7) (replicate 8 1) 7 1234 5 = Some (len, buf')"
      "len = 0 \<longleftrightarrow> 7 < int (length (decimal (unat (1234 :: u64)))) \<or> 7 < int (unat (5 :: u32))"
      "if len = 0 then buf' = replicate 8 1
       else len = max (unat (5 :: u32)) (length (decimal (unat (1234 :: u64)))) \<and> drop len buf' = drop len (replicate 8 1) \<and>
         kstrtoull (dropWhile (\<lambda>c. c = 0x20) (take len buf') @ 0 # []) 10 = Some (Inr 1234)"
    by auto
  from *(2) have "len \<noteq> 0" using d by simp
  with *(1,3) show ?thesis by auto
qed

end
