(* ===== verification/Hexdump.thy ===== *)
theory Hexdump
  imports Kstrtox Bitops
begin

section \<open>Hexadecimal text (lib/hexdump.c, lib/uuid.c)\<close>

text \<open>
  Conversion between bytes and hexadecimal text, the one-line hex dump, and UUID parsing. Output
  pointers are a byte list and an offset. \<^verbatim>\<open>snprintf\<close> is the C library function restricted to the
  formats used here: an optional blank and a zero-padded hexadecimal number of fixed width. A jump
  to one of the overflow labels is \<open>Inl\<close>.
\<close>

subsection \<open>Bytes and digit pairs\<close>

definition hex_asc :: "u8 list" where
  "hex_asc = [0x30, 0x31, 0x32, 0x33, 0x34, 0x35, 0x36, 0x37, 0x38, 0x39, 0x61, 0x62, 0x63, 0x64, 0x65, 0x66]"

definition hex_asc_upper :: "u8 list" where
  "hex_asc_upper = [0x30, 0x31, 0x32, 0x33, 0x34, 0x35, 0x36, 0x37, 0x38, 0x39, 0x41, 0x42, 0x43, 0x44, 0x45, 0x46]"

definition hex_asc_lo :: "u8 \<Rightarrow> u8" where "hex_asc_lo x = hex_asc ! unat (x AND 0x0f)"
definition hex_asc_hi :: "u8 \<Rightarrow> u8" where "hex_asc_hi x = hex_asc ! unat (drop_bit 4 (x AND 0xf0))"
definition hex_asc_upper_lo :: "u8 \<Rightarrow> u8" where "hex_asc_upper_lo x = hex_asc_upper ! unat (x AND 0x0f)"
definition hex_asc_upper_hi :: "u8 \<Rightarrow> u8" where
  "hex_asc_upper_hi x = hex_asc_upper ! unat (drop_bit 4 (x AND 0xf0))"

definition hex_byte_pack :: "u8 list \<times> nat \<Rightarrow> u8 \<Rightarrow> (u8 list \<times> nat) option" where
  "hex_byte_pack bp byte = do {
     let (buf, p) = bp;
     buf \<leftarrow> arr_set buf p (hex_asc_hi byte);
     buf \<leftarrow> arr_set buf (p + 1) (hex_asc_lo byte);
     Some (buf, p + 2)
   }"

definition hex_byte_pack_upper :: "u8 list \<times> nat \<Rightarrow> u8 \<Rightarrow> (u8 list \<times> nat) option" where
  "hex_byte_pack_upper bp byte = do {
     let (buf, p) = bp;
     buf \<leftarrow> arr_set buf p (hex_asc_upper_hi byte);
     buf \<leftarrow> arr_set buf (p + 1) (hex_asc_upper_lo byte);
     Some (buf, p + 2)
   }"

definition hex_to_bin :: "u8 \<Rightarrow> int" where
  "hex_to_bin ch =
     (if 0x30 \<le>s ch \<and> ch \<le>s 0x39 then sint ch - 0x30
      else let ch = tolower ch in
           if 0x61 \<le>s ch \<and> ch \<le>s 0x66 then sint ch - 0x61 + 10 else - 1)"

text \<open>The result of the loop is the return code and the destination array.\<close>

primrec hex2bin_loop :: "nat \<Rightarrow> nat \<Rightarrow> u8 list \<Rightarrow> cstring \<Rightarrow> ((errno + unit) \<times> u8 list) option" where
  "hex2bin_loop 0 p dst src = Some (Inr (), dst)" |
  "hex2bin_loop (Suc count) p dst src = do {
     c0 \<leftarrow> arr_get src 0;
     let hi = hex_to_bin c0;
     c1 \<leftarrow> arr_get src 1;
     let lo = hex_to_bin c1;
     if hi < 0 \<or> lo < 0 then Some (Inl EINVAL, dst)
     else do {
       dst \<leftarrow> arr_set dst p (word_of_int (push_bit 4 hi OR lo));
       hex2bin_loop count (p + 1) dst (drop 2 src)
     }
   }"

definition hex2bin :: "u8 list \<Rightarrow> cstring \<Rightarrow> nat \<Rightarrow> ((errno + unit) \<times> u8 list) option" where
  "hex2bin dst src count = hex2bin_loop count 0 dst src"

primrec bin2hex :: "u8 list \<times> nat \<Rightarrow> u8 list \<Rightarrow> nat \<Rightarrow> (u8 list \<times> nat) option" where
  "bin2hex dst src 0 = Some dst" |
  "bin2hex dst src (Suc count) = do {
     b \<leftarrow> arr_get src 0;
     dst \<leftarrow> hex_byte_pack dst b;
     bin2hex dst (drop 1 src) count
   }"

subsection \<open>The hex dump of one line\<close>

text \<open>\<open>snprintf_at buf off n text\<close>: at most \<open>n\<close> bytes at offset \<open>off\<close>, the last of them NUL.\<close>

definition write_at :: "u8 list \<Rightarrow> nat \<Rightarrow> u8 list \<Rightarrow> u8 list option" where
  "write_at buf off bytes =
     (if off + length bytes \<le> length buf then Some (take off buf @ bytes @ drop (off + length bytes) buf) else None)"

definition snprintf_at :: "u8 list \<Rightarrow> nat \<Rightarrow> nat \<Rightarrow> u8 list \<Rightarrow> u8 list option" where
  "snprintf_at buf off n text = (if n = 0 then Some buf else write_at buf off (take (n - 1) text @ [0]))"

text \<open>A little-endian load of \<open>g\<close> bytes, and a number as \<open>k\<close> hexadecimal digits.\<close>

definition get_unaligned :: "nat \<Rightarrow> u8 list \<Rightarrow> nat \<Rightarrow> nat option" where
  "get_unaligned g ptr off =
     (if off + g \<le> length ptr then Some (horner_sum unat 256 (take g (drop off ptr))) else None)"

definition format_hex :: "nat \<Rightarrow> nat \<Rightarrow> u8 list" where
  "format_hex k v = map (\<lambda>i. hex_asc ! (v div 16 ^ i mod 16)) (rev [0..<k])"

text \<open>The loops of the three group sizes differ only in the width of the load and of the number.\<close>

primrec dump_groups :: "nat \<Rightarrow> nat \<Rightarrow> nat \<Rightarrow> u8 list \<Rightarrow> nat \<Rightarrow> nat \<Rightarrow> u8 list \<Rightarrow> (u8 list + nat \<times> u8 list) option" where
  "dump_groups 0 j g ptr linebuflen lx linebuf = Some (Inr (lx, linebuf))" |
  "dump_groups (Suc k) j g ptr linebuflen lx linebuf = do {
     v \<leftarrow> get_unaligned g ptr (j * g);
     let text = (if j \<noteq> 0 then [0x20] else []) @ format_hex (2 * g) v;
     linebuf \<leftarrow> snprintf_at linebuf lx (linebuflen - lx) text;
     if length text \<ge> linebuflen - lx then Some (Inl linebuf)
     else dump_groups k (j + 1) g ptr linebuflen (lx + length text) linebuf
   }"

text \<open>One guarded store \<^verbatim>\<open>if (linebuflen < lx + 2) goto overflow2; linebuf[lx++] = c\<close>. The label
  \<^verbatim>\<open>overflow2\<close> terminates the text.\<close>

definition put_char :: "nat \<Rightarrow> u8 \<Rightarrow> nat \<times> u8 list \<Rightarrow> (u8 list + nat \<times> u8 list) option" where
  "put_char linebuflen c s = (let (lx, linebuf) = s in
     if linebuflen < lx + 2 then do { linebuf \<leftarrow> arr_set linebuf lx 0; Some (Inl linebuf) }
     else do { linebuf \<leftarrow> arr_set linebuf lx c; Some (Inr (lx + 1, linebuf)) })"

primrec put_chars :: "nat \<Rightarrow> u8 list \<Rightarrow> nat \<times> u8 list \<Rightarrow> (u8 list + nat \<times> u8 list) option" where
  "put_chars linebuflen [] s = Some (Inr s)" |
  "put_chars linebuflen (c # cs) s = do {
     r \<leftarrow> put_char linebuflen c s;
     case r of Inl linebuf \<Rightarrow> Some (Inl linebuf) | Inr s \<Rightarrow> put_chars linebuflen cs s
   }"

primrec dump_bytes :: "nat \<Rightarrow> nat \<Rightarrow> u8 list \<Rightarrow> nat \<Rightarrow> nat \<times> u8 list \<Rightarrow> (u8 list + nat \<times> u8 list) option" where
  "dump_bytes 0 j ptr linebuflen s = Some (Inr s)" |
  "dump_bytes (Suc k) j ptr linebuflen s = do {
     ch \<leftarrow> arr_get ptr j;
     r \<leftarrow> put_chars linebuflen [hex_asc_hi ch, hex_asc_lo ch, 0x20] s;
     case r of Inl linebuf \<Rightarrow> Some (Inl linebuf) | Inr s \<Rightarrow> dump_bytes k (j + 1) ptr linebuflen s
   }"

primrec dump_ascii :: "nat \<Rightarrow> nat \<Rightarrow> u8 list \<Rightarrow> nat \<Rightarrow> nat \<times> u8 list \<Rightarrow> (u8 list + nat \<times> u8 list) option" where
  "dump_ascii 0 j ptr linebuflen s = Some (Inr s)" |
  "dump_ascii (Suc k) j ptr linebuflen s = do {
     ch \<leftarrow> arr_get ptr j;
     r \<leftarrow> put_char linebuflen (if isascii ch \<and> isprint ch then ch else 0x2e) s;
     case r of Inl linebuf \<Rightarrow> Some (Inl linebuf) | Inr s \<Rightarrow> dump_ascii k (j + 1) ptr linebuflen s
   }"

definition dump_hex :: "nat \<Rightarrow> nat \<Rightarrow> u8 list \<Rightarrow> nat \<Rightarrow> u8 list \<Rightarrow> (u8 list + nat \<times> u8 list) option" where
  "dump_hex len g buf linebuflen linebuf =
     (if g = 8 \<or> g = 4 \<or> g = 2 then dump_groups (len div g) 0 g buf linebuflen 0 linebuf
      else do {
        r \<leftarrow> dump_bytes len 0 buf linebuflen (0, linebuf);
        Some (case r of Inl linebuf \<Rightarrow> Inl linebuf
              | Inr (lx, linebuf) \<Rightarrow> Inr (if len \<noteq> 0 then lx - 1 else lx, linebuf))
      })"

definition hex_dump_to_buffer ::
  "u8 list \<Rightarrow> nat \<Rightarrow> int \<Rightarrow> int \<Rightarrow> u8 list \<Rightarrow> nat \<Rightarrow> bool \<Rightarrow> (int \<times> u8 list) option" where
  "hex_dump_to_buffer buf len rowsize groupsize linebuf linebuflen ascii =
     (let rowsize = (if rowsize \<noteq> 16 \<and> rowsize \<noteq> 32 then 16 else nat rowsize);
          len = (if len > rowsize then rowsize else len);
          groupsize = (if \<not> is_power_of_2 (word_of_int groupsize) \<or> groupsize > 8 then 1 else nat groupsize);
          groupsize = (if len mod groupsize \<noteq> 0 then 1 else groupsize);
          ngroups = len div groupsize;
          ascii_column = rowsize * 2 + rowsize div groupsize + 1;
          overflow1 = (if ascii then int (ascii_column + len) else int ((groupsize * 2 + 1) * ngroups) - 1);
          nil = (\<lambda>(lx, linebuf). do { linebuf \<leftarrow> arr_set linebuf lx 0; Some (int lx, linebuf) })
      in if linebuflen = 0 then Some (overflow1, linebuf)
         else if len = 0 then nil (0, linebuf)
         else do {
           r \<leftarrow> dump_hex len groupsize buf linebuflen linebuf;
           case r of Inl linebuf \<Rightarrow> Some (overflow1, linebuf)
           | Inr (lx, linebuf) \<Rightarrow>
             if \<not> ascii then nil (lx, linebuf)
             else do {
               r \<leftarrow> put_chars linebuflen (replicate (ascii_column - lx) 0x20) (lx, linebuf);
               case r of Inl linebuf \<Rightarrow> Some (overflow1, linebuf)
               | Inr s \<Rightarrow> do {
                   r \<leftarrow> dump_ascii len 0 buf linebuflen s;
                   case r of Inl linebuf \<Rightarrow> Some (overflow1, linebuf) | Inr s \<Rightarrow> nil s
                 }
             }
         })"

subsection \<open>UUIDs\<close>

definition UUID_SIZE :: nat where "UUID_SIZE = 16"

definition UUID_STRING_LEN :: nat where "UUID_STRING_LEN = 36"

definition guid_index :: "nat list" where "guid_index = [3, 2, 1, 0, 5, 4, 7, 6, 8, 9, 10, 11, 12, 13, 14, 15]"

definition uuid_index :: "nat list" where "uuid_index = [0, 1, 2, 3, 4, 5, 6, 7, 8, 9, 10, 11, 12, 13, 14, 15]"

definition generate_random_uuid :: "u8 list \<Rightarrow> u8 list option" where
  "generate_random_uuid uuid = do {
     b \<leftarrow> arr_get uuid 6;
     uuid \<leftarrow> arr_set uuid 6 ((b AND 0x0f) OR 0x40);
     b \<leftarrow> arr_get uuid 8;
     arr_set uuid 8 ((b AND 0x3f) OR 0x80)
   }"

definition uuid_gen_common :: "u8 list \<Rightarrow> u8 list option" where
  "uuid_gen_common b = do { c \<leftarrow> arr_get b 8; arr_set b 8 ((c AND 0x3f) OR 0x80) }"

definition guid_gen :: "u8 list \<Rightarrow> u8 list option" where
  "guid_gen lu = do { b \<leftarrow> uuid_gen_common lu; c \<leftarrow> arr_get b 7; arr_set b 7 ((c AND 0x0f) OR 0x40) }"

definition uuid_gen :: "u8 list \<Rightarrow> u8 list option" where
  "uuid_gen bu = do { b \<leftarrow> uuid_gen_common bu; c \<leftarrow> arr_get b 6; arr_set b 6 ((c AND 0x0f) OR 0x40) }"

text \<open>\<open>uuid_is_valid_loop k i\<close>: the last \<open>k\<close> iterations, from index \<open>i\<close> on.\<close>

primrec uuid_is_valid_loop :: "nat \<Rightarrow> nat \<Rightarrow> cstring \<Rightarrow> bool option" where
  "uuid_is_valid_loop 0 i uuid = Some True" |
  "uuid_is_valid_loop (Suc k) i uuid = do {
     c \<leftarrow> arr_get uuid i;
     if i = 8 \<or> i = 13 \<or> i = 18 \<or> i = 23
     then if c \<noteq> 0x2d then Some False else uuid_is_valid_loop k (i + 1) uuid
     else if \<not> isxdigit c then Some False else uuid_is_valid_loop k (i + 1) uuid
   }"

definition uuid_is_valid :: "cstring \<Rightarrow> bool option" where
  "uuid_is_valid uuid = uuid_is_valid_loop UUID_STRING_LEN 0 uuid"

definition si :: "nat list" where "si = [0, 2, 4, 6, 9, 11, 14, 16, 19, 21, 24, 26, 28, 30, 32, 34]"

primrec uuid_parse_loop :: "nat \<Rightarrow> nat \<Rightarrow> cstring \<Rightarrow> nat list \<Rightarrow> u8 list \<Rightarrow> u8 list option" where
  "uuid_parse_loop 0 i uuid ei b = Some b" |
  "uuid_parse_loop (Suc k) i uuid ei b = do {
     c0 \<leftarrow> arr_get uuid (si ! i + 0);
     let hi = hex_to_bin c0;
     c1 \<leftarrow> arr_get uuid (si ! i + 1);
     let lo = hex_to_bin c1;
     b \<leftarrow> arr_set b (ei ! i) (word_of_int (push_bit 4 hi OR lo));
     uuid_parse_loop k (i + 1) uuid ei b
   }"

definition uuid_parse_index :: "cstring \<Rightarrow> u8 list \<Rightarrow> nat list \<Rightarrow> ((errno + unit) \<times> u8 list) option" where
  "uuid_parse_index uuid b ei = do {
     ok \<leftarrow> uuid_is_valid uuid;
     if \<not> ok then Some (Inl EINVAL, b)
     else do { b \<leftarrow> uuid_parse_loop 16 0 uuid ei b; Some (Inr (), b) }
   }"

definition guid_parse :: "cstring \<Rightarrow> u8 list \<Rightarrow> ((errno + unit) \<times> u8 list) option" where
  "guid_parse uuid u = uuid_parse_index uuid u guid_index"

definition uuid_parse :: "cstring \<Rightarrow> u8 list \<Rightarrow> ((errno + unit) \<times> u8 list) option" where
  "uuid_parse uuid u = uuid_parse_index uuid u uuid_index"

end
