(* ===== verification/Hexdump_Correct.thy ===== *)
theory Hexdump_Correct
  imports Hexdump
begin

section \<open>Hexadecimal text is read back, and the dump writes its line\<close>

text \<open>
  Round trips of the digit-pair conversions, and the text \<^verbatim>\<open>hex_dump_to_buffer\<close> writes: every
  routine that appends to the line either continues with more text in the buffer or stops with the
  longest prefix that fits, terminated. The composition law of such routines carries the proof.
\<close>

subsection \<open>Appending text to a line buffer\<close>

text \<open>\<open>line e n lb0 t s\<close>: the text \<open>t\<close> has been written to the start of a buffer that was
  \<open>lb0\<close>, of which \<open>n\<close> bytes may be used; the \<open>e\<close> bytes behind the text are arbitrary.\<close>

definition line :: "nat \<Rightarrow> nat \<Rightarrow> u8 list \<Rightarrow> u8 list \<Rightarrow> nat \<times> u8 list \<Rightarrow> bool" where
  "line e n lb0 t s \<longleftrightarrow> fst s = length t \<and> length t < n \<and> n \<le> length lb0 \<and> length (snd s) = length lb0 \<and>
     take (length t) (snd s) = t \<and> drop (length t + e) (snd s) = drop (length t + e) lb0"

definition cut :: "nat \<Rightarrow> u8 list \<Rightarrow> u8 list \<Rightarrow> u8 list" where
  "cut n lb0 t = take (n - 1) t @ [0] @ drop n lb0"

text \<open>The slack \<open>e\<close> is at most 1: a terminator behind the text, or a blank that has been taken back.\<close>

definition appended :: "nat \<Rightarrow> nat \<Rightarrow> u8 list \<Rightarrow> u8 list \<Rightarrow> (u8 list + nat \<times> u8 list) option \<Rightarrow> bool" where
  "appended e n lb0 t r \<longleftrightarrow> (\<exists>s. r = Some (Inr s) \<and> line e n lb0 t s) \<or>
     (n \<le> length t + e \<and> r = Some (Inl (cut n lb0 t)))"

lemma appended_bind:
  assumes "e \<le> 1" "appended e n lb0 t r" "\<And>s. line e n lb0 t s \<Longrightarrow> appended e n lb0 (t @ u) (f s)"
  shows "appended e n lb0 (t @ u) (do { x \<leftarrow> r; case x of Inl lb \<Rightarrow> Some (Inl lb) | Inr s \<Rightarrow> f s })"
  using assms(2) [unfolded appended_def]
proof (elim disjE exE conjE)
  fix s
  assume "r = Some (Inr s)" "line e n lb0 t s"
  with assms(3) show ?thesis by (simp add: appended_def)
next
  assume "n \<le> length t + e" "r = Some (Inl (cut n lb0 t))"
  moreover from this(1) have "cut n lb0 (t @ u) = cut n lb0 t" using assms(1) by (simp add: cut_def)
  ultimately show ?thesis by (simp add: appended_def)
qed

lemma line_store:
  assumes "e \<le> 1" "line e n lb0 t (lx, lb)"
  shows "arr_set lb lx c = Some (t @ [c] @ drop (Suc (length t)) lb0)"
proof -
  from assms(2) have b: "lx = length t" "lx < length lb" "take lx lb = t" "drop (lx + e) lb = drop (lx + e) lb0"
    by (auto simp: line_def)
  have "drop (Suc lx) xs = drop (1 - e) (drop (lx + e) xs)" for xs :: "u8 list" using assms(1) by (cases e) auto
  with b(4) have "drop (Suc lx) lb = drop (Suc lx) lb0" by metis
  with b show ?thesis by (simp add: arr_set_def upd_conv_take_nth_drop)
qed

lemma put_char_appended: "e \<le> 1 \<Longrightarrow> line e n lb0 t s \<Longrightarrow> appended e n lb0 (t @ [c]) (put_char n c s)"
proof -
  assume e: "e \<le> 1" and l: "line e n lb0 t s"
  obtain lx lb where s: "s = (lx, lb)" by (cases s)
  have b: "lx = length t" "lx < n" "n \<le> length lb0" using l by (auto simp: line_def s)
  show ?thesis
  proof (cases "n < lx + 2")
    case True
    then have "n = Suc (length t)" using b by simp
    then show ?thesis using True line_store [of e n lb0 t lx lb 0] l e
      by (simp add: s put_char_def appended_def cut_def)
  next
    case False
    then show ?thesis using line_store [of e n lb0 t lx lb c] l b e
      by (auto simp: s put_char_def appended_def line_def add.commute)
  qed
qed

lemma put_chars_appended: "e \<le> 1 \<Longrightarrow> line e n lb0 t s \<Longrightarrow> appended e n lb0 (t @ cs) (put_chars n cs s)"
proof (induction cs arbitrary: t s)
  case Nil
  then show ?case by (auto simp: appended_def)
next
  case (Cons c cs)
  have "appended e n lb0 ((t @ [c]) @ cs) (put_chars n (c # cs) s)"
    unfolding put_chars.simps
    by (rule appended_bind [OF Cons.prems(1) put_char_appended [OF Cons.prems]]) (rule Cons.IH [OF Cons.prems(1)])
  then show ?case by simp
qed

lemma snprintf_appended:
  assumes "line 1 n lb0 t (lx, lb)"
  obtains lb' where "snprintf_at lb lx (n - lx) u = Some lb'" "n - lx \<le> length u \<Longrightarrow> lb' = cut n lb0 (t @ u)"
    "\<not> n - lx \<le> length u \<Longrightarrow> line 1 n lb0 (t @ u) (lx + length u, lb')"
proof -
  from assms have b: "lx = length t" "lx < n" "n \<le> length lb0" "length lb = length lb0" "take lx lb = t"
    "drop (Suc lx) lb = drop (Suc lx) lb0" by (auto simp: line_def)
  define w where "w = take (n - lx - 1) u @ [0]"
  have w: "lx + length w \<le> n" "0 < length w" using b(2) by (auto simp: w_def)
  then have d: "drop (lx + length w) lb = drop (lx + length w) lb0"
    using arg_cong [OF b(6), of "drop (length w - 1)"] by (cases w) (simp_all add: add.commute)
  have "snprintf_at lb lx (n - lx) u = Some (t @ w @ drop (lx + length w) lb0)"
  proof -
    have "snprintf_at lb lx (n - lx) u = write_at lb lx w" using b(2) by (simp add: snprintf_at_def w_def)
    also have "... = Some (t @ w @ drop (lx + length w) lb0)" using b w d by (simp add: write_at_def)
    finally show ?thesis .
  qed
  moreover have "t @ w @ drop (lx + length w) lb0 = cut n lb0 (t @ u)" if "n - lx \<le> length u"
    using that b(1,2) by (simp add: cut_def w_def)
  moreover have "line 1 n lb0 (t @ u) (lx + length u, t @ w @ drop (lx + length w) lb0)" if "\<not> n - lx \<le> length u"
    using that b(1-3) by (auto simp: line_def w_def)
  ultimately show ?thesis by (rule that)
qed

subsection \<open>The parts of the line\<close>

definition hex_byte :: "u8 \<Rightarrow> u8 list" where "hex_byte b = [hex_asc_hi b, hex_asc_lo b]"

definition group_text :: "nat \<Rightarrow> u8 list \<Rightarrow> nat \<Rightarrow> u8 list" where
  "group_text g bs i = concat (map hex_byte (rev (take g (drop (i * g) bs))))"

definition hex_text :: "nat \<Rightarrow> u8 list \<Rightarrow> u8 list" where
  "hex_text g bs = butlast (concat (map (\<lambda>i. group_text g bs i @ [0x20]) [0..<length bs div g]))"

definition ascii_text :: "u8 list \<Rightarrow> u8 list" where
  "ascii_text bs = map (\<lambda>b. if isascii b \<and> isprint b then b else 0x2e) bs"

lemma hex_byte_value:
  "hex_byte b = [hex_asc ! (unat b div 16), hex_asc ! (unat b mod 16)]"
proof -
  have "drop_bit 4 (b AND 0xf0) = drop_bit 4 b"
    by (rule all_bytes [where c = b]) code_simp
  then have "unat (drop_bit 4 (b AND 0xf0)) = unat b div 16"
    by (simp add: drop_bit_eq_div unat_div)
  moreover have "unat (b AND 0x0f) = unat b mod 16"
  proof -
    have "b AND 0x0f = take_bit 4 b" by (simp add: take_bit_eq_mask mask_eq_exp_minus_1)
    then show ?thesis by (simp add: take_bit_eq_mod unat_mod)
  qed
  ultimately show ?thesis by (simp add: hex_byte_def hex_asc_hi_def hex_asc_lo_def)
qed

lemma format_hex_Suc2: "format_hex (Suc (Suc k)) v = format_hex k (v div 256) @ [hex_asc ! (v div 16 mod 16), hex_asc ! (v mod 16)]"
proof -
  have "rev [0..<Suc (Suc k)] = map (\<lambda>i. i + 2) (rev [0..<k]) @ [1, 0]"
    by (induction k) auto
  then show ?thesis by (simp add: format_hex_def div_mult2_eq power_add)
qed

lemma format_hex_bytes: "format_hex (2 * length bs) (horner_sum unat 256 bs) = concat (map hex_byte (rev bs))"
proof (induction bs)
  case Nil
  then show ?case by (simp add: format_hex_def)
next
  case (Cons b bs)
  have b: "unat b < 256" using unsigned_less [of b, where 'a = nat] by simp
  define v where "v = horner_sum unat 256 bs"
  have "(unat b + v * 256) div 256 = v" "(unat b + v * 256) div 16 mod 16 = unat b div 16"
    "(unat b + v * 256) mod 16 = unat b mod 16"
  proof -
    have 16: "unat b + v * 256 = unat b + 16 * (16 * v)" by simp
    show "(unat b + v * 256) div 256 = v" using b by simp
    show "(unat b + v * 256) div 16 mod 16 = unat b div 16" unfolding 16 using b by (simp only: div_mult_self2 mod_mult_self2) simp
    show "(unat b + v * 256) mod 16 = unat b mod 16" unfolding 16 by (simp only: mod_mult_self2)
  qed
  then show ?case using Cons.IH by (simp add: format_hex_Suc2 hex_byte_value v_def [symmetric] mult.commute)
qed

lemma group_text_load:
  "i * g + g \<le> length bs \<Longrightarrow> get_unaligned g bs (i * g) = Some v \<Longrightarrow> format_hex (2 * g) v = group_text g bs i"
  using format_hex_bytes [of "take g (drop (i * g) bs)"] by (auto simp: get_unaligned_def group_text_def)

text \<open>Separators in front of all groups but the first, as the loop writes them.\<close>

definition group_sep :: "nat \<Rightarrow> u8 list \<Rightarrow> nat \<Rightarrow> u8 list" where
  "group_sep g bs i = (if i \<noteq> 0 then [0x20] else []) @ group_text g bs i"

lemma dump_groups_appended:
  "line 1 n lb0 t (lx, lb) \<Longrightarrow> (j + k) * g \<le> length bs \<Longrightarrow>
   appended 1 n lb0 (t @ concat (map (group_sep g bs) [j..<j + k])) (dump_groups k j g bs n lx lb)"
proof (induction k arbitrary: j t lx lb)
  case 0
  then show ?case by (auto simp: appended_def)
next
  case (Suc k)
  have jg: "j * g + g \<le> length bs" using Suc.prems(2) by (simp add: algebra_simps)
  then obtain v where v: "get_unaligned g bs (j * g) = Some v" by (simp add: get_unaligned_def)
  have gs: "group_sep g bs j = (if j \<noteq> 0 then [0x20] else []) @ format_hex (2 * g) v"
    using group_text_load [OF jg v] by (simp add: group_sep_def)
  from snprintf_appended [OF Suc.prems(1)] obtain lb' where
    lb': "snprintf_at lb lx (n - lx) (group_sep g bs j) = Some lb'"
      "n - lx \<le> length (group_sep g bs j) \<Longrightarrow> lb' = cut n lb0 (t @ group_sep g bs j)"
      "\<not> n - lx \<le> length (group_sep g bs j) \<Longrightarrow> line 1 n lb0 (t @ group_sep g bs j) (lx + length (group_sep g bs j), lb')"
    by blast
  have up: "[j..<j + Suc k] = j # [Suc j..<Suc j + k]" by (simp add: upt_conv_Cons)
  have run: "dump_groups (Suc k) j g bs n lx lb =
      (if length (group_sep g bs j) \<ge> n - lx then Some (Inl lb')
       else dump_groups k (j + 1) g bs n (lx + length (group_sep g bs j)) lb')"
    using lb'(1) unfolding dump_groups.simps Let_def v bind.bind_lunit gs [symmetric] by simp
  show ?case
  proof (cases "n - lx \<le> length (group_sep g bs j)")
    case True
    have "lx = length t" "lx < n" using Suc.prems(1) by (auto simp: line_def)
    then show ?thesis using True lb'(2) unfolding run up by (simp add: appended_def cut_def)
  next
    case False
    have "appended 1 n lb0 ((t @ group_sep g bs j) @ concat (map (group_sep g bs) [Suc j..<Suc j + k]))
        (dump_groups k (Suc j) g bs n (lx + length (group_sep g bs j)) lb')"
      using Suc.prems(2) by (intro Suc.IH [OF lb'(3) [OF False]]) simp
    then show ?thesis using False unfolding run up by simp
  qed
qed

lemma dump_bytes_appended:
  "e \<le> 1 \<Longrightarrow> line e n lb0 t s \<Longrightarrow> j + k \<le> length bs \<Longrightarrow>
   appended e n lb0 (t @ concat (map (\<lambda>i. group_text 1 bs i @ [0x20]) [j..<j + k])) (dump_bytes k j bs n s)"
proof (induction k arbitrary: j t s)
  case 0
  then show ?case by (auto simp: appended_def)
next
  case (Suc k)
  have j: "arr_get bs j = Some (bs ! j)" using Suc.prems(3) by (simp add: arr_get_def)
  have g: "group_text 1 bs j @ [0x20] = [hex_asc_hi (bs ! j), hex_asc_lo (bs ! j), 0x20]"
    using Suc.prems(3) by (simp add: group_text_def hex_byte_def take_Suc_conv_app_nth)
  have run: "dump_bytes (Suc k) j bs n s = do { r \<leftarrow> put_chars n (group_text 1 bs j @ [0x20]) s;
      case r of Inl linebuf \<Rightarrow> Some (Inl linebuf) | Inr s \<Rightarrow> dump_bytes k (j + 1) bs n s }"
    by (simp add: j g del: put_chars.simps One_nat_def)
  have "appended e n lb0 ((t @ (group_text 1 bs j @ [0x20])) @
      concat (map (\<lambda>i. group_text 1 bs i @ [0x20]) [j + 1..<j + 1 + k])) (dump_bytes (Suc k) j bs n s)"
    unfolding run using Suc.prems(3)
    by (intro appended_bind [OF Suc.prems(1) put_chars_appended [OF Suc.prems(1,2)]] Suc.IH [OF Suc.prems(1)]) simp_all
  moreover have "[j..<j + Suc k] = j # [j + 1..<j + 1 + k]" by (simp add: upt_conv_Cons)
  ultimately show ?case by (simp only: list.map concat.simps append.assoc)
qed

lemma dump_ascii_appended:
  "e \<le> 1 \<Longrightarrow> line e n lb0 t s \<Longrightarrow> j + k \<le> length bs \<Longrightarrow>
   appended e n lb0 (t @ ascii_text (take k (drop j bs))) (dump_ascii k j bs n s)"
proof (induction k arbitrary: j t s)
  case 0
  then show ?case by (auto simp: appended_def ascii_text_def)
next
  case (Suc k)
  define c where "c = (if isascii (bs ! j) \<and> isprint (bs ! j) then bs ! j else 0x2e)"
  have j: "arr_get bs j = Some (bs ! j)" using Suc.prems(3) by (simp add: arr_get_def)
  have "drop j bs = bs ! j # drop (Suc j) bs" using Suc.prems(3) by (simp add: Cons_nth_drop_Suc)
  then have "ascii_text (take (Suc k) (drop j bs)) = [c] @ ascii_text (take k (drop (j + 1) bs))"
    by (simp add: ascii_text_def c_def)
  moreover have "appended e n lb0 ((t @ [c]) @ ascii_text (take k (drop (j + 1) bs))) (dump_ascii (Suc k) j bs n s)"
    unfolding dump_ascii.simps j bind.bind_lunit c_def [symmetric]
    using Suc.prems(3)
    by (intro appended_bind [OF Suc.prems(1) put_char_appended [OF Suc.prems(1,2)]] Suc.IH [OF Suc.prems(1)]) simp_all
  ultimately show ?case by simp
qed

lemma concat_separated:
  "0 < m \<Longrightarrow> concat (map (\<lambda>i. group_text g bs i @ [0x20]) [0..<m]) = concat (map (group_sep g bs) [0..<m]) @ [0x20]"
proof (induction m)
  case (Suc m)
  then show ?case by (cases m) (simp_all add: group_sep_def)
qed simp

lemma group_text_take: "i * g + g \<le> len \<Longrightarrow> group_text g (take len bs) i = group_text g bs i"
  by (simp add: group_text_def drop_take min_def)

lemma hex_text_separated:
  assumes "0 < len" "len \<le> length bs" "0 < g" "len mod g = 0"
  shows "concat (map (\<lambda>i. group_text g bs i @ [0x20]) [0..<len div g]) = hex_text g (take len bs) @ [0x20]"
    "concat (map (group_sep g bs) [0..<len div g]) = hex_text g (take len bs)"
proof -
  have "group_text g (take len bs) i = group_text g bs i" if "i < len div g" for i
  proof (rule group_text_take)
    have "Suc i * g \<le> len div g * g" using that by (intro mult_le_mono1) simp
    also have "... \<le> len" by simp
    finally show "i * g + g \<le> len" by simp
  qed
  then have h: "hex_text g (take len bs) = butlast (concat (map (\<lambda>i. group_text g bs i @ [0x20]) [0..<len div g]))"
    unfolding hex_text_def using assms(2) by (intro arg_cong [of _ _ butlast] arg_cong [of _ _ concat]) auto
  have "0 < len div g" using assms by (auto simp: div_greater_zero_iff dest: mod_less)
  from concat_separated [OF this] h
  show "concat (map (\<lambda>i. group_text g bs i @ [0x20]) [0..<len div g]) = hex_text g (take len bs) @ [0x20]"
    "concat (map (group_sep g bs) [0..<len div g]) = hex_text g (take len bs)" by simp_all
qed

lemma line_butlast: "line 0 n lb0 (t @ [c]) (lx, lb) \<Longrightarrow> line 1 n lb0 t (lx - 1, lb)"
  by (auto simp: line_def dest: arg_cong [of _ _ butlast] simp: butlast_take)

lemma dump_hex_appended:
  assumes "g \<in> {1, 2, 4, 8}" "0 < len" "len \<le> length bs" "len mod g = 0" "0 < n" "n \<le> length lb0"
  shows "appended 1 n lb0 (hex_text g (take len bs)) (dump_hex len g bs n lb0)"
proof -
  have l: "line e n lb0 [] (0, lb0)" for e using assms by (simp add: line_def)
  show ?thesis
  proof (cases "g = 1")
    case True
    have "appended 0 n lb0 (hex_text g (take len bs) @ [0x20]) (dump_bytes len 0 bs n (0, lb0))"
      using dump_bytes_appended [OF _ l, of 0 0 len bs] hex_text_separated(1) [OF assms(2,3) _ assms(4)] assms(3) True by simp
    then show ?thesis using True assms(2) line_butlast
      by (auto simp: appended_def dump_hex_def cut_def)
  next
    case False
    have "appended 1 n lb0 ([] @ concat (map (group_sep g bs) [0..<0 + len div g])) (dump_groups (len div g) 0 g bs n 0 lb0)"
      using assms(3) by (intro dump_groups_appended [OF l]) (simp add: order_trans [OF div_times_less_eq_dividend])
    then show ?thesis using False assms hex_text_separated(2) [OF assms(2,3) _ assms(4)]
      by (auto simp: dump_hex_def)
  qed
qed

lemma length_hex_text:
  assumes "0 < g" "0 < length bs" "length bs mod g = 0"
  shows "Suc (length (hex_text g bs)) = (g * 2 + 1) * (length bs div g)"
proof -
  have lg: "length (group_text g bs i) = 2 * g" if "i < length bs div g" for i
  proof -
    have "Suc i * g \<le> length bs div g * g" using that by (intro mult_le_mono1) simp
    also have "... \<le> length bs" by simp
    finally have "g \<le> length bs - i * g" by simp
    then show ?thesis by (simp add: group_text_def length_concat o_def hex_byte_def sum_list_triv)
  qed
  have "Suc (length (hex_text g bs)) = length (concat (map (\<lambda>i. group_text g bs i @ [0x20]) [0..<length bs div g]))"
    using hex_text_separated(1) [OF assms(2) order_refl assms(1,3)] by simp
  also have "... = sum_list (map (\<lambda>i. 2 * g + 1) [0..<length bs div g])"
    unfolding length_concat map_map o_def using lg by (intro arg_cong [of _ _ sum_list]) auto
  finally show ?thesis by (simp add: sum_list_triv mult.commute)
qed

subsection \<open>The whole line\<close>

definition line_text :: "nat \<Rightarrow> nat \<Rightarrow> bool \<Rightarrow> u8 list \<Rightarrow> u8 list" where
  "line_text rowsize g ascii bs = hex_text g bs @
     (if ascii then replicate (rowsize * 2 + rowsize div g + 1 - length (hex_text g bs)) 0x20 @ ascii_text bs else [])"

definition row_size :: "int \<Rightarrow> nat" where "row_size r = (if r = 32 then 32 else 16)"

definition group_size :: "int \<Rightarrow> nat \<Rightarrow> nat" where
  "group_size g len = (if g \<in> {2, 4, 8} \<and> len mod nat g = 0 then nat g else 1)"

lemma is_power_of_2_small:
  assumes "- (2 ^ 31) \<le> g" "g \<le> 8"
  shows "is_power_of_2 (word_of_int g) \<longleftrightarrow> g \<in> {1, 2, 4, 8}"
proof (cases "0 \<le> g")
  case True
  then have "g \<in> {0..8}" using assms(2) by simp
  also have "{0..8 :: int} = {0, 1, 2, 3, 4, 5, 6, 7, 8}" by (simp add: simp_from_to)
  finally show ?thesis by (auto simp: is_power_of_2_def)
next
  case False
  have "bit i 40" if "- (2 ^ 40) \<le> i" "i < 0" for i :: int
  proof -
    have "i div 2 ^ 40 = - 1" using that by (intro int_div_pos_eq [of _ _ _ "i + 2 ^ 40"]) auto
    then show ?thesis by (simp add: bit_iff_odd)
  qed
  then have "bit (word_of_int g :: u64) 40" "bit (word_of_int (g - 1) :: u64) 40"
    using False assms(1) by (simp_all only: bit_word_of_int_iff) simp_all
  then have "bit (word_of_int g AND (word_of_int g - 1) :: u64) 40" by (simp add: bit_and_iff)
  then have "word_of_int g AND (word_of_int g - 1) \<noteq> (0 :: u64)" by auto
  then show ?thesis using False by (auto simp: is_power_of_2_def)
qed

definition finish :: "nat \<times> u8 list \<Rightarrow> (int \<times> u8 list) option" where
  "finish s = (let (lx, linebuf) = s in do { linebuf \<leftarrow> arr_set linebuf lx 0; Some (int lx, linebuf) })"

lemma finish_eq: "finish = (\<lambda>(lx, linebuf). do { linebuf \<leftarrow> arr_set linebuf lx 0; Some (int lx, linebuf) })"
  by (simp add: finish_def fun_eq_iff)

definition line_buffer :: "nat \<Rightarrow> u8 list \<Rightarrow> u8 list \<Rightarrow> u8 list" where
  "line_buffer n t lb0 = (if n = 0 then lb0 else take (n - 1) t @ [0] @ drop (min n (Suc (length t))) lb0)"

lemma finish_appended:
  assumes "appended 1 n lb0 t r" "0 < n"
  shows "do { x \<leftarrow> r; case x of Inl lb \<Rightarrow> Some (int (length t), lb) | Inr s \<Rightarrow> finish s }
    = Some (int (length t), line_buffer n t lb0)"
  using assms(1) [unfolded appended_def]
proof (elim disjE exE conjE)
  fix s assume r: "r = Some (Inr s)" and l: "line 1 n lb0 t s"
  obtain lx lb where s: "s = (lx, lb)" by (cases s)
  have "lx = length t" "length t < n" using l by (auto simp: line_def s)
  moreover from this(2) have "min n (Suc (length t)) = Suc (length t)" by simp
  ultimately show ?thesis using r line_store [OF _ l [unfolded s], of 0] assms(2)
    by (simp add: finish_def s line_buffer_def)
next
  assume "n \<le> length t + 1" "r = Some (Inl (cut n lb0 t))"
  then show ?thesis using assms(2) by (simp add: line_buffer_def cut_def min_def)
qed

lemma chain_assoc:
  "do { x \<leftarrow> (do { y \<leftarrow> r; case y of Inl lb \<Rightarrow> Some (Inl lb) | Inr s \<Rightarrow> f s }); case x of Inl lb \<Rightarrow> A lb | Inr s \<Rightarrow> B s }
   = do { y \<leftarrow> r; case y of Inl lb \<Rightarrow> A lb | Inr s \<Rightarrow> do { x \<leftarrow> f s; case x of Inl lb \<Rightarrow> A lb | Inr s \<Rightarrow> B s } }"
  by (cases r) (auto split: sum.splits)

lemma hex_dump_eq:
  assumes "0 < len" "len \<le> length buf" "- (2 ^ 31) \<le> groupsize" "n \<le> length linebuf"
    "bs = take (min len (row_size rowsize)) buf" "g = group_size groupsize (length bs)"
    "t = line_text (row_size rowsize) g ascii bs"
  shows "hex_dump_to_buffer buf len rowsize groupsize linebuf n ascii = Some (int (length t), line_buffer n t linebuf)"
proof -
  define R where "R = row_size rowsize"
  define L where "L = min len R"
  define col where "col = R * 2 + R div g + 1"
  define ov where "ov = (if ascii then int (col + L) else int ((g * 2 + 1) * (L div g)) - 1)"
  have L: "L = length bs" "0 < L" "L \<le> R" "L \<le> length buf" "bs = take L buf"
    using assms(1,2,5) by (auto simp: L_def R_def row_size_def)
  have g: "g \<in> {1, 2, 4, 8}" "L mod g = 0" "0 < g" using assms(6) by (auto simp: group_size_def L(1))
  have rs: "(if rowsize \<noteq> 16 \<and> rowsize \<noteq> 32 then 16 else nat rowsize) = R"
    by (simp add: R_def row_size_def)
  have ls: "(if len > R then R else len) = L" by (simp add: L_def)
  define g0 where "g0 = (if \<not> is_power_of_2 (word_of_int groupsize) \<or> groupsize > 8 then 1 else nat groupsize)"
  have "g0 = (if groupsize \<in> {1, 2, 4, 8} then nat groupsize else 1)"
    unfolding g0_def using is_power_of_2_small [OF assms(3)] by (cases "groupsize \<le> 8") simp_all
  then have gs: "(if L mod g0 \<noteq> 0 then 1 else g0) = g"
    unfolding assms(6) group_size_def L(1) [symmetric] 
    by (cases "groupsize = 1"; cases "groupsize \<in> {2, 4, 8}") simp_all
  have lh: "Suc (length (hex_text g bs)) = (g * 2 + 1) * (L div g)"
    using length_hex_text [OF g(3), of bs] L(1,2) g(2) by simp
  have "g * (L div g) = L" using mult_div_mod_eq [of g L] g(2) by linarith
  moreover have "(g * 2 + 1) * d = 2 * (g * d) + d" for d by (simp add: algebra_simps)
  ultimately have "(g * 2 + 1) * (L div g) = 2 * L + L div g" by simp
  also have "... \<le> 2 * R + R div g" using L(3) by (intro add_mono div_le_mono) simp_all
  finally have col: "length (hex_text g bs) < col" using lh by (simp add: col_def)
  have ov: "ov = int (length t)"
    unfolding ov_def lh [symmetric]
    using col assms(7) L(1) by (auto simp: line_text_def ascii_text_def col_def R_def)
  define H where "H = dump_hex L g buf n linebuf"
  define P where "P = (\<lambda>(lx, lb). put_chars n (replicate (col - lx) 0x20) (lx, lb))"
  define A where "A = dump_ascii L 0 buf n"
  have run: "hex_dump_to_buffer buf len rowsize groupsize linebuf n ascii =
      (if n = 0 then Some (ov, linebuf) else do { x \<leftarrow> H; case x of Inl lb \<Rightarrow> Some (ov, lb)
         | Inr s \<Rightarrow> if \<not> ascii then finish s
           else do { x \<leftarrow> P s; case x of Inl lb \<Rightarrow> Some (ov, lb)
             | Inr s \<Rightarrow> do { x \<leftarrow> A s; case x of Inl lb \<Rightarrow> Some (ov, lb) | Inr s \<Rightarrow> finish s } } })"
    unfolding hex_dump_to_buffer_def rs ls g0_def [symmetric] gs Let_def
      col_def [symmetric] ov_def [symmetric] H_def [symmetric] A_def [symmetric]
      finish_eq [symmetric]
    using L(2) by (cases H) (auto simp: P_def split: sum.splits)
  show ?thesis
  proof (cases "n = 0")
    case True
    then show ?thesis unfolding run ov by (simp add: line_buffer_def)
  next
    case False
    then have n: "0 < n" by simp
    have h: "appended 1 n linebuf (hex_text g bs) H"
      unfolding H_def L(5) by (rule dump_hex_appended [OF g(1) L(2,4) g(2) n assms(4)])
    show ?thesis
    proof (cases ascii)
      case F: False
      then have "t = hex_text g bs" using assms(7) by (simp add: line_text_def)
      then show ?thesis using finish_appended [OF h n] F False unfolding run ov by simp
    next
      case True
      have p: "appended 1 n linebuf (hex_text g bs @ replicate (col - length (hex_text g bs)) 0x20) (P s)"
        if "line 1 n linebuf (hex_text g bs) s" for s
        using put_chars_appended [OF _ that] that by (cases s) (auto simp: P_def line_def)
      have a: "appended 1 n linebuf (u @ ascii_text bs) (A s)" if "line 1 n linebuf u s" for u s
        using dump_ascii_appended [OF _ that, of 0 L buf] L(4,5) by (simp add: A_def)
      have t: "t = (hex_text g bs @ replicate (col - length (hex_text g bs)) 0x20) @ ascii_text bs"
        using assms(7) True by (simp add: line_text_def col_def R_def)
      have "appended 1 n linebuf t (do { y \<leftarrow> (do { y \<leftarrow> H; case y of Inl lb \<Rightarrow> Some (Inl lb) | Inr s \<Rightarrow> P s });
          case y of Inl lb \<Rightarrow> Some (Inl lb) | Inr s \<Rightarrow> A s })"
        unfolding t by (intro appended_bind h p a) simp_all
      from finish_appended [OF this n] True False show ?thesis unfolding run ov chain_assoc by simp
    qed
  qed
qed



end
