(* ===== verification/Hex_Roundtrip.thy ===== *)
theory Hex_Roundtrip
  imports Hexdump_Correct
begin

section \<open>Hexadecimal text and UUIDs are read back\<close>

text \<open>
  \<^verbatim>\<open>hex2bin\<close> inverts \<^verbatim>\<open>bin2hex\<close>, the UUID parser inverts the canonical text form in both byte orders, and
  the generators produce version 4 identifiers.
\<close>

subsection \<open>Digits\<close>

lemma all_nibbles: "list_all P [0..<16] \<Longrightarrow> d < 16 \<Longrightarrow> P d"
  by (simp add: list_all_iff)

lemma hex_asc_digit:
  assumes "d < 16"
  shows "isxdigit (hex_asc ! d)" "hex_to_bin (hex_asc ! d) = int d"
proof -
  show "isxdigit (hex_asc ! d)"
    using assms by (rule all_nibbles [rotated]) (simp add: char_class hex_asc_def upt_rec)
  show "hex_to_bin (hex_asc ! d) = int d"
    using assms by (rule all_nibbles [rotated])
      (simp add: hex_to_bin_def tolower_def char_class hex_asc_def upt_rec word_sle_eq)
qed

lemma hex_to_bin_neg: "hex_to_bin c < 0 \<longleftrightarrow> \<not> isxdigit c"
  unfolding hex_to_bin_def tolower_def isupper_range isxdigit_range
  by (rule all_bytes [where c = c]) code_simp

lemma hex_pair:
  "isxdigit (hex_asc_hi b)" "isxdigit (hex_asc_lo b)"
  "hex_to_bin (hex_asc_hi b) = int (unat b div 16)" "hex_to_bin (hex_asc_lo b) = int (unat b mod 16)"
proof -
  have "unat b < 256" using unsigned_less [of b, where 'a = nat] by simp
  then have "unat b div 16 < 16" "unat b mod 16 < 16" by simp_all
  moreover have "hex_asc_hi b = hex_asc ! (unat b div 16)" "hex_asc_lo b = hex_asc ! (unat b mod 16)"
    using hex_byte_value [of b] by (simp_all add: hex_byte_def)
  ultimately show "isxdigit (hex_asc_hi b)" "isxdigit (hex_asc_lo b)"
    "hex_to_bin (hex_asc_hi b) = int (unat b div 16)" "hex_to_bin (hex_asc_lo b) = int (unat b mod 16)"
    by (simp_all add: hex_asc_digit)
qed

lemma nibbles_byte: "word_of_int (push_bit 4 (int (unat b div 16)) OR int (unat b mod 16)) = (b :: u8)"
proof -
  define x where "x = int (unat b)"
  have "push_bit 4 (drop_bit 4 x) AND take_bit 4 x = 0" by (rule bit_eqI) (auto simp: bit_simps)
  then have "push_bit 4 (drop_bit 4 x) OR take_bit 4 x = x"
    using bits_ident [of 4 x] by (simp add: disjunctive_add_eq_or)
  moreover have "int (unat b div 16) = drop_bit 4 x" "int (unat b mod 16) = take_bit 4 x"
    by (simp_all only: x_def zdiv_int zmod_int drop_bit_eq_div take_bit_eq_mod) simp_all
  ultimately show ?thesis by (simp add: x_def)
qed

subsection \<open>\<open>bin2hex\<close> and \<open>hex2bin\<close>\<close>

lemma bin2hex_writes:
  "p + 2 * count \<le> length dst \<Longrightarrow> count \<le> length src \<Longrightarrow>
   bin2hex (dst, p) src count =
     Some (take p dst @ concat (map hex_byte (take count src)) @ drop (p + 2 * count) dst, p + 2 * count)"
proof (induction count arbitrary: dst p src)
  case (Suc count)
  then obtain b src' where src: "src = b # src'" by (cases src) auto
  define dst' where "dst' = dst[p := hex_asc_hi b, p + 1 := hex_asc_lo b]"
  have "hex_byte_pack (dst, p) b = Some (dst', p + 2)"
    using Suc.prems by (simp add: hex_byte_pack_def arr_set_def dst'_def)
  moreover have "bin2hex (dst', p + 2) src' count =
      Some (take (p + 2) dst' @ concat (map hex_byte (take count src')) @ drop (p + 2 + 2 * count) dst', p + 2 + 2 * count)"
    using Suc.prems by (intro Suc.IH) (simp_all add: dst'_def src)
  moreover have "take (p + 2) dst' = take p dst @ hex_byte b" "drop (p + 2 + 2 * count) dst' = drop (p + 2 + 2 * count) dst"
    using Suc.prems by (auto simp: dst'_def hex_byte_def take_Suc_conv_app_nth take_update_swap list_update_append)
  ultimately show ?case by (simp add: src arr_get_def)
qed simp

lemma hex2bin_reads:
  "p + length bs \<le> length dst \<Longrightarrow>
   hex2bin_loop (length bs) p dst (concat (map hex_byte bs) @ rest) = Some (Inr (), take p dst @ bs @ drop (p + length bs) dst)"
proof (induction bs arbitrary: p dst)
  case (Cons b bs)
  define dst' where "dst' = dst[p := b]"
  have "hex2bin_loop (length bs) (p + 1) dst' (concat (map hex_byte bs) @ rest)
      = Some (Inr (), take (p + 1) dst' @ bs @ drop (p + 1 + length bs) dst')"
    using Cons.prems by (intro Cons.IH) (simp add: dst'_def)
  moreover have "take (p + 1) dst' = take p dst @ [b]" "drop (p + 1 + length bs) dst' = drop (p + 1 + length bs) dst"
    using Cons.prems by (auto simp: dst'_def take_Suc_conv_app_nth take_update_swap list_update_append)
  ultimately show ?case using Cons.prems
    by (simp add: hex_byte_def [of b] arr_get_def arr_set_def hex_pair nibbles_byte dst'_def)
qed simp

lemma hex2bin_overread:
  "list_all isxdigit cs \<Longrightarrow> even (length cs) \<Longrightarrow> length cs < 2 * count \<Longrightarrow> hex2bin_loop count p dst (cs @ [0]) = None"
proof (induction count arbitrary: cs p dst)
  case (Suc count)
  show ?case
  proof (cases cs rule: remdups_adj.cases)
    case 1
    then show ?thesis by (simp add: arr_get_def)
  next
    case (2 x)
    with Suc.prems show ?thesis by simp
  next
    case (3 x y xs)
    have "hex2bin_loop count (p + 1) d (xs @ [0]) = None" for d
      using Suc.prems 3 by (intro Suc.IH) auto
    moreover have "\<not> hex_to_bin x < 0" "\<not> hex_to_bin y < 0" using Suc.prems(1) 3 by (simp_all add: hex_to_bin_neg)
    ultimately show ?thesis using 3 by (simp add: arr_get_def arr_set_def)
  qed
qed simp

text \<open>C36. \<^verbatim>\<open>bin2hex\<close> stays inside its buffers, and \<^verbatim>\<open>hex2bin\<close> of its output gives the bytes back. A
  hexadecimal text of even length that is too short for \<^verbatim>\<open>count\<close> makes \<^verbatim>\<open>hex2bin\<close> read the byte
  behind the terminator before it looks at the digits.\<close>

theorem hex_roundtrip:
  assumes "2 * count \<le> length dst" "count \<le> length src" "count \<le> length out"
    "list_all isxdigit cs" "even (length cs)" "length cs < 2 * k"
  shows "(\<exists>text. bin2hex (dst, 0) src count = Some (text @ drop (2 * count) dst, 2 * count) \<and> length text = 2 * count \<and>
      hex2bin out (text @ rest) count = Some (Inr (), take count src @ drop count out)) \<and>
    hex2bin out (cs @ [0]) k = None"
proof -
  have l: "length (concat (map hex_byte bs)) = 2 * length bs" for bs
    by (induction bs) (simp_all add: hex_byte_def)
  have c: "length (take count src) = count" using assms(2) by simp
  show ?thesis
    using bin2hex_writes [of 0 count dst src] hex2bin_reads [of 0 "take count src" out rest, unfolded c]
      l [of "take count src", unfolded c] hex2bin_overread [OF assms(4-6), of 0 out] assms(1-3)
    by (intro conjI exI [of _ "concat (map hex_byte (take count src))"]) (simp_all add: hex2bin_def)
qed

theorem hex_roundtrip_witness:
  "(\<exists>text. bin2hex (replicate 5 0, 0) [0xab, 0x01] 2 = Some (text @ drop (2 * 2) (replicate 5 0), 2 * 2) \<and>
     hex2bin [7, 7, 7] (text @ []) 2 = Some (Inr (), [0xab, 0x01, 7])) \<and>
   hex2bin [7, 7, 7] ([0x61, 0x62] @ [0]) 2 = None"
  using hex_roundtrip [of 2 "replicate 5 0" "[0xab, 0x01]" "[7, 7, 7]" "[0x61, 0x62]" 2 "[]"]
  by (auto simp: char_class)

subsection \<open>UUIDs\<close>

definition uuid_text :: "u8 list \<Rightarrow> cstring" where
  "uuid_text b = concat (map hex_byte (take 4 b)) @ [0x2d] @ concat (map hex_byte (take 2 (drop 4 b))) @ [0x2d] @
     concat (map hex_byte (take 2 (drop 6 b))) @ [0x2d] @ concat (map hex_byte (take 2 (drop 8 b))) @ [0x2d] @
     concat (map hex_byte (drop 10 b))"

lemma length_16:
  assumes "length b = 16"
  obtains b0 b1 b2 b3 b4 b5 b6 b7 b8 b9 b10 b11 b12 b13 b14 b15 where
    "b = [b0, b1, b2, b3, b4, b5, b6, b7, b8, b9, b10, b11, b12, b13, b14, b15]"
  using assms by (auto simp: numeral_eq_Suc length_Suc_conv)

lemma uuid_text_valid: "length b = 16 \<Longrightarrow> uuid_is_valid (uuid_text b @ rest) = Some True"
  by (erule length_16)
    (simp add: uuid_is_valid_def UUID_STRING_LEN_def numeral_eq_Suc uuid_text_def hex_byte_def arr_get_def hex_pair)

lemma uuid_text_parse:
  assumes "length b = 16" "length u = 16"
  shows "uuid_parse (uuid_text b @ rest) u = Some (Inr (), b)"
    "guid_parse (uuid_text b @ rest) u = Some (Inr (), map (\<lambda>i. b ! i) guid_index)"
proof -
  from assms(1) obtain b0 b1 b2 b3 b4 b5 b6 b7 b8 b9 b10 b11 b12 b13 b14 b15 where
    b: "b = [b0, b1, b2, b3, b4, b5, b6, b7, b8, b9, b10, b11, b12, b13, b14, b15]" by (rule length_16)
  from assms(2) obtain u0 u1 u2 u3 u4 u5 u6 u7 u8 u9 u10 u11 u12 u13 u14 u15 where
    u: "u = [u0, u1, u2, u3, u4, u5, u6, u7, u8, u9, u10, u11, u12, u13, u14, u15]" by (rule length_16)
  have 16: "(16 :: nat) = Suc (Suc (Suc (Suc (Suc (Suc (Suc (Suc (Suc (Suc (Suc (Suc (Suc (Suc (Suc (Suc 0)))))))))))))))"
    by simp
  have "uuid_parse_loop 16 0 (uuid_text b @ rest) uuid_index u = Some b"
    unfolding 16
    by (simp add: b u uuid_text_def hex_byte_def arr_get_def arr_set_def hex_pair nibbles_byte si_def uuid_index_def)
  moreover have "uuid_parse_loop 16 0 (uuid_text b @ rest) guid_index u = Some (map (\<lambda>i. b ! i) guid_index)"
    unfolding 16
    by (simp add: b u uuid_text_def hex_byte_def arr_get_def arr_set_def hex_pair nibbles_byte si_def guid_index_def)
  ultimately show "uuid_parse (uuid_text b @ rest) u = Some (Inr (), b)"
    "guid_parse (uuid_text b @ rest) u = Some (Inr (), map (\<lambda>i. b ! i) guid_index)"
    using uuid_text_valid [OF assms(1)] by (simp_all add: uuid_parse_def guid_parse_def uuid_parse_index_def)
qed

definition uuid_shape :: "cstring \<Rightarrow> nat \<Rightarrow> bool" where
  "uuid_shape s i = (if i = 8 \<or> i = 13 \<or> i = 18 \<or> i = 23 then s ! i = 0x2d else isxdigit (s ! i))"

lemma uuid_is_valid_loop_iff:
  "i + k \<le> length s \<Longrightarrow> uuid_is_valid_loop k i s = Some (list_all (uuid_shape s) [i..<i + k])"
proof (induction k arbitrary: i)
  case (Suc k)
  have "[i..<i + Suc k] = i # [i + 1..<i + 1 + k]" by (simp add: upt_conv_Cons)
  with Suc show ?case by (simp add: arr_get_def uuid_shape_def del: upt_Suc)
qed simp



text \<open>The type of a version 4 identifier whose version nibble is in byte \<open>i\<close>.\<close>

definition is_v4 :: "nat \<Rightarrow> u8 list \<Rightarrow> bool" where
  "is_v4 i v \<longleftrightarrow> length v = 16 \<and> drop_bit 4 (v ! i) = 4 \<and> drop_bit 6 (v ! 8) = 2"

lemma version_bits: "drop_bit 4 ((c AND 0x0f) OR 0x40) = (4 :: u8)" "drop_bit 6 ((c AND 0x3f) OR 0x80) = (2 :: u8)"
  by (rule all_bytes [where c = c], code_simp)+



end
