(* ===== verification/Cpumask.thy ===== *)
theory Cpumask
  imports Bitmap_Props
begin

section \<open>CPU masks (lib/cpumask.c, include/linux/cpumask.h, kernel/cpu.c)\<close>

text \<open>
  A \<^verbatim>\<open>struct cpumask\<close> is a bitmap of \<^verbatim>\<open>NR_CPUS\<close> bits, and its operations are the bitmap operations
  of that size. As there, the argument \<open>const\<close> says whether the compiler takes the path for small
  constant sizes. A CPU number that the source holds in an \<^verbatim>\<open>int\<close> and compares as signed is an \<open>int\<close>; the
  search functions convert \<^verbatim>\<open>n + 1\<close> to an unsigned long. The loop macros return the list of CPUs they
  visit. Debug checks of the CPU number are not compiled in.
\<close>

type_synonym cpumask = bitmap

subsection \<open>Masks\<close>

definition NR_CPUS :: nat where "NR_CPUS = 4"

definition nr_cpu_ids :: nat where "nr_cpu_ids = NR_CPUS"

definition nr_cpumask_bits :: nat where "nr_cpumask_bits = NR_CPUS"

definition search_from :: "int \<Rightarrow> nat" where "search_from n = unat (word_of_int (n + 1) :: u64)"

definition cpumask_first :: "cpumask \<Rightarrow> nat option" where
  "cpumask_first srcp = find_first_bit srcp nr_cpumask_bits"

definition cpumask_last :: "cpumask \<Rightarrow> nat option" where
  "cpumask_last srcp = find_last_bit srcp nr_cpumask_bits"

definition cpumask_next :: "bool \<Rightarrow> int \<Rightarrow> cpumask \<Rightarrow> nat option" where
  "cpumask_next const n srcp = find_next_bit const srcp nr_cpumask_bits (search_from n)"

definition cpumask_next_zero :: "bool \<Rightarrow> int \<Rightarrow> cpumask \<Rightarrow> nat option" where
  "cpumask_next_zero const n srcp = find_next_zero_bit const srcp nr_cpumask_bits (search_from n)"

definition cpumask_next_and :: "bool \<Rightarrow> int \<Rightarrow> cpumask \<Rightarrow> cpumask \<Rightarrow> nat option" where
  "cpumask_next_and const n src1p src2p = find_next_and_bit const src1p src2p nr_cpumask_bits (search_from n)"

definition cpumask_any :: "cpumask \<Rightarrow> nat option" where "cpumask_any srcp = cpumask_first srcp"

definition cpumask_first_and :: "bool \<Rightarrow> cpumask \<Rightarrow> cpumask \<Rightarrow> nat option" where
  "cpumask_first_and const src1p src2p = cpumask_next_and const (- 1) src1p src2p"

definition cpumask_any_and :: "bool \<Rightarrow> cpumask \<Rightarrow> cpumask \<Rightarrow> nat option" where
  "cpumask_any_and const msk1 msk2 = cpumask_first_and const msk1 msk2"

definition cpumask_set_cpu :: "nat \<Rightarrow> cpumask \<Rightarrow> cpumask option" where
  "cpumask_set_cpu cpu dstp = set_bit_atomic cpu dstp"

definition cpumask_set_cpu_nonatomic :: "nat \<Rightarrow> cpumask \<Rightarrow> cpumask option" where
  "cpumask_set_cpu_nonatomic cpu dstp = set_bit_nonatomic cpu dstp"

definition cpumask_clear_cpu :: "nat \<Rightarrow> cpumask \<Rightarrow> cpumask option" where
  "cpumask_clear_cpu cpu dstp = clear_bit_atomic cpu dstp"

definition cpumask_clear_cpu_nonatomic :: "nat \<Rightarrow> cpumask \<Rightarrow> cpumask option" where
  "cpumask_clear_cpu_nonatomic cpu dstp = clear_bit_nonatomic cpu dstp"

definition cpumask_test_cpu :: "nat \<Rightarrow> cpumask \<Rightarrow> bool option" where
  "cpumask_test_cpu cpu m = test_bit cpu m"

definition cpumask_test_and_set_cpu :: "nat \<Rightarrow> cpumask \<Rightarrow> (bool \<times> cpumask) option" where
  "cpumask_test_and_set_cpu cpu m = test_and_set_bit cpu m"

definition cpumask_test_and_clear_cpu :: "nat \<Rightarrow> cpumask \<Rightarrow> (bool \<times> cpumask) option" where
  "cpumask_test_and_clear_cpu cpu m = test_and_clear_bit cpu m"

definition cpumask_setall :: "bool \<Rightarrow> cpumask \<Rightarrow> cpumask option" where
  "cpumask_setall const dstp = bitmap_fill const dstp nr_cpumask_bits"

definition cpumask_clear :: "bool \<Rightarrow> cpumask \<Rightarrow> cpumask option" where
  "cpumask_clear const dstp = bitmap_zero const dstp nr_cpumask_bits"

definition cpumask_and :: "bool \<Rightarrow> cpumask \<Rightarrow> cpumask \<Rightarrow> cpumask \<Rightarrow> (bool \<times> cpumask) option" where
  "cpumask_and const dstp src1p src2p = bitmap_and const dstp src1p src2p nr_cpumask_bits"

definition cpumask_or :: "bool \<Rightarrow> cpumask \<Rightarrow> cpumask \<Rightarrow> cpumask \<Rightarrow> cpumask option" where
  "cpumask_or const dstp src1p src2p = bitmap_or const dstp src1p src2p nr_cpumask_bits"

definition cpumask_andnot :: "bool \<Rightarrow> cpumask \<Rightarrow> cpumask \<Rightarrow> cpumask \<Rightarrow> (bool \<times> cpumask) option" where
  "cpumask_andnot const dstp src1p src2p = bitmap_andnot const dstp src1p src2p nr_cpumask_bits"

definition cpumask_equal :: "bool \<Rightarrow> cpumask \<Rightarrow> cpumask \<Rightarrow> bool option" where
  "cpumask_equal const src1p src2p = bitmap_equal const src1p src2p nr_cpumask_bits"

definition cpumask_intersects :: "bool \<Rightarrow> cpumask \<Rightarrow> cpumask \<Rightarrow> bool option" where
  "cpumask_intersects const src1p src2p = bitmap_intersects const src1p src2p nr_cpumask_bits"

definition cpumask_subset :: "bool \<Rightarrow> cpumask \<Rightarrow> cpumask \<Rightarrow> bool option" where
  "cpumask_subset const src1p src2p = bitmap_subset const src1p src2p nr_cpumask_bits"

definition cpumask_empty :: "bool \<Rightarrow> cpumask \<Rightarrow> bool option" where
  "cpumask_empty const srcp = bitmap_empty const srcp nr_cpumask_bits"

definition cpumask_full :: "bool \<Rightarrow> cpumask \<Rightarrow> bool option" where
  "cpumask_full const srcp = bitmap_full const srcp nr_cpumask_bits"

definition cpumask_weight :: "bool \<Rightarrow> cpumask \<Rightarrow> nat option" where
  "cpumask_weight const srcp = bitmap_weight const srcp nr_cpumask_bits"

definition cpumask_copy :: "cpumask \<Rightarrow> cpumask \<Rightarrow> cpumask option" where
  "cpumask_copy dstp srcp = bitmap_copy dstp srcp nr_cpumask_bits"

definition cpumask_size :: nat where "cpumask_size = BITS_TO_LONGS nr_cpumask_bits * 8"

subsection \<open>Iteration\<close>

definition for_each_cpu :: "bool \<Rightarrow> cpumask \<Rightarrow> nat list option" where
  "for_each_cpu const msk = for_each_bit (nr_cpu_ids + 1) (\<lambda>i. cpumask_next const (int i - 1) msk) nr_cpu_ids 0"

definition for_each_cpu_not :: "bool \<Rightarrow> cpumask \<Rightarrow> nat list option" where
  "for_each_cpu_not const msk = for_each_bit (nr_cpu_ids + 1) (\<lambda>i. cpumask_next_zero const (int i - 1) msk) nr_cpu_ids 0"

definition for_each_cpu_and :: "bool \<Rightarrow> cpumask \<Rightarrow> cpumask \<Rightarrow> nat list option" where
  "for_each_cpu_and const msk1 msk2 =
     for_each_bit (nr_cpu_ids + 1) (\<lambda>i. cpumask_next_and const (int i - 1) msk1 msk2) nr_cpu_ids 0"

text \<open>The jump back to \<^verbatim>\<open>again\<close> is bounded by fuel.\<close>

primrec cpumask_next_wrap_loop :: "nat \<Rightarrow> bool \<Rightarrow> int \<Rightarrow> cpumask \<Rightarrow> int \<Rightarrow> bool \<Rightarrow> nat option" where
  "cpumask_next_wrap_loop 0 const n msk start wrap = None" |
  "cpumask_next_wrap_loop (Suc fuel) const n msk start wrap = do {
     next \<leftarrow> cpumask_next const n msk;
     if wrap \<and> n < start \<and> int next \<ge> start then Some nr_cpumask_bits
     else if next \<ge> nr_cpumask_bits then cpumask_next_wrap_loop fuel const (- 1) msk start True
     else Some next
   }"

definition cpumask_next_wrap :: "bool \<Rightarrow> int \<Rightarrow> cpumask \<Rightarrow> int \<Rightarrow> bool \<Rightarrow> nat option" where
  "cpumask_next_wrap const n msk start wrap = cpumask_next_wrap_loop 2 const n msk start wrap"

primrec for_each_cpu_wrap_loop :: "nat \<Rightarrow> bool \<Rightarrow> nat \<Rightarrow> cpumask \<Rightarrow> int \<Rightarrow> nat list option" where
  "for_each_cpu_wrap_loop 0 const cpu msk start = None" |
  "for_each_cpu_wrap_loop (Suc fuel) const cpu msk start =
     (if cpu < nr_cpumask_bits then do {
        next \<leftarrow> cpumask_next_wrap const (int cpu) msk start True;
        cpus \<leftarrow> for_each_cpu_wrap_loop fuel const next msk start;
        Some (cpu # cpus)
      } else Some [])"

definition for_each_cpu_wrap :: "bool \<Rightarrow> cpumask \<Rightarrow> int \<Rightarrow> nat list option" where
  "for_each_cpu_wrap const msk start = do {
     cpu \<leftarrow> cpumask_next_wrap const (start - 1) msk start False;
     for_each_cpu_wrap_loop (nr_cpumask_bits + 1) const cpu msk start
   }"

text \<open>The loop of \<^verbatim>\<open>cpumask_any_but\<close> leaves at the first CPU that is not \<open>cpu\<close>, or behind the last.\<close>

primrec cpumask_any_but_loop :: "nat \<Rightarrow> bool \<Rightarrow> int \<Rightarrow> cpumask \<Rightarrow> nat \<Rightarrow> nat option" where
  "cpumask_any_but_loop 0 const i msk cpu = None" |
  "cpumask_any_but_loop (Suc fuel) const i msk cpu = do {
     i \<leftarrow> cpumask_next const i msk;
     if i < nr_cpu_ids \<and> i = cpu then cpumask_any_but_loop fuel const (int i) msk cpu else Some i
   }"

definition cpumask_any_but :: "bool \<Rightarrow> cpumask \<Rightarrow> nat \<Rightarrow> nat option" where
  "cpumask_any_but const msk cpu = cpumask_any_but_loop (nr_cpu_ids + 1) const (- 1) msk cpu"

subsection \<open>The system masks\<close>

record cpu_masks =
  cpu_possible_mask :: cpumask
  cpu_online_mask :: cpumask
  cpu_present_mask :: cpumask
  cpu_active_mask :: cpumask
  cpus_booted_once_mask :: cpumask
  num_online_cpus :: u32
  boot_cpu_id :: nat

definition CPU_BITS_ALL :: cpumask where
  "CPU_BITS_ALL = (replicate (BITS_TO_LONGS NR_CPUS) 0)[BITS_TO_LONGS NR_CPUS - 1 := BITMAP_LAST_WORD_MASK NR_CPUS]"

definition CPU_BITS_NONE :: cpumask where "CPU_BITS_NONE = replicate (BITS_TO_LONGS NR_CPUS) 0"

text \<open>The static initialisation: all CPUs possible (\<^verbatim>\<open>CONFIG_INIT_ALL_POSSIBLE\<close>), everything else zero.\<close>

definition static_cpu_masks :: cpu_masks where
  "static_cpu_masks = \<lparr>cpu_possible_mask = CPU_BITS_ALL, cpu_online_mask = CPU_BITS_NONE, cpu_present_mask = CPU_BITS_NONE,
     cpu_active_mask = CPU_BITS_NONE, cpus_booted_once_mask = CPU_BITS_NONE, num_online_cpus = 0, boot_cpu_id = 0\<rparr>"

definition num_possible_cpus :: "bool \<Rightarrow> cpu_masks \<Rightarrow> nat option" where
  "num_possible_cpus const s = cpumask_weight const (cpu_possible_mask s)"

definition num_present_cpus :: "bool \<Rightarrow> cpu_masks \<Rightarrow> nat option" where
  "num_present_cpus const s = cpumask_weight const (cpu_present_mask s)"

definition num_active_cpus :: "bool \<Rightarrow> cpu_masks \<Rightarrow> nat option" where
  "num_active_cpus const s = cpumask_weight const (cpu_active_mask s)"

definition cpu_online :: "nat \<Rightarrow> cpu_masks \<Rightarrow> bool option" where
  "cpu_online cpu s = cpumask_test_cpu cpu (cpu_online_mask s)"

definition cpu_possible :: "nat \<Rightarrow> cpu_masks \<Rightarrow> bool option" where
  "cpu_possible cpu s = cpumask_test_cpu cpu (cpu_possible_mask s)"

definition cpu_present :: "nat \<Rightarrow> cpu_masks \<Rightarrow> bool option" where
  "cpu_present cpu s = cpumask_test_cpu cpu (cpu_present_mask s)"

definition cpu_active :: "nat \<Rightarrow> cpu_masks \<Rightarrow> bool option" where
  "cpu_active cpu s = cpumask_test_cpu cpu (cpu_active_mask s)"

definition reset_cpu_possible_mask :: "bool \<Rightarrow> cpu_masks \<Rightarrow> cpu_masks option" where
  "reset_cpu_possible_mask const s = do {
     m \<leftarrow> bitmap_zero const (cpu_possible_mask s) NR_CPUS; Some (s\<lparr>cpu_possible_mask := m\<rparr>) }"

definition set_cpu_possible :: "nat \<Rightarrow> bool \<Rightarrow> cpu_masks \<Rightarrow> cpu_masks option" where
  "set_cpu_possible cpu possible s = do {
     m \<leftarrow> (if possible then cpumask_set_cpu cpu (cpu_possible_mask s) else cpumask_clear_cpu cpu (cpu_possible_mask s));
     Some (s\<lparr>cpu_possible_mask := m\<rparr>) }"

definition set_cpu_present :: "nat \<Rightarrow> bool \<Rightarrow> cpu_masks \<Rightarrow> cpu_masks option" where
  "set_cpu_present cpu present s = do {
     m \<leftarrow> (if present then cpumask_set_cpu cpu (cpu_present_mask s) else cpumask_clear_cpu cpu (cpu_present_mask s));
     Some (s\<lparr>cpu_present_mask := m\<rparr>) }"

definition set_cpu_active :: "nat \<Rightarrow> bool \<Rightarrow> cpu_masks \<Rightarrow> cpu_masks option" where
  "set_cpu_active cpu active s = do {
     m \<leftarrow> (if active then cpumask_set_cpu cpu (cpu_active_mask s) else cpumask_clear_cpu cpu (cpu_active_mask s));
     Some (s\<lparr>cpu_active_mask := m\<rparr>) }"

definition init_cpu_present :: "cpumask \<Rightarrow> cpu_masks \<Rightarrow> cpu_masks option" where
  "init_cpu_present src s = do { m \<leftarrow> cpumask_copy (cpu_present_mask s) src; Some (s\<lparr>cpu_present_mask := m\<rparr>) }"

definition init_cpu_possible :: "cpumask \<Rightarrow> cpu_masks \<Rightarrow> cpu_masks option" where
  "init_cpu_possible src s = do { m \<leftarrow> cpumask_copy (cpu_possible_mask s) src; Some (s\<lparr>cpu_possible_mask := m\<rparr>) }"

definition init_cpu_online :: "cpumask \<Rightarrow> cpu_masks \<Rightarrow> cpu_masks option" where
  "init_cpu_online src s = do { m \<leftarrow> cpumask_copy (cpu_online_mask s) src; Some (s\<lparr>cpu_online_mask := m\<rparr>) }"

definition set_cpu_online :: "nat \<Rightarrow> bool \<Rightarrow> cpu_masks \<Rightarrow> cpu_masks option" where
  "set_cpu_online cpu online s =
     (if online then do {
        (old, m) \<leftarrow> cpumask_test_and_set_cpu cpu (cpu_online_mask s);
        Some (s\<lparr>cpu_online_mask := m, num_online_cpus := (if \<not> old then num_online_cpus s + 1 else num_online_cpus s)\<rparr>) }
      else do {
        (old, m) \<leftarrow> cpumask_test_and_clear_cpu cpu (cpu_online_mask s);
        Some (s\<lparr>cpu_online_mask := m, num_online_cpus := (if old then num_online_cpus s - 1 else num_online_cpus s)\<rparr>) })"

definition boot_cpu_init :: "nat \<Rightarrow> cpu_masks \<Rightarrow> cpu_masks option" where
  "boot_cpu_init cpu s = do {
     s \<leftarrow> set_cpu_online cpu True s;
     s \<leftarrow> set_cpu_active cpu True s;
     s \<leftarrow> set_cpu_present cpu True s;
     s \<leftarrow> set_cpu_possible cpu True s;
     Some (s\<lparr>boot_cpu_id := cpu\<rparr>)
   }"

definition boot_cpu_hotplug_init :: "nat \<Rightarrow> cpu_masks \<Rightarrow> cpu_masks option" where
  "boot_cpu_hotplug_init cpu s = do {
     m \<leftarrow> cpumask_set_cpu cpu (cpus_booted_once_mask s); Some (s\<lparr>cpus_booted_once_mask := m\<rparr>) }"

text \<open>The table of single-bit masks, row by row, and the mask that starts inside it.\<close>

definition cpu_bit_bitmap :: "u64 list" where
  "cpu_bit_bitmap = replicate (BITS_TO_LONGS NR_CPUS) 0 @
     concat (map (\<lambda>x. push_bit x 1 # replicate (BITS_TO_LONGS NR_CPUS - 1) 0) [0..<64])"

definition get_cpu_mask :: "nat \<Rightarrow> cpumask" where
  "get_cpu_mask cpu = take (BITS_TO_LONGS NR_CPUS)
     (drop ((1 + cpu mod BITS_PER_LONG) * BITS_TO_LONGS NR_CPUS - cpu div BITS_PER_LONG) cpu_bit_bitmap)"

text \<open>
  \<open>spread_pick skip i cpus\<close> runs a loop \<^verbatim>\<open>if (i-- == 0) return cpu\<close> over the visited CPUs, without
  those that satisfy \<open>skip\<close>: the CPU returned, or the remaining count. The masks of the nodes are
  the argument \<open>node_map\<close>.
\<close>

primrec spread_pick :: "(nat \<Rightarrow> bool option) \<Rightarrow> nat \<Rightarrow> nat list \<Rightarrow> (nat + nat) option" where
  "spread_pick skip i [] = Some (Inr i)" |
  "spread_pick skip i (cpu # cpus) = do {
     s \<leftarrow> skip cpu;
     if s then spread_pick skip i cpus
     else if i = 0 then Some (Inl cpu) else spread_pick skip (i - 1) cpus
   }"

definition cpumask_local_spread :: "bool \<Rightarrow> cpu_masks \<Rightarrow> cpumask list \<Rightarrow> nat \<Rightarrow> int \<Rightarrow> nat option" where
  "cpumask_local_spread const s node_map i node = do {
     bug_on (num_online_cpus s = 0);
     let i = i mod unat (num_online_cpus s);
     online \<leftarrow> for_each_cpu const (cpu_online_mask s);
     if node = NUMA_NO_NODE then do {
       r \<leftarrow> spread_pick (\<lambda>cpu. Some False) i online;
       case r of Inl cpu \<Rightarrow> Some cpu | Inr i \<Rightarrow> None
     } else do {
       bug_on (node < 0);
       of_node \<leftarrow> arr_get node_map (nat node);
       local \<leftarrow> for_each_cpu_and const of_node (cpu_online_mask s);
       r \<leftarrow> spread_pick (\<lambda>cpu. Some False) i local;
       case r of Inl cpu \<Rightarrow> Some cpu
       | Inr i \<Rightarrow> do {
           r \<leftarrow> spread_pick (\<lambda>cpu. cpumask_test_cpu cpu of_node) i online;
           case r of Inl cpu \<Rightarrow> Some cpu | Inr i \<Rightarrow> None
         }
     }
   }"

end
