(* ===== verification/Cpumask_Correct.thy ===== *)
theory Cpumask_Correct
  imports Cpumask
begin

section \<open>CPU masks are sets of CPUs\<close>

text \<open>
  Every mask operation is the set operation on the CPUs below \<^verbatim>\<open>NR_CPUS\<close>, by the bitmap lemmas. On top
  of them: the loop macros, the cyclic iteration of \<^verbatim>\<open>for_each_cpu_wrap\<close>, the choice of a CPU other than
  a given one, the count of online CPUs, and the NUMA-aware numbering of the online CPUs.
\<close>

definition cpus :: "cpumask \<Rightarrow> nat set" where "cpus m = bitset NR_CPUS m"

definition mask_ok :: "cpumask \<Rightarrow> bool" where "mask_ok m \<longleftrightarrow> fits_bits NR_CPUS m"

lemma nr_pos: "0 < NR_CPUS" by (simp add: NR_CPUS_def)

lemma cpus_lt: "c \<in> cpus m \<Longrightarrow> c < NR_CPUS"
  unfolding cpus_def by (rule bitset_bound)

lemma finite_cpus [simp]: "finite (cpus m)"
  by (simp add: cpus_def finite_bitset)

lemma search_from_nat: "i \<le> NR_CPUS \<Longrightarrow> search_from (int i - 1) = i" "c < NR_CPUS \<Longrightarrow> search_from (int c) = Suc c"
  "search_from (- 1) = 0"
  by (simp_all add: search_from_def NR_CPUS_def unat_of_nat) (simp add: unat_word_ariths unat_of_nat)

lemma mask_next:
  assumes "mask_ok m" "i \<le> NR_CPUS"
  shows "cpumask_next const (int i - 1) m = Some (next_in (cpus m) NR_CPUS i)"
  using assms find_next_bit_ok [of NR_CPUS m]
  by (simp add: cpumask_next_def search_from_nat mask_ok_def cpus_def nr_cpumask_bits_def)

lemma next_cpu_cases:
  fixes m lo
  obtains (none) "next_in (cpus m) NR_CPUS lo = NR_CPUS" "{j \<in> cpus m. lo \<le> j} = {}"
  | (some) "next_in (cpus m) NR_CPUS lo \<in> cpus m" "lo \<le> next_in (cpus m) NR_CPUS lo"
      "{j \<in> cpus m. lo \<le> j} = {j \<in> cpus m. next_in (cpus m) NR_CPUS lo \<le> j}"
  by (rule next_in_cases [OF finite_cpus [of m], of NR_CPUS lo])
    (fastforce intro: that, fastforce intro: that order_trans)

subsection \<open>Loops over masks\<close>

lemma for_each_bit_cong:
  "(\<And>i. i \<le> b \<Longrightarrow> f i = g i) \<Longrightarrow> i \<le> b \<Longrightarrow> for_each_bit fuel f b i = for_each_bit fuel g b i"
proof (induction fuel arbitrary: i)
  case (Suc fuel)
  have "f i = g i" using Suc.prems by blast
  moreover have "for_each_bit fuel f b (j + 1) = for_each_bit fuel g b (j + 1)" if "j < b" for j
    using that Suc.prems(1) by (intro Suc.IH) auto
  ultimately show ?case by (cases "g i") auto
qed simp

lemma for_each_cpu_ok: "mask_ok m \<Longrightarrow> for_each_cpu const m = Some (sorted_list_of_set (cpus m))"
proof -
  assume m: "mask_ok m"
  have "for_each_cpu const m = for_each_bit (NR_CPUS + 1) (find_next_bit const m NR_CPUS) NR_CPUS 0"
    unfolding for_each_cpu_def nr_cpu_ids_def
    by (rule for_each_bit_cong) (simp_all add: cpumask_next_def search_from_nat nr_cpumask_bits_def)
  then show ?thesis using set_bits.visits_all [of "(NR_CPUS, m)" const] m by (simp add: mask_ok_def cpus_def)
qed

lemma for_each_cpu_not_ok: "mask_ok m \<Longrightarrow> for_each_cpu_not const m = Some (sorted_list_of_set ({..<NR_CPUS} - cpus m))"
proof -
  assume m: "mask_ok m"
  have "for_each_cpu_not const m = for_each_bit (NR_CPUS + 1) (find_next_zero_bit const m NR_CPUS) NR_CPUS 0"
    unfolding for_each_cpu_not_def nr_cpu_ids_def
    by (rule for_each_bit_cong) (simp_all add: cpumask_next_zero_def search_from_nat nr_cpumask_bits_def)
  then show ?thesis using clear_bits.visits_all [of "(NR_CPUS, m)" const] m by (simp add: mask_ok_def cpus_def)
qed

lemma for_each_cpu_and_ok:
  "mask_ok m \<Longrightarrow> mask_ok k \<Longrightarrow> for_each_cpu_and const m k = Some (sorted_list_of_set (cpus m \<inter> cpus k))"
proof -
  assume m: "mask_ok m" "mask_ok k"
  have "for_each_cpu_and const m k = for_each_bit (NR_CPUS + 1) (find_next_and_bit const m k NR_CPUS) NR_CPUS 0"
    unfolding for_each_cpu_and_def nr_cpu_ids_def
    by (rule for_each_bit_cong) (simp_all add: cpumask_next_and_def search_from_nat nr_cpumask_bits_def)
  then show ?thesis using common_bits.visits_all [of "(NR_CPUS, m, k)" const] m by (simp add: mask_ok_def cpus_def)
qed

subsection \<open>Cyclic iteration\<close>

definition wrapped :: "cpumask \<Rightarrow> nat \<Rightarrow> nat" where
  "wrapped m s = (let n = next_in (cpus m) NR_CPUS 0 in if s \<le> n then NR_CPUS else n)"

lemma next_wrap_restart:
  assumes "mask_ok m" "s \<le> NR_CPUS"
  shows "cpumask_next_wrap_loop (Suc fuel) const (- 1) m (int s) True = Some (wrapped m s)"
  using mask_next [OF assms(1), of 0 const] assms(2)
  by (auto simp: wrapped_def Let_def nr_cpumask_bits_def)

lemma next_wrap_first:
  assumes "mask_ok m" "s \<le> NR_CPUS"
  shows "cpumask_next_wrap const (int s - 1) m (int s) False
    = Some (let n = next_in (cpus m) NR_CPUS s in if n < NR_CPUS then n else wrapped m s)"
  using mask_next [OF assms, of const] next_wrap_restart [OF assms, of 0 const]
  by (simp add: cpumask_next_wrap_def numeral_2_eq_2 Let_def nr_cpumask_bits_def)

lemma next_wrap_high:
  assumes "mask_ok m" "s \<le> c" "c < NR_CPUS"
  shows "cpumask_next_wrap const (int c) m (int s) True
    = Some (let n = next_in (cpus m) NR_CPUS (Suc c) in if n < NR_CPUS then n else wrapped m s)"
  using mask_next [OF assms(1), of "Suc c" const] next_wrap_restart [OF assms(1), of s 0 const] assms(2,3)
  by (simp add: cpumask_next_wrap_def numeral_2_eq_2 Let_def nr_cpumask_bits_def)

lemma next_wrap_low:
  assumes "mask_ok m" "c < s" "s \<le> NR_CPUS"
  shows "cpumask_next_wrap const (int c) m (int s) True
    = Some (let n = next_in (cpus m) NR_CPUS (Suc c) in if s \<le> n then NR_CPUS else n)"
  using mask_next [OF assms(1), of "Suc c" const] assms(2,3)
  by (auto simp: cpumask_next_wrap_def numeral_2_eq_2 Let_def nr_cpumask_bits_def)

lemma sorted_first:
  assumes "finite A" "n \<in> A" "\<And>j. j \<in> A \<Longrightarrow> n \<le> (j :: nat)"
  shows "sorted_list_of_set A = n # sorted_list_of_set (A - {n})"
proof -
  have "Min A = n" using assms by (intro Min_eqI) auto
  then show ?thesis using sorted_list_of_set_nonempty [of A] assms by auto
qed

lemma wrap_loop_low:
  assumes "mask_ok m" "s \<le> NR_CPUS"
  shows "c \<in> cpus m \<Longrightarrow> c < s \<Longrightarrow> s - c < fuel \<Longrightarrow>
    for_each_cpu_wrap_loop fuel const c m (int s) = Some (sorted_list_of_set {j \<in> cpus m. c \<le> j \<and> j < s})"
proof (induction fuel arbitrary: c)
  case (Suc fuel)
  let ?A = "{j \<in> cpus m. c \<le> j \<and> j < s}"
  let ?n = "next_in (cpus m) NR_CPUS (Suc c)"
  have A: "sorted_list_of_set ?A = c # sorted_list_of_set {j \<in> cpus m. Suc c \<le> j \<and> j < s}"
  proof -
    have "?A - {c} = {j \<in> cpus m. Suc c \<le> j \<and> j < s}" by auto
    moreover have "sorted_list_of_set ?A = c # sorted_list_of_set (?A - {c})"
      using Suc.prems by (intro sorted_first) auto
    ultimately show ?thesis by simp
  qed
  have c: "c < NR_CPUS" using Suc.prems(1) by (rule cpus_lt)
  show ?case
  proof (cases "s \<le> ?n")
    case True
    have "{j \<in> cpus m. Suc c \<le> j \<and> j < s} = {}"
      using True by (cases rule: next_in_cases [OF finite_cpus [of m], of NR_CPUS "Suc c"]) fastforce+
    then have e: "sorted_list_of_set ?A = [c]" using A by simp
    obtain f where f: "fuel = Suc f" using Suc.prems by (cases fuel) auto
    show ?thesis unfolding e using True c next_wrap_low [OF assms(1) Suc.prems(2) assms(2), of const]
      by (simp add: Let_def f nr_cpumask_bits_def)
  next
    case False
    then have n: "?n \<in> cpus m" "Suc c \<le> ?n" "?n < s" "\<And>j. j \<in> cpus m \<Longrightarrow> Suc c \<le> j \<Longrightarrow> ?n \<le> j"
      using assms(2) by (cases rule: next_in_cases [OF finite_cpus [of m], of NR_CPUS "Suc c"]; auto)+
    have "{j \<in> cpus m. Suc c \<le> j \<and> j < s} = {j \<in> cpus m. ?n \<le> j \<and> j < s}"
      using n(2,4) by (auto intro: order_trans)
    moreover have "for_each_cpu_wrap_loop fuel const ?n m (int s) = Some (sorted_list_of_set {j \<in> cpus m. ?n \<le> j \<and> j < s})"
      using n Suc.prems(3) by (intro Suc.IH) auto
    ultimately show ?thesis unfolding A using False c next_wrap_low [OF assms(1) Suc.prems(2) assms(2), of const]
      by (simp add: Let_def nr_cpumask_bits_def)
  qed
qed simp

lemma wrap_loop_wrapped:
  assumes "mask_ok m" "s \<le> NR_CPUS" "s < fuel"
  shows "for_each_cpu_wrap_loop fuel const (wrapped m s) m (int s) = Some (sorted_list_of_set {j \<in> cpus m. j < s})"
proof (cases "s \<le> next_in (cpus m) NR_CPUS 0")
  case True
  have "{j \<in> cpus m. j < s} = {}"
    using True by (cases rule: next_in_cases [OF finite_cpus [of m], of NR_CPUS 0]) fastforce+
  moreover obtain f where "fuel = Suc f" using assms(3) by (cases fuel) auto
  ultimately show ?thesis using True unfolding \<open>{j \<in> cpus m. j < s} = {}\<close>
    by (simp add: wrapped_def Let_def nr_cpumask_bits_def)
next
  case False
  let ?n = "next_in (cpus m) NR_CPUS 0"
  have n: "?n \<in> cpus m" "?n < s" "\<And>j. j \<in> cpus m \<Longrightarrow> ?n \<le> j"
    using False assms(2) by (cases rule: next_in_cases [OF finite_cpus [of m], of NR_CPUS 0]; auto)+
  have "{j \<in> cpus m. j < s} = {j \<in> cpus m. ?n \<le> j \<and> j < s}" using n(3) by auto
  moreover have "for_each_cpu_wrap_loop fuel const ?n m (int s) = Some (sorted_list_of_set {j \<in> cpus m. ?n \<le> j \<and> j < s})"
    using n(1,2) assms(3) by (intro wrap_loop_low assms(1,2)) auto
  ultimately show ?thesis using False by (simp add: wrapped_def Let_def)
qed

lemma wrap_loop_high:
  assumes "mask_ok m" "s \<le> NR_CPUS"
  shows "c \<in> cpus m \<Longrightarrow> s \<le> c \<Longrightarrow> NR_CPUS - c + s < fuel \<Longrightarrow>
    for_each_cpu_wrap_loop fuel const c m (int s)
      = Some (sorted_list_of_set {j \<in> cpus m. c \<le> j} @ sorted_list_of_set {j \<in> cpus m. j < s})"
proof (induction fuel arbitrary: c)
  case (Suc fuel)
  let ?A = "{j \<in> cpus m. c \<le> j}"
  let ?n = "next_in (cpus m) NR_CPUS (Suc c)"
  have A: "sorted_list_of_set ?A = c # sorted_list_of_set {j \<in> cpus m. Suc c \<le> j}"
  proof -
    have "?A - {c} = {j \<in> cpus m. Suc c \<le> j}" by auto
    moreover have "sorted_list_of_set ?A = c # sorted_list_of_set (?A - {c})"
      using Suc.prems by (intro sorted_first) auto
    ultimately show ?thesis by simp
  qed
  have c: "c < NR_CPUS" using Suc.prems(1) by (rule cpus_lt)
  show ?case
  proof (cases m "Suc c" rule: next_cpu_cases)
    case none
    have "s < fuel" using Suc.prems(3) c by simp
    from wrap_loop_wrapped [OF assms this, of const] show ?thesis
      unfolding A none(2) using none(1) c next_wrap_high [OF assms(1) Suc.prems(2) c, of const]
      by (simp add: Let_def nr_cpumask_bits_def)
  next
    case some
    have n: "?n < NR_CPUS" using some(1) by (rule cpus_lt)
    have "for_each_cpu_wrap_loop fuel const ?n m (int s)
        = Some (sorted_list_of_set {j \<in> cpus m. ?n \<le> j} @ sorted_list_of_set {j \<in> cpus m. j < s})"
      using some(1,2) Suc.prems(2,3) n by (intro Suc.IH) auto
    then show ?thesis unfolding A some(3) using n c next_wrap_high [OF assms(1) Suc.prems(2) c, of const]
      by (simp add: Let_def nr_cpumask_bits_def)
  qed
qed simp

text \<open>C20. The loop macros end. \<^verbatim>\<open>for_each_cpu\<close> and its variants visit the members (non-members, common
  members) in increasing order. \<^verbatim>\<open>for_each_cpu_wrap\<close> visits every member exactly once: those from
  \<^verbatim>\<open>start\<close> on in increasing order, then those below it, whether or not \<^verbatim>\<open>start\<close> itself is a member.\<close>

theorem for_each_cpu_visits:
  assumes "mask_ok m" "mask_ok k" "s \<le> NR_CPUS"
  shows "for_each_cpu const m = Some (sorted_list_of_set (cpus m)) \<and>
    for_each_cpu_not const m = Some (sorted_list_of_set ({..<NR_CPUS} - cpus m)) \<and>
    for_each_cpu_and const m k = Some (sorted_list_of_set (cpus m \<inter> cpus k)) \<and>
    for_each_cpu_wrap const m (int s)
      = Some (sorted_list_of_set {j \<in> cpus m. s \<le> j} @ sorted_list_of_set {j \<in> cpus m. j < s})"
proof -
  let ?n = "next_in (cpus m) NR_CPUS s"
  have "for_each_cpu_wrap const m (int s)
      = Some (sorted_list_of_set {j \<in> cpus m. s \<le> j} @ sorted_list_of_set {j \<in> cpus m. j < s})"
  proof (cases m s rule: next_cpu_cases)
    case none
    show ?thesis unfolding none(2) using none(1) next_wrap_first [OF assms(1,3), of const]
        wrap_loop_wrapped [OF assms(1,3), of "NR_CPUS + 1" const] assms(3)
      by (simp add: for_each_cpu_wrap_def nr_cpumask_bits_def)
  next
    case some
    have "for_each_cpu_wrap_loop (NR_CPUS + 1) const ?n m (int s)
        = Some (sorted_list_of_set {j \<in> cpus m. ?n \<le> j} @ sorted_list_of_set {j \<in> cpus m. j < s})"
      using some(1,2) cpus_lt [OF some(1)] by (intro wrap_loop_high assms(1,3)) auto
    then show ?thesis unfolding some(3) using cpus_lt [OF some(1)] next_wrap_first [OF assms(1,3), of const]
      by (simp add: for_each_cpu_wrap_def nr_cpumask_bits_def)
  qed
  with assms show ?thesis by (simp add: for_each_cpu_ok for_each_cpu_not_ok for_each_cpu_and_ok)
qed

lemma sample_mask: "mask_ok [0xd]" "cpus [0xd] = {0, 2, 3}"
proof -
  show "mask_ok [0xd]" by (simp add: mask_ok_def fits_bits_def BITS_TO_LONGS_def BITS_PER_LONG_def NR_CPUS_def)
  have "i \<in> cpus [0xd] \<longleftrightarrow> i \<in> {0, 2, 3}" for i
  proof (cases "i < 4")
    case True
    then consider "i = 0" | "i = 1" | "i = 2" | "i = 3" by linarith
    then show ?thesis by cases (simp_all add: cpus_def bitset_def NR_CPUS_def bit_iff_odd)
  qed (auto dest: cpus_lt simp: NR_CPUS_def)
  then show "cpus [0xd] = {0, 2, 3}" by blast
qed

theorem for_each_cpu_visits_witness: "for_each_cpu_wrap True [0xd] (int 1) = Some [2, 3, 0]"
proof -
  have "{j. (j = 0 \<or> j = 2 \<or> j = 3) \<and> 1 \<le> j} = {2, 3 :: nat}" "{j. (j = 0 \<or> j = 2 \<or> j = 3) \<and> j < 1} = {0 :: nat}" by auto
  then show ?thesis using for_each_cpu_visits [OF sample_mask(1) sample_mask(1), of 1 True]
    by (simp add: sample_mask NR_CPUS_def)
qed

subsection \<open>Another CPU\<close>

lemma next_in_eqI:
  assumes "finite S" "k \<in> S" "lo \<le> k" "\<And>j. j \<in> S \<Longrightarrow> lo \<le> j \<Longrightarrow> k \<le> j"
  shows "next_in S n lo = k"
  by (rule next_in_cases [OF assms(1), of n lo]) (use assms in \<open>meson leD antisym\<close>)+

lemma any_but_ok:
  assumes "mask_ok m" "cpu < NR_CPUS"
  shows "cpumask_any_but const m cpu = Some (next_in (cpus m - {cpu}) NR_CPUS 0)"
proof (cases m "0 :: nat" rule: next_cpu_cases)
  case none
  then show ?thesis using mask_next [OF assms(1), of 0 const]
    by (auto simp: cpumask_any_but_def nr_cpu_ids_def next_in_def)
next
  case some
  let ?f = "next_in (cpus m) NR_CPUS 0"
  have f: "?f < NR_CPUS" using some(1) by (rule cpus_lt)
  have least: "?f \<le> j" if "j \<in> cpus m" for j using that some(3) by auto
  show ?thesis
  proof (cases "?f = cpu")
    case False
    have "next_in (cpus m - {cpu}) NR_CPUS 0 = ?f"
      using False some(1) least by (intro next_in_eqI) auto
    then show ?thesis using False mask_next [OF assms(1), of 0 const]
      by (simp add: cpumask_any_but_def nr_cpu_ids_def)
  next
    case True
    have "{j \<in> cpus m - {cpu}. 0 \<le> j} = {j \<in> cpus m. Suc cpu \<le> j}" using True least by force
    then have "next_in (cpus m - {cpu}) NR_CPUS 0 = next_in (cpus m) NR_CPUS (Suc cpu)"
      by (auto simp: next_in_def)
    moreover have "next_in (cpus m) NR_CPUS (Suc cpu) \<noteq> cpu"
      by (cases m "Suc cpu" rule: next_cpu_cases) (use assms(2) in auto)
    ultimately show ?thesis
      using True mask_next [OF assms(1), of 0 const] mask_next [OF assms(1), of "Suc cpu" const] assms(2)
      by (simp add: cpumask_any_but_def nr_cpu_ids_def NR_CPUS_def numeral_eq_Suc)
  qed
qed

text \<open>The table of single-bit masks.\<close>

lemma get_cpu_mask_ok:
  assumes "cpu < NR_CPUS"
  shows "mask_ok (get_cpu_mask cpu) \<and> cpus (get_cpu_mask cpu) = {cpu}"
proof -
  have one: "BITS_TO_LONGS NR_CPUS = 1" by (simp add: BITS_TO_LONGS_def BITS_PER_LONG_def NR_CPUS_def)
  have table: "cpu_bit_bitmap = 0 # map (\<lambda>x. push_bit x 1) [0..<64]" by (simp add: cpu_bit_bitmap_def one concat_map_singleton)
  have "get_cpu_mask cpu = [push_bit cpu 1]"
    using assms unfolding get_cpu_mask_def one table
    by (simp add: NR_CPUS_def BITS_PER_LONG_def take_Suc drop_map hd_drop_conv_nth hd_map del: drop_upt upt_Suc)
  moreover have "cpus [push_bit cpu 1] = {cpu}"
    using assms by (auto simp: cpus_def bitset_def NR_CPUS_def bit_exp_iff)
  ultimately show ?thesis by (simp add: mask_ok_def fits_bits_def one)
qed

end
