(* ===== verification/Cpu_State.thy ===== *)
theory Cpu_State
  imports Cpumask_Correct Word_Facts
begin

section \<open>The masks of the system and the spreading of work over CPUs\<close>

text \<open>
  The possible, present, online and active masks under every sequence of the operations that change
  them: the count of online CPUs is the size of the online mask. With it, \<^verbatim>\<open>cpumask_local_spread\<close> numbers
  the online CPUs, those of the given node first.
\<close>

definition masks_ok :: "cpu_masks \<Rightarrow> bool" where
  "masks_ok s \<longleftrightarrow> mask_ok (cpu_possible_mask s) \<and> mask_ok (cpu_online_mask s) \<and> mask_ok (cpu_present_mask s) \<and>
     mask_ok (cpu_active_mask s) \<and> mask_ok (cpus_booted_once_mask s)"

definition online_counted :: "cpu_masks \<Rightarrow> bool" where
  "online_counted s \<longleftrightarrow> masks_ok s \<and> unat (num_online_cpus s) = card (cpus (cpu_online_mask s))"

subsection \<open>The operations on one mask\<close>

lemma mask_set_cpu:
  assumes "mask_ok m" "cpu < NR_CPUS"
  shows "\<exists>m'. cpumask_set_cpu cpu m = Some m' \<and> cpumask_test_and_set_cpu cpu m = Some (cpu \<in> cpus m, m') \<and>
    mask_ok m' \<and> cpus m' = insert cpu (cpus m)"
  using set_bit_ok [of cpu NR_CPUS m] assms
  by (auto simp: cpumask_set_cpu_def cpumask_test_and_set_cpu_def mask_ok_def cpus_def fits_bits_def)

lemma mask_clear_cpu:
  assumes "mask_ok m" "cpu < NR_CPUS"
  shows "\<exists>m'. cpumask_clear_cpu cpu m = Some m' \<and> cpumask_test_and_clear_cpu cpu m = Some (cpu \<in> cpus m, m') \<and>
    mask_ok m' \<and> cpus m' = cpus m - {cpu}"
  using clear_bit_ok [of cpu NR_CPUS m] assms
  by (auto simp: cpumask_clear_cpu_def cpumask_test_and_clear_cpu_def mask_ok_def cpus_def fits_bits_def)

lemma mask_copy: "mask_ok m \<Longrightarrow> mask_ok src \<Longrightarrow> \<exists>m'. cpumask_copy m src = Some m' \<and> mask_ok m' \<and> cpus m' = cpus src"
  using copy_ok [of NR_CPUS m src] by (auto simp: cpumask_copy_def nr_cpumask_bits_def mask_ok_def cpus_def fits_bits_def)

lemma mask_test: "mask_ok m \<Longrightarrow> cpu < NR_CPUS \<Longrightarrow> cpumask_test_cpu cpu m = Some (cpu \<in> cpus m)"
  by (simp add: cpumask_test_cpu_def test_bit_ok mask_ok_def cpus_def)

lemma mask_and:
  assumes "mask_ok m" "mask_ok a" "mask_ok b"
  shows "\<exists>m'. cpumask_and const m a b = Some (cpus a \<inter> cpus b \<noteq> {}, m') \<and> mask_ok m' \<and> cpus m' = cpus a \<inter> cpus b"
  using bitmap_and_ok [of NR_CPUS a b m const] assms nr_pos
  by (auto simp: cpumask_and_def nr_cpumask_bits_def mask_ok_def cpus_def fits_bits_def)

lemma mask_weight: "mask_ok m \<Longrightarrow> cpumask_weight const m = Some (card (cpus m))"
  by (simp add: cpumask_weight_def bitmap_weight_ok mask_ok_def cpus_def nr_cpumask_bits_def nr_pos)

lemma card_cpus: "card (cpus m) \<le> NR_CPUS"
  using card_mono [of "{..<NR_CPUS}" "cpus m"] cpus_lt by auto

text \<open>A 32-bit counter of the members of a mask follows one insertion or removal.\<close>

lemma count_insert:
  fixes n :: u32
  assumes "unat n = card (cpus m)"
  shows "unat (n + 1) = Suc (card (cpus m))"
proof -
  have "card (cpus m) < 2 ^ 32 - 1" using card_cpus [of m] by (simp add: NR_CPUS_def)
  then show ?thesis using assms unat_add_fits [of n 1] by simp
qed

lemma count_delete:
  fixes n :: u32
  assumes "unat n = card (cpus m)" "c \<in> cpus m"
  shows "unat (n - 1) = card (cpus m - {c})"
proof -
  have "0 < card (cpus m)" using assms(2) by (auto simp: card_gt_0_iff)
  then have "n \<noteq> 0" using assms(1) by auto
  then show ?thesis using assms by (simp add: unat_minus_one card_Diff_singleton)
qed

subsection \<open>The operations on the system masks\<close>

lemma set_cpu_online_ok:
  assumes "online_counted s" "cpu < NR_CPUS"
  shows "\<exists>s'. set_cpu_online cpu on s = Some s' \<and> online_counted s' \<and>
    cpus (cpu_online_mask s') = (if on then insert cpu (cpus (cpu_online_mask s)) else cpus (cpu_online_mask s) - {cpu})"
proof -
  let ?m = "cpu_online_mask s"
  have m: "mask_ok ?m" and n: "unat (num_online_cpus s) = card (cpus ?m)"
    using assms(1) by (auto simp: online_counted_def masks_ok_def)
  note up = count_insert [OF n] and down = count_delete [OF n]
  show ?thesis
  proof (cases on)
    case True
    then show ?thesis using mask_set_cpu [OF m assms(2)] assms(1) up
      by (auto simp: set_cpu_online_def online_counted_def masks_ok_def insert_absorb)
  next
    case False
    then show ?thesis using mask_clear_cpu [OF m assms(2)] assms(1) down
      by (auto simp: set_cpu_online_def online_counted_def masks_ok_def)
  qed
qed

text \<open>
  The operations as commands, and what each does to the sets of CPUs. \<^verbatim>\<open>init_cpu_online\<close> is not among
  them: it replaces the online mask and leaves the count alone.
\<close>

datatype cpu_op = Set_possible nat bool | Set_present nat bool | Set_active nat bool | Set_online nat bool
  | Boot nat | Hotplug_init nat | Init_present cpumask | Init_possible cpumask | Reset_possible

fun cpu_op_ok :: "cpu_op \<Rightarrow> bool" where
  "cpu_op_ok (Set_possible cpu b) = (cpu < NR_CPUS)" |
  "cpu_op_ok (Set_present cpu b) = (cpu < NR_CPUS)" |
  "cpu_op_ok (Set_active cpu b) = (cpu < NR_CPUS)" |
  "cpu_op_ok (Set_online cpu b) = (cpu < NR_CPUS)" |
  "cpu_op_ok (Boot cpu) = (cpu < NR_CPUS)" |
  "cpu_op_ok (Hotplug_init cpu) = (cpu < NR_CPUS)" |
  "cpu_op_ok (Init_present m) = mask_ok m" |
  "cpu_op_ok (Init_possible m) = mask_ok m" |
  "cpu_op_ok Reset_possible = True"

fun cpu_op_run :: "bool \<Rightarrow> cpu_op \<Rightarrow> cpu_masks \<Rightarrow> cpu_masks option" where
  "cpu_op_run const (Set_possible cpu b) s = set_cpu_possible cpu b s" |
  "cpu_op_run const (Set_present cpu b) s = set_cpu_present cpu b s" |
  "cpu_op_run const (Set_active cpu b) s = set_cpu_active cpu b s" |
  "cpu_op_run const (Set_online cpu b) s = set_cpu_online cpu b s" |
  "cpu_op_run const (Boot cpu) s = boot_cpu_init cpu s" |
  "cpu_op_run const (Hotplug_init cpu) s = boot_cpu_hotplug_init cpu s" |
  "cpu_op_run const (Init_present m) s = init_cpu_present m s" |
  "cpu_op_run const (Init_possible m) s = init_cpu_possible m s" |
  "cpu_op_run const Reset_possible s = reset_cpu_possible_mask const s"

primrec cpu_ops_run :: "bool \<Rightarrow> cpu_op list \<Rightarrow> cpu_masks \<Rightarrow> cpu_masks option" where
  "cpu_ops_run const [] s = Some s" |
  "cpu_ops_run const (x # xs) s = do { s \<leftarrow> cpu_op_run const x s; cpu_ops_run const xs s }"

record cpu_sets =
  possible_set :: "nat set"
  online_set :: "nat set"
  present_set :: "nat set"
  active_set :: "nat set"
  booted_set :: "nat set"

definition abs_masks :: "cpu_masks \<Rightarrow> cpu_sets" where
  "abs_masks s = \<lparr>possible_set = cpus (cpu_possible_mask s), online_set = cpus (cpu_online_mask s),
     present_set = cpus (cpu_present_mask s), active_set = cpus (cpu_active_mask s), booted_set = cpus (cpus_booted_once_mask s)\<rparr>"

definition put :: "nat \<Rightarrow> bool \<Rightarrow> nat set \<Rightarrow> nat set" where
  "put cpu b S = (if b then insert cpu S else S - {cpu})"

fun abs_op :: "cpu_op \<Rightarrow> cpu_sets \<Rightarrow> cpu_sets" where
  "abs_op (Set_possible cpu b) a = a\<lparr>possible_set := put cpu b (possible_set a)\<rparr>" |
  "abs_op (Set_present cpu b) a = a\<lparr>present_set := put cpu b (present_set a)\<rparr>" |
  "abs_op (Set_active cpu b) a = a\<lparr>active_set := put cpu b (active_set a)\<rparr>" |
  "abs_op (Set_online cpu b) a = a\<lparr>online_set := put cpu b (online_set a)\<rparr>" |
  "abs_op (Boot cpu) a = a\<lparr>possible_set := insert cpu (possible_set a), online_set := insert cpu (online_set a),
     present_set := insert cpu (present_set a), active_set := insert cpu (active_set a)\<rparr>" |
  "abs_op (Hotplug_init cpu) a = a\<lparr>booted_set := insert cpu (booted_set a)\<rparr>" |
  "abs_op (Init_present m) a = a\<lparr>present_set := cpus m\<rparr>" |
  "abs_op (Init_possible m) a = a\<lparr>possible_set := cpus m\<rparr>" |
  "abs_op Reset_possible a = a\<lparr>possible_set := {}\<rparr>"

definition simulates :: "cpu_masks option \<Rightarrow> cpu_sets \<Rightarrow> bool" where
  "simulates r a \<longleftrightarrow> (\<exists>s. r = Some s \<and> online_counted s \<and> abs_masks s = a)"

lemma set_cpu_online_sim:
  assumes "online_counted s" "cpu < NR_CPUS"
  shows "simulates (set_cpu_online cpu b s) ((abs_masks s)\<lparr>online_set := put cpu b (online_set (abs_masks s))\<rparr>)"
proof -
  obtain s' where s': "set_cpu_online cpu b s = Some s'" "online_counted s'"
      "cpus (cpu_online_mask s') = put cpu b (cpus (cpu_online_mask s))"
    using set_cpu_online_ok [OF assms, of b] by (auto simp: put_def)
  then have "cpu_possible_mask s' = cpu_possible_mask s \<and> cpu_present_mask s' = cpu_present_mask s \<and>
      cpu_active_mask s' = cpu_active_mask s \<and> cpus_booted_once_mask s' = cpus_booted_once_mask s"
    by (auto simp: set_cpu_online_def Option.bind_eq_Some_conv split: if_splits prod.splits)
  with s' show ?thesis by (simp add: simulates_def abs_masks_def)
qed

lemma set_mask_sim:
  assumes "online_counted s" "cpu < NR_CPUS"
  shows set_cpu_possible_sim: "simulates (set_cpu_possible cpu b s) ((abs_masks s)\<lparr>possible_set := put cpu b (possible_set (abs_masks s))\<rparr>)"
    and set_cpu_present_sim: "simulates (set_cpu_present cpu b s) ((abs_masks s)\<lparr>present_set := put cpu b (present_set (abs_masks s))\<rparr>)"
    and set_cpu_active_sim: "simulates (set_cpu_active cpu b s) ((abs_masks s)\<lparr>active_set := put cpu b (active_set (abs_masks s))\<rparr>)"
    and boot_cpu_hotplug_init_sim: "simulates (boot_cpu_hotplug_init cpu s) ((abs_masks s)\<lparr>booted_set := insert cpu (booted_set (abs_masks s))\<rparr>)"
proof -
  have ok: "mask_ok (cpu_possible_mask s)" "mask_ok (cpu_present_mask s)" "mask_ok (cpu_active_mask s)" "mask_ok (cpus_booted_once_mask s)"
    using assms(1) by (auto simp: online_counted_def masks_ok_def)
  note ds = simulates_def online_counted_def masks_ok_def abs_masks_def put_def
  show "simulates (set_cpu_possible cpu b s) ((abs_masks s)\<lparr>possible_set := put cpu b (possible_set (abs_masks s))\<rparr>)"
    using assms mask_set_cpu [OF ok(1) assms(2)] mask_clear_cpu [OF ok(1) assms(2)] by (auto simp: set_cpu_possible_def ds)
  show "simulates (set_cpu_present cpu b s) ((abs_masks s)\<lparr>present_set := put cpu b (present_set (abs_masks s))\<rparr>)"
    using assms mask_set_cpu [OF ok(2) assms(2)] mask_clear_cpu [OF ok(2) assms(2)] by (auto simp: set_cpu_present_def ds)
  show "simulates (set_cpu_active cpu b s) ((abs_masks s)\<lparr>active_set := put cpu b (active_set (abs_masks s))\<rparr>)"
    using assms mask_set_cpu [OF ok(3) assms(2)] mask_clear_cpu [OF ok(3) assms(2)] by (auto simp: set_cpu_active_def ds)
  show "simulates (boot_cpu_hotplug_init cpu s) ((abs_masks s)\<lparr>booted_set := insert cpu (booted_set (abs_masks s))\<rparr>)"
    using assms mask_set_cpu [OF ok(4) assms(2)] by (auto simp: boot_cpu_hotplug_init_def ds)
qed

lemma simulates_bind:
  "simulates r a \<Longrightarrow> (\<And>s. online_counted s \<Longrightarrow> abs_masks s = a \<Longrightarrow> simulates (f s) b) \<Longrightarrow> simulates (r \<bind> f) b"
  by (auto simp: simulates_def)

lemma boot_cpu_init_sim:
  assumes "online_counted s" "cpu < NR_CPUS"
  shows "simulates (boot_cpu_init cpu s) (abs_op (Boot cpu) (abs_masks s))"
  unfolding boot_cpu_init_def
  apply (rule simulates_bind [OF set_cpu_online_sim [OF assms]])
  apply (rule simulates_bind [OF set_cpu_active_sim [OF _ assms(2)]], assumption)
  apply (rule simulates_bind [OF set_cpu_present_sim [OF _ assms(2)]], assumption)
  apply (rule simulates_bind [OF set_cpu_possible_sim [OF _ assms(2)]], assumption)
  apply (simp add: simulates_def online_counted_def masks_ok_def abs_masks_def put_def)
  done

lemma cpu_op_sim:
  assumes "online_counted s" "cpu_op_ok x"
  shows "simulates (cpu_op_run const x s) (abs_op x (abs_masks s))"
proof (cases x)
  case (Boot cpu)
  then show ?thesis using boot_cpu_init_sim [of s cpu] assms by simp
next
  case (Init_present m)
  then show ?thesis using assms mask_copy [of "cpu_present_mask s" m]
    by (auto simp: init_cpu_present_def simulates_def online_counted_def masks_ok_def abs_masks_def)
next
  case (Init_possible m)
  then show ?thesis using assms mask_copy [of "cpu_possible_mask s" m]
    by (auto simp: init_cpu_possible_def simulates_def online_counted_def masks_ok_def abs_masks_def)
next
  case Reset_possible
  then show ?thesis using assms zero_ok [of NR_CPUS "cpu_possible_mask s" const] nr_pos
    by (auto simp: reset_cpu_possible_mask_def simulates_def online_counted_def masks_ok_def abs_masks_def mask_ok_def cpus_def fits_bits_def)
qed (use assms in \<open>simp_all add: set_cpu_online_sim set_mask_sim\<close>)

lemma cpu_ops_sim:
  "online_counted s \<Longrightarrow> list_all cpu_op_ok xs \<Longrightarrow> simulates (cpu_ops_run const xs s) (fold abs_op xs (abs_masks s))"
proof (induction xs arbitrary: s)
  case (Cons x xs)
  then obtain t where "cpu_op_run const x s = Some t" "online_counted t" "abs_masks t = abs_op x (abs_masks s)"
    using cpu_op_sim [of s x const] by (auto simp: simulates_def)
  with Cons show ?case using Cons.IH [of t] by simp
qed (simp add: simulates_def)

lemma static_ok: "online_counted static_cpu_masks"
    "abs_masks static_cpu_masks = \<lparr>possible_set = {..<NR_CPUS}, online_set = {}, present_set = {}, active_set = {}, booted_set = {}\<rparr>"
proof -
  have none: "CPU_BITS_NONE = [0]" by (simp add: CPU_BITS_NONE_def NR_CPUS_def BITS_TO_LONGS_def BITS_PER_LONG_def)
  have all: "CPU_BITS_ALL = [0xf]"
    by (simp add: CPU_BITS_ALL_def NR_CPUS_def BITS_TO_LONGS_def BITS_PER_LONG_def BITMAP_LAST_WORD_MASK_def)
  have fits: "mask_ok [w]" for w by (simp add: mask_ok_def fits_bits_def BITS_TO_LONGS_def BITS_PER_LONG_def NR_CPUS_def)
  have none_cpus: "cpus [0] = {}" by (auto simp: cpus_def bitset_def NR_CPUS_def)
  show "online_counted static_cpu_masks"
    by (simp add: online_counted_def masks_ok_def static_cpu_masks_def none all fits none_cpus)
  have "i \<in> cpus [0xf]" if i: "i < NR_CPUS" for i
  proof -
    consider "i = 0" | "i = 1" | "i = 2" | "i = 3" using i unfolding NR_CPUS_def by linarith
    then show ?thesis by cases (simp_all add: cpus_def bitset_def NR_CPUS_def bit_iff_odd)
  qed
  then have "cpus [0xf] = {..<NR_CPUS}" using cpus_lt by auto
  then show "abs_masks static_cpu_masks = \<lparr>possible_set = {..<NR_CPUS}, online_set = {}, present_set = {}, active_set = {}, booted_set = {}\<rparr>"
    by (simp add: abs_masks_def static_cpu_masks_def none all none_cpus)
qed



subsection \<open>Spreading over the online CPUs\<close>

lemma spread_pick_ok:
  assumes "\<And>c. c \<in> set cs \<Longrightarrow> skip c = Some (p c)"
  shows "spread_pick skip i cs = (let fs = filter (\<lambda>c. \<not> p c) cs in
    Some (if i < length fs then Inl (fs ! i) else Inr (i - length fs)))"
  using assms
proof (induction cs arbitrary: i)
  case (Cons c cs)
  then show ?case by (cases i) (auto simp: Let_def)
qed simp

lemma filter_sorted_set: "finite S \<Longrightarrow> filter P (sorted_list_of_set S) = sorted_list_of_set {x \<in> S. P x}"
  for S :: "nat set"
  by (intro sorted_distinct_set_unique) (auto simp: sorted_wrt_filter)

text \<open>The order in which \<^verbatim>\<open>cpumask_local_spread\<close> numbers the online CPUs.\<close>

definition spread_order :: "nat set \<Rightarrow> nat set \<Rightarrow> nat list" where
  "spread_order local online = sorted_list_of_set (online \<inter> local) @ sorted_list_of_set (online - local)"

lemma spread_order_set: "finite S \<Longrightarrow> set (spread_order N S) = S" "finite S \<Longrightarrow> distinct (spread_order N S)"
  "finite S \<Longrightarrow> length (spread_order N S) = card S"
proof -
  assume f: "finite S"
  have "card (S \<inter> N) + card (S - N) = card S"
    using card_Int_Diff [OF f, of N] by simp
  with f show "length (spread_order N S) = card S" by (simp add: spread_order_def)
qed (auto simp: spread_order_def)

lemma local_spread_none:
  assumes "online_counted s" "cpus (cpu_online_mask s) \<noteq> {}"
  shows "cpumask_local_spread const s node_map i NUMA_NO_NODE
    = Some (sorted_list_of_set (cpus (cpu_online_mask s)) ! (i mod card (cpus (cpu_online_mask s))))"
proof -
  let ?S = "cpus (cpu_online_mask s)"
  have "0 < card ?S" using assms(2) by (simp add: card_gt_0_iff)
  then have "num_online_cpus s \<noteq> 0" "unat (num_online_cpus s) = card ?S" "i mod card ?S < card ?S"
    using assms(1) by (auto simp: online_counted_def)
  then show ?thesis using assms(1) spread_pick_ok [of "sorted_list_of_set ?S" "\<lambda>c. Some False" "\<lambda>c. False" "i mod card ?S"]
    by (simp add: cpumask_local_spread_def bug_on_def for_each_cpu_ok online_counted_def masks_ok_def NUMA_NO_NODE_def)
qed

lemma local_spread_node:
  assumes "online_counted s" "cpus (cpu_online_mask s) \<noteq> {}" "nd < length node_map" "mask_ok (node_map ! nd)"
  shows "cpumask_local_spread const s node_map i (int nd)
    = Some (spread_order (cpus (node_map ! nd)) (cpus (cpu_online_mask s)) ! (i mod card (cpus (cpu_online_mask s))))"
proof -
  let ?S = "cpus (cpu_online_mask s)" and ?N = "cpus (node_map ! nd)"
  let ?i = "i mod card ?S"
  have m: "mask_ok (cpu_online_mask s)" using assms(1) by (simp add: online_counted_def masks_ok_def)
  have "0 < card ?S" using assms(2) by (simp add: card_gt_0_iff)
  then have n: "num_online_cpus s \<noteq> 0" "unat (num_online_cpus s) = card ?S" "?i < card ?S"
    using assms(1) by (auto simp: online_counted_def)
  have loc: "spread_pick (\<lambda>c. Some False) ?i (sorted_list_of_set (?N \<inter> ?S))
      = Some (if ?i < card (?N \<inter> ?S) then Inl (sorted_list_of_set (?N \<inter> ?S) ! ?i) else Inr (?i - card (?N \<inter> ?S)))"
    using spread_pick_ok [of _ "\<lambda>c. Some False" "\<lambda>c. False"] by (simp add: Let_def)
  have rest: "spread_pick (\<lambda>c. cpumask_test_cpu c (node_map ! nd)) j (sorted_list_of_set ?S)
      = Some (if j < card (?S - ?N) then Inl (sorted_list_of_set (?S - ?N) ! j) else Inr (j - card (?S - ?N)))" for j
    using spread_pick_ok [of "sorted_list_of_set ?S" "\<lambda>c. cpumask_test_cpu c (node_map ! nd)" "\<lambda>c. c \<in> ?N" j]
    by (simp add: mask_test assms(4) cpus_lt filter_sorted_set Let_def set_diff_eq [symmetric])
  have len: "card (?N \<inter> ?S) + card (?S - ?N) = card ?S"
    using spread_order_set(3) [of ?S ?N] by (simp add: spread_order_def Int_commute)
  show ?thesis
    unfolding spread_order_def Int_commute [of ?S]
    using n assms(3) loc rest len for_each_cpu_ok [OF m, of const] for_each_cpu_and_ok [OF assms(4) m, of const]
    by (auto simp: cpumask_local_spread_def bug_on_def arr_get_def NUMA_NO_NODE_def nth_append)
qed

text \<open>C18. Given that the online CPUs are counted correctly and one is online, \<^verbatim>\<open>cpumask_local_spread\<close> returns
  the entry \<^verbatim>\<open>i\<close> modulo the number of online CPUs of a fixed enumeration of them: the online CPUs of the
  node in increasing order, then the others. So it never reaches its \<^verbatim>\<open>BUG()\<close>, always returns an online
  CPU, and distinct indices below the number of online CPUs give distinct CPUs.\<close>

theorem cpumask_local_spread_correct:
  assumes "online_counted s" "cpus (cpu_online_mask s) \<noteq> {}" "nd < length node_map" "mask_ok (node_map ! nd)"
  shows "cpumask_local_spread const s node_map i NUMA_NO_NODE
      = Some (sorted_list_of_set (cpus (cpu_online_mask s)) ! (i mod card (cpus (cpu_online_mask s)))) \<and>
    cpumask_local_spread const s node_map i (int nd)
      = Some (spread_order (cpus (node_map ! nd)) (cpus (cpu_online_mask s)) ! (i mod card (cpus (cpu_online_mask s)))) \<and>
    inj_on (\<lambda>i. cpumask_local_spread const s node_map i (int nd)) {..<card (cpus (cpu_online_mask s))} \<and>
    (\<forall>i. \<exists>c\<in>cpus (cpu_online_mask s). cpumask_local_spread const s node_map i (int nd) = Some c)"
proof (intro conjI allI)
  let ?S = "cpus (cpu_online_mask s)" and ?N = "cpus (node_map ! nd)"
  note spread = local_spread_node [OF assms, of const]
  show "inj_on (\<lambda>i. cpumask_local_spread const s node_map i (int nd)) {..<card ?S}"
    using spread_order_set [of ?S ?N] by (auto intro!: inj_onI simp: spread nth_eq_iff_index_eq)
  fix i
  have "i mod card ?S < length (spread_order ?N ?S)"
    using assms(2) by (simp add: spread_order_set card_gt_0_iff)
  then have "spread_order ?N ?S ! (i mod card ?S) \<in> ?S"
    using nth_mem spread_order_set(1) [of ?S ?N] by auto
  then show "\<exists>c\<in>?S. cpumask_local_spread const s node_map i (int nd) = Some c" by (simp add: spread)
qed (rule local_spread_none [OF assms(1,2)], rule local_spread_node [OF assms])

definition sample_masks :: cpu_masks where
  "sample_masks = static_cpu_masks\<lparr>cpu_online_mask := [0xd], num_online_cpus := 3\<rparr>"

theorem cpumask_local_spread_correct_witness:
  "cpumask_local_spread True sample_masks [[0x3], [0xc]] 4 (int 1) = Some 3 \<and>
   (\<exists>c\<in>{0, 2, 3}. cpumask_local_spread True sample_masks [[0x3], [0xc]] 7 (int 1) = Some c)"
proof -
  have c: "online_counted sample_masks" "cpus (cpu_online_mask sample_masks) = {0, 2, 3}"
    using static_ok(1) by (simp_all add: online_counted_def masks_ok_def sample_masks_def sample_mask)
  have n: "mask_ok ([[0x3], [0xc]] ! 1)"
    by (simp add: mask_ok_def fits_bits_def BITS_TO_LONGS_def BITS_PER_LONG_def NR_CPUS_def)
  have "i \<in> cpus [0xc] \<longleftrightarrow> i \<in> {2, 3}" for i
  proof (cases "i < 4")
    case True
    then consider "i = 0" | "i = 1" | "i = 2" | "i = 3" by linarith
    then show ?thesis by cases (simp_all add: cpus_def bitset_def NR_CPUS_def bit_iff_odd)
  qed (auto dest: cpus_lt simp: NR_CPUS_def)
  then have "cpus [0xc] = {2, 3}" by blast
  moreover have "{0, 2, 3} - {2, 3} = {0 :: nat}" by auto
  ultimately have "spread_order (cpus ([[0x3], [0xc]] ! 1)) {0, 2, 3} = [2, 3, 0]" by (simp add: spread_order_def)
  then show ?thesis
    using cpumask_local_spread_correct [OF c(1) _ _ n, of True 4] c(2)
    by (simp add: spread_order_def)
qed

end
