(* ===== verification/Cpudeadline.thy ===== *)
theory Cpudeadline
  imports Cpu_State Kstrtox
begin

section \<open>The heap of CPU deadlines (kernel/sched/cpudeadline.c)\<close>

text \<open>
  The deadline scheduler keeps the CPUs that run deadline tasks in an array-based heap with the
  latest deadline at the root. The array \<^verbatim>\<open>elements\<close> has two uses: entry \<open>i\<close> holds a CPU and its
  deadline for the heap position \<open>i\<close>, and entry \<open>c\<close> holds the heap position of CPU \<open>c\<close> in its field
  \<^verbatim>\<open>idx\<close>. Locking and trace output are left out; a warning does not change the state. The results of
  the allocations are arguments of the initialisation.
\<close>

definition IDX_INVALID :: int where "IDX_INVALID = - 1"

record cpudl_item =
  item_dl :: u64
  item_cpu :: nat
  item_idx :: int

record cpudl =
  cpudl_size :: nat
  free_cpus :: cpumask
  elements :: "cpudl_item list"

definition dl_time_before :: "u64 \<Rightarrow> u64 \<Rightarrow> bool" where "dl_time_before a b \<longleftrightarrow> sint (a - b) < 0"

definition parent :: "nat \<Rightarrow> nat" where "parent i = (i - 1) div 2"

definition left_child :: "nat \<Rightarrow> nat" where "left_child i = 2 * i + 1"

definition right_child :: "nat \<Rightarrow> nat" where "right_child i = 2 * i + 2"

definition set_dl :: "cpudl_item list \<Rightarrow> nat \<Rightarrow> u64 \<Rightarrow> cpudl_item list option" where
  "set_dl els i d = do { e \<leftarrow> arr_get els i; arr_set els i (e\<lparr>item_dl := d\<rparr>) }"

definition set_cpu :: "cpudl_item list \<Rightarrow> nat \<Rightarrow> nat \<Rightarrow> cpudl_item list option" where
  "set_cpu els i c = do { e \<leftarrow> arr_get els i; arr_set els i (e\<lparr>item_cpu := c\<rparr>) }"

definition set_idx :: "cpudl_item list \<Rightarrow> nat \<Rightarrow> int \<Rightarrow> cpudl_item list option" where
  "set_idx els c i = do { e \<leftarrow> arr_get els c; arr_set els c (e\<lparr>item_idx := i\<rparr>) }"

text \<open>A CPU and its deadline move to position \<open>i\<close>, and the CPU's index follows.\<close>

definition pull :: "cpudl_item list \<Rightarrow> nat \<Rightarrow> nat \<Rightarrow> u64 \<Rightarrow> cpudl_item list option" where
  "pull els i c d = do {
     els \<leftarrow> set_cpu els i c;
     els \<leftarrow> set_dl els i d;
     e \<leftarrow> arr_get els i;
     set_idx els (item_cpu e) (int i)
   }"

primrec heapify_down_loop :: "nat \<Rightarrow> cpudl_item list \<Rightarrow> nat \<Rightarrow> nat \<Rightarrow> u64 \<Rightarrow> (cpudl_item list \<times> nat) option" where
  "heapify_down_loop 0 els sz idx orig_dl = None" |
  "heapify_down_loop (Suc fuel) els sz idx orig_dl = do {
     let l = left_child idx;
     let r = right_child idx;
     (largest, largest_dl) \<leftarrow>
       (if l < sz then do { e \<leftarrow> arr_get els l; Some (if dl_time_before orig_dl (item_dl e) then (l, item_dl e) else (idx, orig_dl)) }
        else Some (idx, orig_dl));
     largest \<leftarrow>
       (if r < sz then do { e \<leftarrow> arr_get els r; Some (if dl_time_before largest_dl (item_dl e) then r else largest) }
        else Some largest);
     if largest = idx then Some (els, idx)
     else do {
       e \<leftarrow> arr_get els largest;
       els \<leftarrow> pull els idx (item_cpu e) (item_dl e);
       heapify_down_loop fuel els sz largest orig_dl
     }
   }"

definition cpudl_heapify_down :: "cpudl \<Rightarrow> nat \<Rightarrow> cpudl option" where
  "cpudl_heapify_down cp idx = do {
     orig \<leftarrow> arr_get (elements cp) idx;
     if left_child idx \<ge> cpudl_size cp then Some cp
     else do {
       (els, idx) \<leftarrow> heapify_down_loop (cpudl_size cp) (elements cp) (cpudl_size cp) idx (item_dl orig);
       els \<leftarrow> pull els idx (item_cpu orig) (item_dl orig);
       Some (cp\<lparr>elements := els\<rparr>)
     }
   }"

primrec heapify_up_loop :: "nat \<Rightarrow> cpudl_item list \<Rightarrow> nat \<Rightarrow> u64 \<Rightarrow> (cpudl_item list \<times> nat) option" where
  "heapify_up_loop 0 els idx orig_dl = None" |
  "heapify_up_loop (Suc fuel) els idx orig_dl = do {
     let p = parent idx;
     e \<leftarrow> arr_get els p;
     if dl_time_before orig_dl (item_dl e) then Some (els, idx)
     else do {
       els \<leftarrow> pull els idx (item_cpu e) (item_dl e);
       if p \<noteq> 0 then heapify_up_loop fuel els p orig_dl else Some (els, p)
     }
   }"

definition cpudl_heapify_up :: "cpudl \<Rightarrow> nat \<Rightarrow> cpudl option" where
  "cpudl_heapify_up cp idx = do {
     orig \<leftarrow> arr_get (elements cp) idx;
     if idx = 0 then Some cp
     else do {
       (els, idx) \<leftarrow> heapify_up_loop idx (elements cp) idx (item_dl orig);
       els \<leftarrow> pull els idx (item_cpu orig) (item_dl orig);
       Some (cp\<lparr>elements := els\<rparr>)
     }
   }"

definition cpudl_heapify :: "cpudl \<Rightarrow> nat \<Rightarrow> cpudl option" where
  "cpudl_heapify cp idx = do {
     up \<leftarrow> (if idx > 0 then do {
              p \<leftarrow> arr_get (elements cp) (parent idx);
              e \<leftarrow> arr_get (elements cp) idx;
              Some (dl_time_before (item_dl p) (item_dl e))
            } else Some False);
     if up then cpudl_heapify_up cp idx else cpudl_heapify_down cp idx
   }"

definition cpudl_maximum :: "cpudl \<Rightarrow> nat option" where
  "cpudl_maximum cp = do { e \<leftarrow> arr_get (elements cp) 0; Some (item_cpu e) }"

text \<open>
  The task enters \<^verbatim>\<open>cpudl_find\<close> with its affinity mask and its deadline; \<open>later_mask\<close> is \<open>None\<close> for a
  null pointer. The result is the return value and the mask afterwards.
\<close>

definition cpudl_find :: "bool \<Rightarrow> cpudl \<Rightarrow> cpumask \<Rightarrow> u64 \<Rightarrow> cpumask option \<Rightarrow> (bool \<times> cpumask option) option" where
  "cpudl_find const cp cpus_ptr deadline later_mask = do {
     (found, later_mask) \<leftarrow> (case later_mask of None \<Rightarrow> Some (False, None)
       | Some m \<Rightarrow> do { (any, m) \<leftarrow> cpumask_and const m (free_cpus cp) cpus_ptr; Some (any, Some m) });
     if found then Some (True, later_mask)
     else do {
       best_cpu \<leftarrow> cpudl_maximum cp;
       allowed \<leftarrow> cpumask_test_cpu best_cpu cpus_ptr;
       e \<leftarrow> arr_get (elements cp) 0;
       if allowed \<and> dl_time_before deadline (item_dl e) then
         (case later_mask of None \<Rightarrow> Some (True, None)
          | Some m \<Rightarrow> do { m \<leftarrow> cpumask_set_cpu best_cpu m; Some (True, Some m) })
       else Some (False, later_mask)
     }
   }"

definition cpudl_clear :: "cpudl \<Rightarrow> nat \<Rightarrow> cpudl option" where
  "cpudl_clear cp cpu = do {
     e \<leftarrow> arr_get (elements cp) cpu;
     let old_idx = item_idx e;
     if old_idx = IDX_INVALID then Some cp
     else do {
       bug_on (old_idx < 0 \<or> cpudl_size cp = 0);
       last \<leftarrow> arr_get (elements cp) (cpudl_size cp - 1);
       let new_cpu = item_cpu last;
       els \<leftarrow> set_dl (elements cp) (nat old_idx) (item_dl last);
       els \<leftarrow> set_cpu els (nat old_idx) new_cpu;
       els \<leftarrow> set_idx els new_cpu old_idx;
       els \<leftarrow> set_idx els cpu IDX_INVALID;
       cp \<leftarrow> cpudl_heapify (cp\<lparr>elements := els, cpudl_size := cpudl_size cp - 1\<rparr>) (nat old_idx);
       m \<leftarrow> cpumask_set_cpu cpu (free_cpus cp);
       Some (cp\<lparr>free_cpus := m\<rparr>)
     }
   }"

definition cpudl_set :: "cpudl \<Rightarrow> nat \<Rightarrow> u64 \<Rightarrow> cpudl option" where
  "cpudl_set cp cpu dl = do {
     e \<leftarrow> arr_get (elements cp) cpu;
     let old_idx = item_idx e;
     if old_idx = IDX_INVALID then do {
       let new_idx = cpudl_size cp;
       els \<leftarrow> set_dl (elements cp) new_idx dl;
       els \<leftarrow> set_cpu els new_idx cpu;
       els \<leftarrow> set_idx els cpu (int new_idx);
       cp \<leftarrow> cpudl_heapify_up (cp\<lparr>elements := els, cpudl_size := cpudl_size cp + 1\<rparr>) new_idx;
       m \<leftarrow> cpumask_clear_cpu cpu (free_cpus cp);
       Some (cp\<lparr>free_cpus := m\<rparr>)
     } else do {
       bug_on (old_idx < 0);
       els \<leftarrow> set_dl (elements cp) (nat old_idx) dl;
       cpudl_heapify (cp\<lparr>elements := els\<rparr>) (nat old_idx)
     }
   }"

definition cpudl_set_freecpu :: "cpudl \<Rightarrow> nat \<Rightarrow> cpudl option" where
  "cpudl_set_freecpu cp cpu = do { m \<leftarrow> cpumask_set_cpu cpu (free_cpus cp); Some (cp\<lparr>free_cpus := m\<rparr>) }"

definition cpudl_clear_freecpu :: "cpudl \<Rightarrow> nat \<Rightarrow> cpudl option" where
  "cpudl_clear_freecpu cp cpu = do { m \<leftarrow> cpumask_clear_cpu cpu (free_cpus cp); Some (cp\<lparr>free_cpus := m\<rparr>) }"

primrec invalidate_all :: "nat list \<Rightarrow> cpudl_item list \<Rightarrow> cpudl_item list option" where
  "invalidate_all [] els = Some els" |
  "invalidate_all (i # is) els = do { els \<leftarrow> set_idx els i IDX_INVALID; invalidate_all is els }"

definition cpudl_init :: "bool \<Rightarrow> cpu_masks \<Rightarrow> bool \<Rightarrow> bool \<Rightarrow> (errno + cpudl) option" where
  "cpudl_init const s elements_alloc mask_alloc =
     (if \<not> elements_alloc then Some (Inl ENOMEM)
      else if \<not> mask_alloc then Some (Inl ENOMEM)
      else do {
        possible \<leftarrow> for_each_cpu const (cpu_possible_mask s);
        els \<leftarrow> invalidate_all possible (replicate nr_cpu_ids \<lparr>item_dl = 0, item_cpu = 0, item_idx = 0\<rparr>);
        Some (Inr \<lparr>cpudl_size = 0, free_cpus = CPU_BITS_NONE, elements = els\<rparr>)
      })"

end
