(* ===== verification/Heap_Order.thy ===== *)
theory Heap_Order
  imports Prelude "HOL-Library.Multiset"
begin

section \<open>Array heaps\<close>

text \<open>
  Sifting in an array heap as textbook exchanges, for any comparison that agrees with a key on the
  elements at hand: what an element that is out of place needs above and below it, and that sifting up
  or down then restores the heap order. The children of position \<open>i\<close> are \<open>2 i + 1\<close> and \<open>2 i + 2\<close>.
\<close>

definition up :: "nat \<Rightarrow> nat" where "up i = (i - 1) div 2"

definition swap :: "'a list \<Rightarrow> nat \<Rightarrow> nat \<Rightarrow> 'a list" where "swap H i j = H[i := H ! j, j := H ! i]"

lemma swap_length [simp]: "length (swap H i j) = length H"
  by (simp add: swap_def)

lemma swap_mset [simp]: "i < length H \<Longrightarrow> j < length H \<Longrightarrow> mset (swap H i j) = mset H"
  by (simp add: swap_def mset_swap)

lemma swap_nth: "i < length H \<Longrightarrow> j < length H \<Longrightarrow>
    swap H i j ! k = (if k = i then H ! j else if k = j then H ! i else H ! k)"
  by (auto simp: swap_def nth_list_update)

definition largest_of :: "('a \<Rightarrow> 'a \<Rightarrow> bool) \<Rightarrow> 'a list \<Rightarrow> nat \<Rightarrow> nat" where
  "largest_of before H i =
     (let m = (if 2 * i + 1 < length H \<and> before (H ! i) (H ! (2 * i + 1)) then 2 * i + 1 else i)
      in if 2 * i + 2 < length H \<and> before (H ! m) (H ! (2 * i + 2)) then 2 * i + 2 else m)"

lemma largest_of_range:
  "largest_of before H i = i \<or> (largest_of before H i = 2 * i + 1 \<and> 2 * i + 1 < length H) \<or>
    (largest_of before H i = 2 * i + 2 \<and> 2 * i + 2 < length H)"
  unfolding largest_of_def Let_def by (simp split: if_split)

lemma largest_of_bounds:
  "largest_of before H i \<noteq> i \<Longrightarrow> i < largest_of before H i \<and> largest_of before H i < length H \<and> up (largest_of before H i) = i"
  using largest_of_range [of before H i] by (auto simp: up_def)

function sift_down :: "('a \<Rightarrow> 'a \<Rightarrow> bool) \<Rightarrow> 'a list \<Rightarrow> nat \<Rightarrow> 'a list" where
  "sift_down before H i = (let m = largest_of before H i in if m = i then H else sift_down before (swap H i m) m)"
  by pat_completeness auto
termination
proof (relation "measure (\<lambda>(b, H, i). length H - i)")
  fix b :: "'a \<Rightarrow> 'a \<Rightarrow> bool" and H i m
  assume "m = largest_of b H i" "m \<noteq> i"
  then show "((b, swap H i m, m), b, H, i) \<in> measure (\<lambda>(b, H, i). length H - i)"
    using largest_of_bounds [of b H i] by auto
qed simp

function sift_up :: "('a \<Rightarrow> 'a \<Rightarrow> bool) \<Rightarrow> 'a list \<Rightarrow> nat \<Rightarrow> 'a list" where
  "sift_up before H i = (if i = 0 \<or> before (H ! i) (H ! up i) then H else sift_up before (swap H i (up i)) (up i))"
  by pat_completeness auto
termination by (relation "measure (\<lambda>(b, H, i). i)") (auto simp: up_def)

declare sift_down.simps [simp del] sift_up.simps [simp del]

lemma sift_down_mset: "i < length H \<Longrightarrow> mset (sift_down before H i) = mset H"
proof (induction before H i rule: sift_down.induct)
  case (1 before H i)
  have m: "largest_of before H i < length H"
    using "1.prems" largest_of_bounds [of before H i] by (cases "largest_of before H i = i") auto
  then show ?case using "1.IH" [OF refl] "1.prems"
    by (subst sift_down.simps) (simp add: Let_def)
qed

lemma sift_up_mset: "i < length H \<Longrightarrow> mset (sift_up before H i) = mset H"
proof (induction before H i rule: sift_up.induct)
  case (1 before H i)
  have "up i < length H" using "1.prems" by (simp add: up_def)
  then show ?case using 1 by (subst sift_up.simps) simp
qed

lemma sift_length [simp]:
  "i < length H \<Longrightarrow> length (sift_down before H i) = length H" "i < length H \<Longrightarrow> length (sift_up before H i) = length H"
  using sift_down_mset sift_up_mset by (metis size_mset)+

locale keyed_order =
  fixes before :: "'a \<Rightarrow> 'a \<Rightarrow> bool" and key :: "'a \<Rightarrow> nat" and valid :: "'a \<Rightarrow> bool"
  assumes before_key: "valid a \<Longrightarrow> valid b \<Longrightarrow> before a b \<longleftrightarrow> key a < key b"
begin

definition heap :: "'a list \<Rightarrow> bool" where
  "heap H \<longleftrightarrow> (\<forall>j. 0 < j \<and> j < length H \<longrightarrow> key (H ! j) \<le> key (H ! up j))"

text \<open>Every edge is in order except those at \<open>i\<close>, and what is below \<open>i\<close> is in order with what is above.\<close>

definition heap_around :: "'a list \<Rightarrow> nat \<Rightarrow> bool" where
  "heap_around H i \<longleftrightarrow>
     (\<forall>j. 0 < j \<and> j < length H \<and> j \<noteq> i \<and> up j \<noteq> i \<longrightarrow> key (H ! j) \<le> key (H ! up j)) \<and>
     (\<forall>j. 0 < i \<and> 0 < j \<and> j < length H \<and> up j = i \<longrightarrow> key (H ! j) \<le> key (H ! up i))"

text \<open>The same for the part of the array whose parents are at position \<open>k\<close> or later.\<close>

definition heap_from :: "nat \<Rightarrow> 'a list \<Rightarrow> bool" where
  "heap_from k H \<longleftrightarrow> (\<forall>j. 0 < j \<and> j < length H \<and> k \<le> up j \<longrightarrow> key (H ! j) \<le> key (H ! up j))"

definition around_from :: "nat \<Rightarrow> 'a list \<Rightarrow> nat \<Rightarrow> bool" where
  "around_from k H i \<longleftrightarrow>
     (\<forall>j. 0 < j \<and> j < length H \<and> k \<le> up j \<and> j \<noteq> i \<and> up j \<noteq> i \<longrightarrow> key (H ! j) \<le> key (H ! up j)) \<and>
     (\<forall>j. 0 < i \<and> k \<le> up i \<and> 0 < j \<and> j < length H \<and> up j = i \<longrightarrow> key (H ! j) \<le> key (H ! up i))"

definition above_from :: "nat \<Rightarrow> 'a list \<Rightarrow> nat \<Rightarrow> bool" where
  "above_from k H i \<longleftrightarrow> (0 < i \<and> k \<le> up i \<longrightarrow> key (H ! i) \<le> key (H ! up i))"

definition above_ok :: "'a list \<Rightarrow> nat \<Rightarrow> bool" where
  "above_ok H i \<longleftrightarrow> (0 < i \<longrightarrow> key (H ! i) \<le> key (H ! up i))"

definition below_ok :: "'a list \<Rightarrow> nat \<Rightarrow> bool" where
  "below_ok H i \<longleftrightarrow> (\<forall>j. 0 < j \<and> j < length H \<and> up j = i \<longrightarrow> key (H ! j) \<le> key (H ! i))"

lemma heap_from_0: "heap H \<longleftrightarrow> heap_from 0 H" "heap_around H i \<longleftrightarrow> around_from 0 H i" "above_ok H i \<longleftrightarrow> above_from 0 H i"
  by (simp_all add: heap_def heap_from_def heap_around_def around_from_def above_ok_def above_from_def)

lemma heap_fromI: "around_from k H i \<Longrightarrow> above_from k H i \<Longrightarrow> below_ok H i \<Longrightarrow> heap_from k H"
  unfolding heap_from_def around_from_def above_from_def below_ok_def by metis

lemma around_start: "heap_from (Suc k) H \<Longrightarrow> around_from k H k \<and> above_from k H k"
  by (auto simp: heap_from_def around_from_def above_from_def up_def)

lemma heapI: "heap_around H i \<Longrightarrow> above_ok H i \<Longrightarrow> below_ok H i \<Longrightarrow> heap H"
  unfolding heap_def heap_around_def above_ok_def below_ok_def by metis

lemma heap_around: "i < length H \<Longrightarrow> heap H \<Longrightarrow> heap_around H i"
proof -
  assume "i < length H" and h: "heap H"
  then have "key (H ! j) \<le> key (H ! up i)" if "0 < i" "0 < j" "j < length H" "up j = i" for j
    using that unfolding heap_def by (metis order_trans)
  with h show ?thesis unfolding heap_def heap_around_def by blast
qed

text \<open>Replacing the element at \<open>i\<close> keeps everything around it.\<close>

lemma heap_around_update: "heap_around H i \<Longrightarrow> heap_around (H[i := x]) i"
proof -
  assume "heap_around H i"
  moreover have "up i \<noteq> i" if "0 < i" using that by (simp add: up_def)
  moreover have "j \<noteq> i" if "up j = i" "0 < j" for j using that by (auto simp: up_def)
  ultimately show ?thesis unfolding heap_around_def by (metis length_list_update nth_list_update_neq)
qed

lemma heap_max: "heap H \<Longrightarrow> j < length H \<Longrightarrow> key (H ! j) \<le> key (H ! 0)"
proof (induction j rule: less_induct)
  case (less j)
  show ?case
  proof (cases "j = 0")
    case False
    then have "up j < j" by (simp add: up_def)
    then have "key (H ! up j) \<le> key (H ! 0)" using less by auto
    moreover have "key (H ! j) \<le> key (H ! up j)" using False less.prems by (simp add: heap_def)
    ultimately show ?thesis by simp
  qed simp
qed

lemma largest_max:
  assumes "\<forall>x\<in>set H. valid x" "i < length H"
  shows "key (H ! i) \<le> key (H ! largest_of before H i)"
    "0 < j \<Longrightarrow> j < length H \<Longrightarrow> up j = i \<Longrightarrow> key (H ! j) \<le> key (H ! largest_of before H i)"
proof -
  let ?l = "2 * i + 1" and ?r = "2 * i + 2"
  define m where "m = (if ?l < length H \<and> before (H ! i) (H ! ?l) then ?l else i)"
  have v: "valid (H ! k)" if "k < length H" for k using that assms(1) by simp
  have m: "m < length H" "key (H ! i) \<le> key (H ! m)" "?l < length H \<Longrightarrow> key (H ! ?l) \<le> key (H ! m)"
    using assms(2) v by (auto simp: m_def before_key)
  have big: "key (H ! m) \<le> key (H ! largest_of before H i)"
      "?r < length H \<Longrightarrow> key (H ! ?r) \<le> key (H ! largest_of before H i)"
    using m(1) v unfolding largest_of_def Let_def m_def [symmetric] by (auto simp: before_key)
  then show "key (H ! i) \<le> key (H ! largest_of before H i)" using m(2) by simp
  assume "0 < j" "j < length H" "up j = i"
  then have "j = ?l \<or> j = ?r" by (auto simp: up_def)
  then show "key (H ! j) \<le> key (H ! largest_of before H i)"
    using \<open>j < length H\<close> m(3) big by auto
qed

lemma swap_down:
  assumes "\<forall>x\<in>set H. valid x" "i < length H" "k \<le> i" "around_from k H i" "m = largest_of before H i" "m \<noteq> i"
  shows "around_from k (swap H i m) m \<and> above_from k (swap H i m) m"
proof -
  have m: "i < m" "m < length H" "up m = i" using largest_of_bounds [of before H i] assms(5,6) by auto
  note sw = swap_nth [OF assms(2) m(2)]
  note top = largest_max [OF assms(1,2), folded assms(5)]
  have "key (swap H i m ! j) \<le> key (swap H i m ! up j)"
    if j: "0 < j" "j < length H" "k \<le> up j" "j \<noteq> m" "up j \<noteq> m" for j
  proof (cases "j = i")
    case True
    then have "up j \<noteq> i" using j by (simp add: up_def)
    then show ?thesis using True j m assms(4) unfolding around_from_def by (simp add: sw)
  next
    case False
    then show ?thesis using j top(2) [of j] assms(4) unfolding around_from_def by (auto simp: sw)
  qed
  moreover have "key (swap H i m ! j) \<le> key (swap H i m ! up m)" if j: "0 < j" "j < length H" "up j = m" for j
  proof -
    have "j \<noteq> i" "j \<noteq> m" using j m by (auto simp: up_def)
    moreover have "key (H ! j) \<le> key (H ! m)" using j m assms(3,4,6) \<open>j \<noteq> i\<close> unfolding around_from_def by auto
    ultimately show ?thesis using m by (simp add: sw)
  qed
  ultimately show ?thesis using top(1) m by (auto simp: around_from_def above_from_def sw)
qed

lemma sift_down_from:
  "\<forall>x\<in>set H. valid x \<Longrightarrow> i < length H \<Longrightarrow> k \<le> i \<Longrightarrow> around_from k H i \<Longrightarrow> above_from k H i \<Longrightarrow>
   heap_from k (sift_down before H i)"
proof (induction "length H - i" arbitrary: H i rule: less_induct)
  case less
  let ?m = "largest_of before H i"
  show ?case
  proof (cases "?m = i")
    case True
    then have "below_ok H i" using largest_max(2) [OF less.prems(1,2)] by (simp add: below_ok_def)
    then have "heap_from k H" using less.prems by (intro heap_fromI)
    then show ?thesis using True by (subst sift_down.simps) simp
  next
    case False
    have m: "i < ?m" "?m < length H" using largest_of_bounds [OF False] by simp_all
    have "\<forall>x\<in>set (swap H i ?m). valid x" using less.prems(1,2) m by (metis swap_mset mset_eq_setD)
    then have "heap_from k (sift_down before (swap H i ?m) ?m)"
      using m less.prems(3) swap_down [OF less.prems(1-4) refl False] by (intro less.hyps) auto
    then show ?thesis using False by (subst sift_down.simps) (simp add: Let_def)
  qed
qed

lemma sift_down_heap:
  "\<forall>x\<in>set H. valid x \<Longrightarrow> i < length H \<Longrightarrow> heap_around H i \<Longrightarrow> above_ok H i \<Longrightarrow> heap (sift_down before H i)"
  unfolding heap_from_0 by (rule sift_down_from) simp_all

lemma swap_up:
  assumes "i < length H" "0 < i" "heap_around H i" "below_ok H i" "key (H ! up i) \<le> key (H ! i)"
  shows "heap_around (swap H i (up i)) (up i) \<and> below_ok (swap H i (up i)) (up i)"
proof -
  let ?p = "up i" and ?K = "swap H i (up i)"
  have p: "?p < i" "?p < length H" using assms(1,2) by (auto simp: up_def)
  note sw = swap_nth [OF assms(1) p(2)]
  have edge: "key (H ! j) \<le> key (H ! up j)" if "0 < j" "j < length H" "j \<noteq> i" "up j \<noteq> i" for j
    using that assms(3) by (simp add: heap_around_def)
  have kids: "key (H ! j) \<le> key (H ! ?p)" if "0 < j" "j < length H" "up j = i \<or> (up j = ?p \<and> j \<noteq> i)" for j
    using that assms(2,3) p edge [of j] by (auto simp: heap_around_def)
  have "key (?K ! j) \<le> key (?K ! up j)" if "0 < j" "j < length H" "j \<noteq> ?p" "up j \<noteq> ?p" for j
    using that edge [of j] kids [of j] by (auto simp: sw)
  moreover have "key (?K ! j) \<le> key (?K ! up ?p)" if "0 < ?p" "0 < j" "j < length H" "up j = ?p" for j
  proof -
    have pp: "up ?p < ?p" using that(1) by (simp add: up_def)
    then have "key (H ! ?p) \<le> key (H ! up ?p)" using p that(1) by (intro edge) auto
    then show ?thesis using that kids [of j] p pp by (auto simp: sw)
  qed
  moreover have "key (?K ! j) \<le> key (?K ! ?p)" if "0 < j" "j < length H" "up j = ?p" for j
  proof -
    have "j \<noteq> ?p" using that by (auto simp: up_def)
    then show ?thesis using that kids [of j] assms(5) p by (auto simp: sw)
  qed
  ultimately show ?thesis by (auto simp: heap_around_def below_ok_def)
qed

lemma sift_up_heap:
  "\<forall>x\<in>set H. valid x \<Longrightarrow> i < length H \<Longrightarrow> heap_around H i \<Longrightarrow> below_ok H i \<Longrightarrow> heap (sift_up before H i)"
proof (induction i arbitrary: H rule: less_induct)
  case (less i)
  have v: "i \<noteq> 0 \<Longrightarrow> before (H ! i) (H ! up i) \<longleftrightarrow> key (H ! i) < key (H ! up i)"
    using less.prems(1,2) by (intro before_key) (auto simp: up_def)
  show ?case
  proof (cases "i = 0 \<or> before (H ! i) (H ! up i)")
    case True
    then have "above_ok H i" using v by (auto simp: above_ok_def)
    then have "heap H" using less.prems by (intro heapI)
    then show ?thesis using True by (subst sift_up.simps) auto
  next
    case False
    have p: "up i < i" "up i < length H" using False less.prems(2) by (auto simp: up_def)
    have "\<forall>x\<in>set (swap H i (up i)). valid x" using less.prems(1,2) p by (metis swap_mset mset_eq_setD)
    then have "heap (sift_up before (swap H i (up i)) (up i))"
      using p less.prems(2) False v swap_up [OF less.prems(2) _ less.prems(3,4)] by (intro less.IH) auto
    then show ?thesis using False by (subst sift_up.simps) auto
  qed
qed

text \<open>Repairing the order after the element at \<open>i\<close> was replaced.\<close>

definition sift :: "'a list \<Rightarrow> nat \<Rightarrow> 'a list" where
  "sift H i = (if 0 < i \<and> before (H ! up i) (H ! i) then sift_up before H i else sift_down before H i)"

lemma sift_heap:
  assumes "\<forall>x\<in>set H. valid x" "i < length H" "heap_around H i"
  shows "heap (sift H i)"
proof -
  have v: "0 < i \<Longrightarrow> before (H ! up i) (H ! i) \<longleftrightarrow> key (H ! up i) < key (H ! i)"
    using assms(1,2) by (intro before_key) (auto simp: up_def)
  show ?thesis
  proof (cases "0 < i \<and> before (H ! up i) (H ! i)")
    case True
    have "below_ok H i" using True v assms(3) unfolding below_ok_def heap_around_def by fastforce
    then show ?thesis using True sift_up_heap [OF assms] by (simp add: sift_def)
  next
    case False
    have "above_ok H i" using False v by (auto simp: above_ok_def)
    then show ?thesis using False sift_down_heap [OF assms] by (auto simp: sift_def)
  qed
qed

text \<open>Appending an element and removing the last one.\<close>

lemma append_around: "heap H \<Longrightarrow> heap_around (H @ [x]) (length H) \<and> below_ok (H @ [x]) (length H)"
proof -
  assume h: "heap H"
  have small: "up j < length H" "up j \<noteq> length H" if "0 < j" "j < Suc (length H)" for j
    using that by (auto simp: up_def)
  have "key ((H @ [x]) ! j) \<le> key ((H @ [x]) ! up j)" if "0 < j" "j < Suc (length H)" "j \<noteq> length H" for j
    using h that small [of j] by (simp add: heap_def nth_append)
  with small show ?thesis by (fastforce simp: heap_around_def below_ok_def)
qed

lemma heap_butlast: "heap H \<Longrightarrow> heap (butlast H)"
  by (auto simp: heap_def nth_butlast up_def)

end

end
