(* ===== verification/Cpudeadline_Correct.thy ===== *)
theory Cpudeadline_Correct
  imports Cpudeadline Heap_Order
begin

section \<open>The deadline heap is a map from CPUs to deadlines\<close>

text \<open>
  The heap is related to the list of its pairs of CPU and deadline. The loops of the source move a hole
  through the array and write the saved element at the end; on the list of pairs this is sifting by
  exchanges. Deadlines are compared by the sign of their difference, which is an order on every window
  of \<open>2 ^ 63\<close> nanoseconds: the results hold for deadlines in one such window.
\<close>

subsection \<open>The order of deadlines\<close>

definition dl_key :: "u64 \<Rightarrow> u64 \<Rightarrow> nat" where "dl_key t d = unat (d - t)"

definition in_window :: "u64 \<Rightarrow> u64 \<Rightarrow> bool" where "in_window t d \<longleftrightarrow> dl_key t d < 2 ^ 63"

definition dl_before :: "nat \<times> u64 \<Rightarrow> nat \<times> u64 \<Rightarrow> bool" where
  "dl_before h k \<longleftrightarrow> dl_time_before (snd h) (snd k)"

lemma dl_time_before_key: "in_window t a \<Longrightarrow> in_window t b \<Longrightarrow> dl_time_before a b \<longleftrightarrow> dl_key t a < dl_key t b"
proof -
  assume w: "in_window t a" "in_window t b"
  have e: "a - b = word_of_int (int (dl_key t a) - int (dl_key t b))"
    by (simp add: dl_key_def flip: wi_hom_sub)
  have "sint (a - b) = int (dl_key t a) - int (dl_key t b)"
    unfolding e using w by (subst sint_word_of_int_fits) (simp_all add: in_window_def)
  then show ?thesis by (simp add: dl_time_before_def)
qed

interpretation dlh: keyed_order dl_before "\<lambda>h. dl_key t (snd h)" "\<lambda>h. in_window t (snd h)" for t :: u64
  by unfold_locales (simp add: dl_before_def dl_time_before_key)

subsection \<open>The array and the list of its pairs\<close>

text \<open>\<open>holds els H k\<close>: the array represents \<open>H\<close>, apart from position \<open>k\<close> and the index of the CPU there.\<close>

definition holds :: "cpudl_item list \<Rightarrow> (nat \<times> u64) list \<Rightarrow> nat \<Rightarrow> bool" where
  "holds els H k \<longleftrightarrow> length H \<le> length els \<and> distinct (map fst H) \<and> (\<forall>h\<in>set H. fst h < length els) \<and>
     (\<forall>i<length H. i \<noteq> k \<longrightarrow> item_cpu (els ! i) = fst (H ! i) \<and> item_dl (els ! i) = snd (H ! i) \<and>
        item_idx (els ! fst (H ! i)) = int i) \<and>
     (\<forall>c<length els. c \<notin> fst ` set H \<longrightarrow> item_idx (els ! c) = IDX_INVALID)"

definition represents :: "cpudl_item list \<Rightarrow> (nat \<times> u64) list \<Rightarrow> bool" where
  "represents els H \<longleftrightarrow> holds els H (length H)"

lemma represents_holds: "represents els H \<Longrightarrow> holds els H k"
  by (auto simp: represents_def holds_def)

definition pulled :: "cpudl_item list \<Rightarrow> nat \<Rightarrow> nat \<Rightarrow> u64 \<Rightarrow> cpudl_item list" where
  "pulled els i c d = (let els = els[i := (els ! i)\<lparr>item_cpu := c, item_dl := d\<rparr>] in els[c := (els ! c)\<lparr>item_idx := int i\<rparr>])"

lemma pull_eq: "i < length els \<Longrightarrow> c < length els \<Longrightarrow> pull els i c d = Some (pulled els i c d)"
  by (simp add: pull_def set_cpu_def set_dl_def set_idx_def array_simps pulled_def Let_def)

lemma pulled_simps [simp]:
  "length (pulled els i c d) = length els"
  "i < length els \<Longrightarrow> c < length els \<Longrightarrow> item_cpu (pulled els i c d ! j) = (if j = i then c else item_cpu (els ! j))"
  "i < length els \<Longrightarrow> c < length els \<Longrightarrow> item_dl (pulled els i c d ! j) = (if j = i then d else item_dl (els ! j))"
  "i < length els \<Longrightarrow> c < length els \<Longrightarrow> item_idx (pulled els i c d ! j) = (if j = c then int i else item_idx (els ! j))"
  by (auto simp: pulled_def Let_def nth_list_update)

lemma fst_distinct: "distinct (map fst H) \<Longrightarrow> i < length H \<Longrightarrow> j < length H \<Longrightarrow> fst (H ! i) = fst (H ! j) \<longleftrightarrow> i = j"
  using nth_eq_iff_index_eq [of "map fst H" i j] by simp

lemma fill_hole:
  assumes "holds els H k" "k < length H"
  shows "pull els k (fst (H ! k)) (snd (H ! k)) = Some (pulled els k (fst (H ! k)) (snd (H ! k)))"
    "represents (pulled els k (fst (H ! k)) (snd (H ! k))) H"
proof -
  have k: "k < length els" "fst (H ! k) < length els" using assms by (auto simp: holds_def)
  then show "pull els k (fst (H ! k)) (snd (H ! k)) = Some (pulled els k (fst (H ! k)) (snd (H ! k)))" by (rule pull_eq)
  have "fst (H ! i) = fst (H ! k) \<longleftrightarrow> i = k" if "i < length H" for i
    using fst_distinct [of H i k] that assms by (simp add: holds_def)
  moreover have "fst (H ! k) \<in> fst ` set H" using assms(2) by simp
  ultimately show "represents (pulled els k (fst (H ! k)) (snd (H ! k))) H"
    using assms k by (auto simp: represents_def holds_def)
qed

lemma move_hole:
  assumes "holds els H k" "k < length H" "m < length H" "m \<noteq> k"
  shows "pull els k (fst (H ! m)) (snd (H ! m)) = Some (pulled els k (fst (H ! m)) (snd (H ! m)))"
    "holds (pulled els k (fst (H ! m)) (snd (H ! m))) (swap H k m) m"
proof -
  have k: "k < length els" "fst (H ! m) < length els" using assms by (auto simp: holds_def)
  then show "pull els k (fst (H ! m)) (snd (H ! m)) = Some (pulled els k (fst (H ! m)) (snd (H ! m)))" by (rule pull_eq)
  have mset: "mset (swap H k m) = mset H" using assms by simp
  then have s: "set (swap H k m) = set H" by (rule mset_eq_setD)
  have d: "distinct (map fst (swap H k m))"
    using assms(1) mset unfolding holds_def by (metis mset_map mset_eq_imp_distinct_iff)
  have "fst (H ! i) = fst (H ! m) \<longleftrightarrow> i = m" if "i < length H" for i
    using fst_distinct [of H i m] that assms by (simp add: holds_def)
  moreover have "fst (H ! m) \<in> fst ` set H" using assms(3) by simp
  ultimately show "holds (pulled els k (fst (H ! m)) (snd (H ! m))) (swap H k m) m"
    using assms k d by (auto simp: holds_def s swap_nth)
qed

lemma holds_get:
  "holds els H k \<Longrightarrow> i < length H \<Longrightarrow> arr_get els i = Some (els ! i)"
  "holds els H k \<Longrightarrow> i < length H \<Longrightarrow> i \<noteq> k \<Longrightarrow> item_dl (els ! i) = snd (H ! i) \<and> item_cpu (els ! i) = fst (H ! i)"
  by (auto simp: holds_def arr_get_def)

subsection \<open>The loops sift\<close>

lemma down_loop_step:
  assumes "holds els H k" "k < length H"
  defines "m \<equiv> largest_of dl_before H k"
  shows "heapify_down_loop (Suc fuel) els (length H) k (snd (H ! k)) =
    (if m = k then Some (els, k)
     else heapify_down_loop fuel (pulled els k (fst (H ! m)) (snd (H ! m))) (length H) m (snd (H ! k)))"
proof -
  have l: "arr_get els (left_child k) = Some (els ! left_child k)" "item_dl (els ! left_child k) = snd (H ! left_child k)"
    if "left_child k < length H" using that holds_get [OF assms(1) that] by (auto simp: left_child_def)
  have r: "arr_get els (right_child k) = Some (els ! right_child k)" "item_dl (els ! right_child k) = snd (H ! right_child k)"
    if "right_child k < length H" using that holds_get [OF assms(1) that] by (auto simp: right_child_def)
  let ?m1 = "if left_child k < length H \<and> dl_before (H ! k) (H ! left_child k) then left_child k else k"
  have m: "m = (if right_child k < length H \<and> dl_before (H ! ?m1) (H ! right_child k) then right_child k else ?m1)"
    by (simp add: m_def largest_of_def Let_def left_child_def right_child_def)
  have first: "(if left_child k < length H then do { e \<leftarrow> arr_get els (left_child k);
        Some (if dl_time_before (snd (H ! k)) (item_dl e) then (left_child k, item_dl e) else (k, snd (H ! k))) }
      else Some (k, snd (H ! k))) = Some (?m1, snd (H ! ?m1))"
    using l by (simp add: dl_before_def)
  have second: "(if right_child k < length H then do { e \<leftarrow> arr_get els (right_child k);
        Some (if dl_time_before (snd (H ! ?m1)) (item_dl e) then right_child k else ?m1) } else Some ?m1) = Some m"
    using r by (simp add: dl_before_def m)
  have third: "arr_get els m = Some (els ! m)" "item_cpu (els ! m) = fst (H ! m)" "item_dl (els ! m) = snd (H ! m)"
      "pull els k (fst (H ! m)) (snd (H ! m)) = Some (pulled els k (fst (H ! m)) (snd (H ! m)))" if "m \<noteq> k"
  proof -
    have "m < length H" using largest_of_bounds [of dl_before H k] that by (simp add: m_def)
    then show "arr_get els m = Some (els ! m)" "item_cpu (els ! m) = fst (H ! m)" "item_dl (els ! m) = snd (H ! m)"
      "pull els k (fst (H ! m)) (snd (H ! m)) = Some (pulled els k (fst (H ! m)) (snd (H ! m)))"
      using holds_get [OF assms(1)] move_hole(1) [OF assms(1,2)] that by auto
  qed
  show ?thesis
    unfolding heapify_down_loop.simps Let_def first Option.bind.bind_lunit prod.case second
    using third by (cases "m = k") simp_all
qed

lemma down_loop:
  "holds els H k \<Longrightarrow> k < length H \<Longrightarrow> length H - k \<le> fuel \<Longrightarrow>
   \<exists>els' k'. heapify_down_loop fuel els (length H) k (snd (H ! k)) = Some (els', k') \<and> k' < length H \<and>
     length els' = length els \<and> holds els' (sift_down dl_before H k) k' \<and> sift_down dl_before H k ! k' = H ! k"
proof (induction fuel arbitrary: els H k)
  case (Suc fuel)
  let ?m = "largest_of dl_before H k"
  show ?case
  proof (cases "?m = k")
    case True
    then have "sift_down dl_before H k = H" by (subst sift_down.simps) simp
    then show ?thesis using Suc.prems down_loop_step [OF Suc.prems(1,2), of fuel] True by simp
  next
    case False
    let ?H = "swap H k ?m"
    have m: "k < ?m" "?m < length H" using largest_of_bounds [OF False] by simp_all
    have at: "?H ! ?m = H ! k" using m Suc.prems(2) by (simp add: swap_nth)
    have "sift_down dl_before H k = sift_down dl_before ?H ?m"
      using False by (subst sift_down.simps) (simp add: Let_def)
    then show ?thesis
      using Suc.IH [OF move_hole(2) [OF Suc.prems(1,2) m(2)]] down_loop_step [OF Suc.prems(1,2), of fuel] False m Suc.prems(3) at
      by simp
  qed
qed simp

lemma up_loop:
  "holds els H k \<Longrightarrow> 0 < k \<Longrightarrow> k < length H \<Longrightarrow> k \<le> fuel \<Longrightarrow>
   \<exists>els' k'. heapify_up_loop fuel els k (snd (H ! k)) = Some (els', k') \<and> k' < length H \<and>
     length els' = length els \<and> holds els' (sift_up dl_before H k) k' \<and> sift_up dl_before H k ! k' = H ! k"
proof (induction fuel arbitrary: els H k)
  case (Suc fuel)
  let ?p = "up k" and ?H = "swap H k (up k)"
  have p: "?p < k" "?p < length H" "parent k = ?p" using Suc.prems(2,3) by (auto simp: up_def parent_def)
  have e: "arr_get els ?p = Some (els ! ?p)" "item_dl (els ! ?p) = snd (H ! ?p)" "item_cpu (els ! ?p) = fst (H ! ?p)"
    using holds_get [OF Suc.prems(1) p(2)] p(1) by auto
  note move = move_hole [OF Suc.prems(1,3) p(2)]
  have at: "?H ! ?p = H ! k" using p Suc.prems(3) by (simp add: swap_nth)
  show ?case
  proof (cases "dl_before (H ! k) (H ! ?p)")
    case True
    then have "sift_up dl_before H k = H" by (subst sift_up.simps) simp
    then show ?thesis using Suc.prems True e p(3) by (simp flip: dl_before_def)
  next
    case False
    then have s: "sift_up dl_before H k = sift_up dl_before ?H ?p"
      using Suc.prems(2) by (subst sift_up.simps) simp
    have ne: "?p \<noteq> k" using p(1) by simp
    have step: "heapify_up_loop (Suc fuel) els k (snd (H ! k)) =
        (if ?p \<noteq> 0 then heapify_up_loop fuel (pulled els k (fst (H ! ?p)) (snd (H ! ?p))) ?p (snd (H ! k))
         else Some (pulled els k (fst (H ! ?p)) (snd (H ! ?p)), ?p))"
      using False e move(1) [OF ne] p(3) by (simp add: Let_def flip: dl_before_def)
    show ?thesis
    proof (cases "?p = 0")
      case True
      then have "sift_up dl_before ?H ?p = ?H" by (subst sift_up.simps) simp
      then show ?thesis unfolding step s using True p(2) move(2) [OF ne] at by (metis (no_types) pulled_simps(1))
    next
      case nz: False
      then show ?thesis
        unfolding step s using Suc.IH [OF move(2) [OF ne]] p Suc.prems(3,4) at by simp
    qed
  qed
qed simp

text \<open>The three repair functions on the structure.\<close>

lemma heapify_start:
  assumes "represents els H" "k < length H"
  shows "arr_get els k = Some (els ! k)" "item_dl (els ! k) = snd (H ! k)" "item_cpu (els ! k) = fst (H ! k)"
  using assms holds_get [of els H "length H" k] by (auto simp: represents_def)

lemma heapify_down_ok:
  assumes "represents (elements cp) H" "cpudl_size cp = length H" "k < length H"
  shows "\<exists>els. cpudl_heapify_down cp k = Some (cp\<lparr>elements := els\<rparr>) \<and> length els = length (elements cp) \<and>
    represents els (sift_down dl_before H k)"
proof (cases "left_child k < length H")
  case False
  then have "largest_of dl_before H k = k" by (simp add: largest_of_def left_child_def)
  then have "sift_down dl_before H k = H" by (subst sift_down.simps) simp
  moreover have "cpudl_heapify_down cp k = Some (cp\<lparr>elements := elements cp\<rparr>)"
    using False assms(2) heapify_start [OF assms(1,3)] by (simp add: cpudl_heapify_down_def)
  ultimately show ?thesis using assms(1) by (intro exI [of _ "elements cp"]) simp
next
  case True
  obtain els j where l: "heapify_down_loop (length H) (elements cp) (length H) k (snd (H ! k)) = Some (els, j)"
      "j < length H" "length els = length (elements cp)" "holds els (sift_down dl_before H k) j" "sift_down dl_before H k ! j = H ! k"
    using down_loop [OF represents_holds [OF assms(1)] assms(3), of "length H"] by auto
  then have j: "j < length (sift_down dl_before H k)" using assms(3) by simp
  note fill = fill_hole [OF l(4) j, unfolded l(5)]
  have "cpudl_heapify_down cp k = Some (cp\<lparr>elements := pulled els j (fst (H ! k)) (snd (H ! k))\<rparr>)"
    using True assms(2) heapify_start [OF assms(1,3)] l(1) fill(1) by (simp add: cpudl_heapify_down_def)
  then show ?thesis using fill(2) l(3) by auto
qed

lemma heapify_up_ok:
  assumes "represents (elements cp) H" "k < length H"
  shows "\<exists>els. cpudl_heapify_up cp k = Some (cp\<lparr>elements := els\<rparr>) \<and> length els = length (elements cp) \<and>
    represents els (sift_up dl_before H k)"
proof (cases "k = 0")
  case True
  then have "sift_up dl_before H k = H" by (subst sift_up.simps) simp
  moreover have "cpudl_heapify_up cp k = Some (cp\<lparr>elements := elements cp\<rparr>)"
    using True heapify_start [OF assms] by (simp add: cpudl_heapify_up_def)
  ultimately show ?thesis using assms(1) by (intro exI [of _ "elements cp"]) simp
next
  case False
  obtain els j where l: "heapify_up_loop k (elements cp) k (snd (H ! k)) = Some (els, j)"
      "j < length H" "length els = length (elements cp)" "holds els (sift_up dl_before H k) j" "sift_up dl_before H k ! j = H ! k"
    using up_loop [OF represents_holds [OF assms(1)] _ assms(2), of k] False by auto
  then have j: "j < length (sift_up dl_before H k)" using assms(2) by simp
  note fill = fill_hole [OF l(4) j, unfolded l(5)]
  have "cpudl_heapify_up cp k = Some (cp\<lparr>elements := pulled els j (fst (H ! k)) (snd (H ! k))\<rparr>)"
    using False heapify_start [OF assms] l(1) fill(1) by (simp add: cpudl_heapify_up_def)
  then show ?thesis using fill(2) l(3) by auto
qed

lemma heapify_ok:
  assumes "represents (elements cp) H" "cpudl_size cp = length H" "k < length H"
  shows "\<exists>els. cpudl_heapify cp k = Some (cp\<lparr>elements := els\<rparr>) \<and> length els = length (elements cp) \<and>
    represents els (keyed_order.sift dl_before H k)"
proof -
  have p: "up k < length H" "parent k = up k" using assms(3) by (auto simp: up_def parent_def)
  have "cpudl_heapify cp k = (if 0 < k \<and> dl_before (H ! up k) (H ! k) then cpudl_heapify_up cp k else cpudl_heapify_down cp k)"
    using heapify_start [OF assms(1,3)] heapify_start [OF assms(1) p(1)] p(2)
    by (simp add: cpudl_heapify_def flip: dl_before_def)
  then show ?thesis
    using heapify_up_ok [OF assms(1,3)] heapify_down_ok [OF assms] by (auto simp: dlh.sift_def)
qed

subsection \<open>The invariant and the abstract map\<close>

definition heap_list :: "cpudl \<Rightarrow> (nat \<times> u64) list" where
  "heap_list cp = map (\<lambda>e. (item_cpu e, item_dl e)) (take (cpudl_size cp) (elements cp))"

definition heap_ordered :: "u64 \<Rightarrow> (nat \<times> u64) list \<Rightarrow> bool" where
  "heap_ordered t H \<longleftrightarrow> (\<forall>h\<in>set H. in_window t (snd h)) \<and>
     (\<forall>j. 0 < j \<and> j < length H \<longrightarrow> dl_key t (snd (H ! j)) \<le> dl_key t (snd (H ! parent j)))"

definition cpudl_ok :: "u64 \<Rightarrow> cpudl \<Rightarrow> bool" where
  "cpudl_ok t cp \<longleftrightarrow> length (elements cp) = nr_cpu_ids \<and> cpudl_size cp = length (heap_list cp) \<and>
     represents (elements cp) (heap_list cp) \<and> heap_ordered t (heap_list cp) \<and> mask_ok (free_cpus cp)"

text \<open>The deadline of each CPU in the heap, read through its index.\<close>

definition deadlines :: "cpudl \<Rightarrow> nat \<rightharpoonup> u64" where
  "deadlines cp c = (if c < length (elements cp) \<and> item_idx (elements cp ! c) \<noteq> IDX_INVALID
     then Some (item_dl (elements cp ! nat (item_idx (elements cp ! c)))) else None)"

lemma heap_ordered_iff: "heap_ordered t H \<longleftrightarrow> (\<forall>h\<in>set H. in_window t (snd h)) \<and> dlh.heap t H"
  by (simp add: heap_ordered_def dlh.heap_def parent_def up_def)

lemma heap_list_eq: "represents (elements cp) H \<Longrightarrow> cpudl_size cp = length H \<Longrightarrow> heap_list cp = H"
  by (rule nth_equalityI) (auto simp: heap_list_def represents_def holds_def)

lemma cpudl_okI:
  assumes "represents (elements cp) H" "cpudl_size cp = length H" "heap_ordered t H" "length (elements cp) = nr_cpu_ids" "mask_ok (free_cpus cp)"
  shows "cpudl_ok t cp"
  using assms heap_list_eq [OF assms(1,2)] by (simp add: cpudl_ok_def)

lemma deadlines_eq:
  assumes "represents (elements cp) H" "cpudl_size cp = length H"
  shows "deadlines cp = map_of H"
proof
  fix c
  have d: "distinct (map fst H)" using assms(1) by (simp add: represents_def holds_def)
  show "deadlines cp c = map_of H c"
  proof (cases "c \<in> fst ` set H")
    case True
    then obtain i where i: "i < length H" "fst (H ! i) = c" by (auto simp: in_set_conv_nth)
    then have "(c, snd (H ! i)) \<in> set H" by (metis nth_mem prod.collapse)
    then show ?thesis using i d assms(1) by (auto simp: deadlines_def represents_def holds_def IDX_INVALID_def)
  next
    case False
    then have "map_of H c = None" by (simp add: map_of_eq_None_iff)
    then show ?thesis using False assms(1) by (auto simp: deadlines_def represents_def holds_def)
  qed
qed

lemma map_of_perm: "distinct (map fst H) \<Longrightarrow> mset K = mset H \<Longrightarrow> map_of K = map_of H"
  by (metis map_of_inject_set mset_eq_imp_distinct_iff mset_eq_setD mset_map)

lemma represents_room:
  assumes "represents els H" "c < length els" "c \<notin> fst ` set H"
  shows "length H < length els"
proof -
  have "insert c (fst ` set H) \<subseteq> {..<length els}" using assms by (auto simp: represents_def holds_def)
  then have "card (insert c (fst ` set H)) \<le> length els" by (metis card_lessThan card_mono finite_lessThan)
  moreover have "card (fst ` set H) = length H"
    using assms(1) distinct_card [of "map fst H"] by (simp add: represents_def holds_def)
  ultimately show ?thesis using assms(3) by simp
qed

lemma invalid_iff:
  assumes "represents els H" "c < length els"
  shows "item_idx (els ! c) = IDX_INVALID \<longleftrightarrow> c \<notin> fst ` set H"
    "c \<in> fst ` set H \<Longrightarrow> \<exists>i<length H. item_idx (els ! c) = int i \<and> fst (H ! i) = c"
proof -
  have in_heap: "\<exists>i<length H. item_idx (els ! c) = int i \<and> fst (H ! i) = c" if c: "c \<in> fst ` set H"
  proof -
    obtain i where "i < length H" "fst (H ! i) = c" using c by (auto simp: in_set_conv_nth)
    then show ?thesis using assms(1) by (auto simp: represents_def holds_def)
  qed
  then show "c \<in> fst ` set H \<Longrightarrow> \<exists>i<length H. item_idx (els ! c) = int i \<and> fst (H ! i) = c" .
  show "item_idx (els ! c) = IDX_INVALID \<longleftrightarrow> c \<notin> fst ` set H"
    using in_heap assms by (force simp: represents_def holds_def IDX_INVALID_def)
qed

subsection \<open>The operations\<close>

lemma represents_append:
  assumes "represents els H" "c < length els" "c \<notin> fst ` set H"
  shows "represents (pulled els (length H) c d) (H @ [(c, d)])"
proof -
  have "holds els (H @ [(c, d)]) (length H)"
    using assms represents_room [OF assms] by (auto simp: represents_def holds_def nth_append)
  from fill_hole(2) [OF this] show ?thesis by simp
qed

lemma cpudl_result:
  assumes "represents (elements cp) K" "mset K = mset H" "dlh.heap t K" "\<forall>h\<in>set H. in_window t (snd h)"
    "cpudl_size cp = length H" "length (elements cp) = nr_cpu_ids" "mask_ok (free_cpus cp)"
  shows "cpudl_ok t cp \<and> deadlines cp = map_of H"
proof
  have K: "length K = length H" "set K = set H" "distinct (map fst K)"
    using assms(1) mset_eq_length [OF assms(2)] mset_eq_setD [OF assms(2)] by (simp_all add: represents_def holds_def)
  then show "cpudl_ok t cp" using assms by (intro cpudl_okI [of cp K]) (simp_all add: heap_ordered_iff)
  show "deadlines cp = map_of H"
    using deadlines_eq [OF assms(1)] assms(2,5) K map_of_perm [of K H] by simp
qed

lemma item_commute: "e\<lparr>item_dl := d, item_cpu := c\<rparr> = e\<lparr>item_cpu := c, item_dl := d\<rparr>"
  by (cases e) simp

lemma cpudl_set_new:
  assumes "cpudl_ok t cp" "c < nr_cpu_ids" "deadlines cp c = None" "in_window t d"
  shows "\<exists>cp'. cpudl_set cp c d = Some cp' \<and> cpudl_ok t cp' \<and> deadlines cp' = (deadlines cp)(c \<mapsto> d) \<and>
    cpus (free_cpus cp') = cpus (free_cpus cp) - {c}"
proof -
  define H where "H = heap_list cp"
  let ?els = "elements cp" and ?n = "length H" and ?H = "H @ [(c, d)]"
  have cp: "represents ?els H" "cpudl_size cp = ?n" "heap_ordered t H" "length ?els = nr_cpu_ids" "mask_ok (free_cpus cp)"
    using assms(1) by (simp_all add: cpudl_ok_def H_def)
  have c: "c < length ?els" "c \<notin> fst ` set H"
    using assms(2,3) cp(4) unfolding deadlines_eq [OF cp(1,2)] by (simp_all add: map_of_eq_None_iff)
  have n: "?n < length ?els" by (rule represents_room [OF cp(1) c])
  let ?cp = "cp\<lparr>elements := pulled ?els ?n c d, cpudl_size := ?n + 1\<rparr>"
  obtain els where u: "cpudl_heapify_up ?cp ?n = Some (?cp\<lparr>elements := els\<rparr>)" "length els = nr_cpu_ids"
      "represents els (sift_up dl_before ?H ?n)"
    using heapify_up_ok [of ?cp ?H ?n] represents_append [OF cp(1) c, of d] cp(4) by auto
  obtain m where m: "cpumask_clear_cpu c (free_cpus cp) = Some m" "mask_ok m" "cpus m = cpus (free_cpus cp) - {c}"
    using mask_clear_cpu [OF cp(5), of c] assms(2) by (auto simp: nr_cpu_ids_def)
  let ?r = "?cp\<lparr>elements := els, free_cpus := m\<rparr>"
  have run: "cpudl_set cp c d = Some ?r"
    using invalid_iff(1) [OF cp(1) c(1)] c n cp(2) u(1) m(1)
    by (simp add: cpudl_set_def set_dl_def set_cpu_def set_idx_def array_simps Let_def item_commute pulled_def)
  have "dlh.heap t (sift_up dl_before ?H ?n)"
    using dlh.append_around [of t H "(c, d)"] cp(3) assms(4) by (intro dlh.sift_up_heap) (auto simp: heap_ordered_iff)
  then have "cpudl_ok t ?r \<and> deadlines ?r = map_of ((c, d) # H)"
    using u(2,3) m(2) cp(3) assms(4) sift_up_mset [of ?n ?H dl_before]
    by (intro cpudl_result [of _ "sift_up dl_before ?H ?n"]) (auto simp: heap_ordered_iff)
  with run show ?thesis using deadlines_eq [OF cp(1,2)] m(3) by auto
qed

lemma represents_update:
  assumes "represents els H" "i < length H"
  shows "represents (els[i := (els ! i)\<lparr>item_dl := d\<rparr>]) (H[i := (fst (H ! i), d)])"
proof -
  have f: "map fst (H[i := (fst (H ! i), d)]) = map fst H" using assms(2) by (simp add: map_update list_update_same_conv)
  then have i: "fst ` set (H[i := (fst (H ! i), d)]) = fst ` set H" by (metis list.set_map)
  have "fst h < length els" if "h \<in> set (H[i := (fst (H ! i), d)])" for h
  proof -
    have "fst h \<in> fst ` set H" unfolding i [symmetric] using that by simp
    then show ?thesis using assms(1) by (auto simp: represents_def holds_def)
  qed
  with assms f i show ?thesis by (auto simp: represents_def holds_def nth_list_update)
qed

lemma map_of_update:
  assumes "distinct (map fst H)" "i < length H"
  shows "map_of (H[i := (fst (H ! i), d)]) = (map_of H)(fst (H ! i) \<mapsto> d)"
proof -
  have "H = take i H @ H ! i # drop (Suc i) H" "H[i := (fst (H ! i), d)] = take i H @ (fst (H ! i), d) # drop (Suc i) H"
    using assms(2) by (simp_all add: id_take_nth_drop upd_conv_take_nth_drop)
  moreover have "fst (H ! i) \<notin> fst ` set (take i H)"
    using assms by (metis (no_types) \<open>H = take i H @ H ! i # drop (Suc i) H\<close> disjoint_insert(2) distinct_append list.set(2) list.set_map list.simps(9) map_append)
  ultimately show ?thesis
    by (metis (no_types, lifting) map_of.simps(2) map_of_append map_add_upd_left fun_upd_upd fst_conv snd_conv map_of_eq_None_iff dom_map_of_conv_image_fst)
qed

lemma cpudl_set_old:
  assumes "cpudl_ok t cp" "c < nr_cpu_ids" "deadlines cp c \<noteq> None" "in_window t d"
  shows "\<exists>cp'. cpudl_set cp c d = Some cp' \<and> cpudl_ok t cp' \<and> deadlines cp' = (deadlines cp)(c \<mapsto> d) \<and>
    free_cpus cp' = free_cpus cp"
proof -
  define H where "H = heap_list cp"
  let ?els = "elements cp"
  have cp: "represents ?els H" "cpudl_size cp = length H" "heap_ordered t H" "length ?els = nr_cpu_ids" "mask_ok (free_cpus cp)"
    using assms(1) by (simp_all add: cpudl_ok_def H_def)
  have c: "c < length ?els" "c \<in> fst ` set H"
    using assms(2,3) cp(4) unfolding deadlines_eq [OF cp(1,2)] by (simp_all add: map_of_eq_None_iff)
  obtain i where i: "i < length H" "item_idx (?els ! c) = int i" "fst (H ! i) = c"
    using invalid_iff(2) [OF cp(1) c] by auto
  have d: "distinct (map fst H)" "length H \<le> length ?els" using cp(1) by (simp_all add: represents_def holds_def)
  let ?H = "H[i := (c, d)]" and ?cp = "cp\<lparr>elements := ?els[i := (?els ! i)\<lparr>item_dl := d\<rparr>]\<rparr>"
  obtain els where u: "cpudl_heapify ?cp i = Some (?cp\<lparr>elements := els\<rparr>)" "length els = nr_cpu_ids"
      "represents els (keyed_order.sift dl_before ?H i)"
    using heapify_ok [of ?cp ?H i] represents_update [OF cp(1) i(1), of d] cp(2,4) i(1,3) by auto
  have w: "\<forall>h\<in>set ?H. in_window t (snd h)"
    using cp(3) assms(4) set_update_subset_insert [of H i "(c, d)"] by (auto simp: heap_ordered_iff)
  have "dlh.heap t (keyed_order.sift dl_before ?H i)"
    using w i(1) cp(3) by (intro dlh.sift_heap dlh.heap_around_update dlh.heap_around) (auto simp: heap_ordered_iff)
  then have "cpudl_ok t (?cp\<lparr>elements := els\<rparr>) \<and> deadlines (?cp\<lparr>elements := els\<rparr>) = map_of ?H"
    using u(2,3) w cp(2,5) i(1) sift_up_mset [of i ?H dl_before] sift_down_mset [of i ?H dl_before]
    by (intro cpudl_result [of _ "keyed_order.sift dl_before ?H i"]) (auto simp: dlh.sift_def)
  moreover have "cpudl_set cp c d = Some (?cp\<lparr>elements := els\<rparr>)"
    using c(1) i d(2) u(1) by (simp add: cpudl_set_def set_dl_def array_simps Let_def IDX_INVALID_def)
  ultimately show ?thesis
    using deadlines_eq [OF cp(1,2)] map_of_update [OF d(1) i(1), of d] i(3) by auto
qed

text \<open>Removing a CPU: the last pair takes its place and the CPU's index is invalidated.\<close>

lemma drop_hole:
  assumes "holds els (K @ [h]) (length K)"
  shows "represents (els[fst h := (els ! fst h)\<lparr>item_idx := IDX_INVALID\<rparr>]) K"
proof -
  have h: "fst h < length els" "fst h \<notin> fst ` set K" using assms by (auto simp: holds_def)
  have "item_cpu (els ! i) = fst (K ! i) \<and> item_dl (els ! i) = snd (K ! i) \<and> item_idx (els ! fst (K ! i)) = int i"
    if "i < length K" for i using that assms by (auto simp: holds_def nth_append)
  moreover have "fst (K ! i) \<noteq> fst h" if "i < length K" for i using that h(2) by (metis image_eqI nth_mem)
  moreover have "item_idx (els ! c) = IDX_INVALID" if "c < length els" "c \<notin> fst ` set K" "c \<noteq> fst h" for c
    using that assms by (auto simp: holds_def)
  moreover have "length K \<le> length els" "distinct (map fst K)" "\<forall>h\<in>set K. fst h < length els" using assms by (auto simp: holds_def)
  ultimately show ?thesis using h by (auto simp: represents_def holds_def nth_list_update)
qed

lemma swap_last: "H \<noteq> [] \<Longrightarrow> i < length H \<Longrightarrow> swap H i (length H - 1) = butlast (H[i := last H]) @ [H ! i]"
  by (cases H rule: rev_cases) (auto simp: swap_def nth_append list_update_append butlast_append)

lemma remove_represents:
  assumes "represents els H" "i < length H"
  defines "l \<equiv> last H" and "c \<equiv> fst (H ! i)"
  defines "e \<equiv> pulled els i (fst l) (snd l)"
  shows "represents (e[c := (e ! c)\<lparr>item_idx := IDX_INVALID\<rparr>]) (butlast (H[i := l]))"
proof -
  have H: "H \<noteq> []" using assms(2) by auto
  then have l: "l = H ! (length H - 1)" by (simp add: l_def last_conv_nth)
  have "holds e (swap H i (length H - 1)) (length H - 1)"
  proof (cases "i = length H - 1")
    case True
    then show ?thesis using represents_holds [OF fill_hole(2) [OF represents_holds [OF assms(1)] assms(2)]] l
      by (simp add: e_def swap_def)
  next
    case False
    then show ?thesis using move_hole(2) [OF represents_holds [OF assms(1)] assms(2), of "length H - 1"] H l by (simp add: e_def)
  qed
  then show ?thesis
    using drop_hole [of e "butlast (H[i := l])" "H ! i"] swap_last [OF H assms(2)] H by (simp add: c_def l_def)
qed

lemma heapify_outside:
  assumes "cpudl_size cp \<le> k" "k < length (elements cp)"
    "0 < k \<Longrightarrow> \<not> dl_time_before (item_dl (elements cp ! parent k)) (item_dl (elements cp ! k))"
  shows "cpudl_heapify cp k = Some cp"
  using assms by (auto simp: cpudl_heapify_def cpudl_heapify_down_def array_simps parent_def left_child_def)

lemma cpudl_clear_absent:
  assumes "cpudl_ok t cp" "c < nr_cpu_ids" "deadlines cp c = None"
  shows "cpudl_clear cp c = Some cp"
proof -
  have cp: "represents (elements cp) (heap_list cp)" "c < length (elements cp)" "cpudl_size cp = length (heap_list cp)"
    using assms(1,2) by (simp_all add: cpudl_ok_def)
  then have "item_idx (elements cp ! c) = IDX_INVALID"
    using assms(3) invalid_iff(1) [OF cp(1,2)] unfolding deadlines_eq [OF cp(1,3)] by (simp add: map_of_eq_None_iff)
  then show ?thesis using cp(2) by (simp add: cpudl_clear_def array_simps)
qed

lemma idx_update_dl: "item_dl (xs[c := (xs ! c)\<lparr>item_idx := v\<rparr>] ! j) = item_dl (xs ! j)"
  by (cases "c < length xs") (auto simp: nth_list_update list_update_beyond)

lemma remove_heapify:
  fixes m :: cpumask
  assumes "represents els H" "heap_ordered t H" "i < length H"
  defines "l \<equiv> last H" and "c \<equiv> fst (H ! i)" and "K \<equiv> butlast (H[i := last H])"
  defines "e \<equiv> pulled els i (fst l) (snd l)"
  defines "cp \<equiv> \<lparr>cpudl_size = length H - 1, free_cpus = m, elements = e[c := (e ! c)\<lparr>item_idx := IDX_INVALID\<rparr>]\<rparr>"
  shows "\<exists>els' K'. cpudl_heapify cp i = Some (cp\<lparr>elements := els'\<rparr>) \<and> length els' = length els \<and>
    represents els' K' \<and> mset K' = mset K \<and> dlh.heap t K'"
proof -
  have rep: "represents (elements cp) K" and size: "cpudl_size cp = length K"
    using remove_represents [OF assms(1,3)] by (simp_all add: cp_def e_def c_def l_def K_def)
  have len: "length (elements cp) = length els" "length H \<le> length els"
    using assms(1) by (simp_all add: cp_def e_def represents_def holds_def)
  have w: "\<forall>h\<in>set H. in_window t (snd h)" and h: "dlh.heap t H" using assms(2) by (simp_all add: heap_ordered_iff)
  show ?thesis
  proof (cases "i = length H - 1")
    case True
    then have K: "K = butlast H" by (simp add: K_def butlast_list_update)
    have "H \<noteq> []" using assms(3) by auto
    then have l: "l = H ! i" using True by (simp add: l_def last_conv_nth)
    then have "fst l < length els" using assms(1,3) by (auto simp: represents_def holds_def)
    note l = l this
    have dl: "item_dl (elements cp ! j) = snd (H ! j)" if "j \<le> i" for j
      using that assms(1,3) len(2) l by (simp add: cp_def e_def idx_update_dl represents_def holds_def)
    have "\<not> dl_before (H ! up i) (H ! i)" if "0 < i"
      using that w h assms(3) dlh.before_key [of t "H ! up i" "H ! i"] by (auto simp: dlh.heap_def up_def)
    then have "cpudl_heapify cp i = Some cp"
      using True size len assms(3) dl by (intro heapify_outside) (auto simp: K_def cp_def parent_def up_def dl_before_def)
    moreover have "cp\<lparr>elements := elements cp\<rparr> = cp" by simp
    ultimately show ?thesis using rep len(1) dlh.heap_butlast [OF h] K by metis
  next
    case False
    then have i: "i < length K" using assms(3) by (simp add: K_def)
    have K: "K = (butlast H)[i := last H]" using False assms(3) by (simp add: K_def butlast_list_update)
    have "H \<noteq> []" using assms(3) by auto
    then have "last H \<in> set H" by simp
    then have "set K \<subseteq> set H"
      unfolding K using set_update_subset_insert [of "butlast H" i "last H"] in_set_butlastD [of _ H] by blast
    then have "\<forall>h\<in>set K. in_window t (snd h)" using w by blast
    moreover have "dlh.heap_around t K i"
      unfolding K using i K by (intro dlh.heap_around_update dlh.heap_around dlh.heap_butlast h) auto
    ultimately have "dlh.heap t (keyed_order.sift dl_before K i)" using i by (intro dlh.sift_heap)
    moreover have "mset (keyed_order.sift dl_before K i) = mset K"
      using i by (simp add: dlh.sift_def sift_up_mset sift_down_mset)
    ultimately show ?thesis using heapify_ok [OF rep size i] len(1) by metis
  qed
qed

lemma cpudl_clear_present:
  assumes "cpudl_ok t cp" "c < nr_cpu_ids" "deadlines cp c \<noteq> None"
  shows "\<exists>cp'. cpudl_clear cp c = Some cp' \<and> cpudl_ok t cp' \<and> deadlines cp' = (deadlines cp)(c := None) \<and>
    cpus (free_cpus cp') = insert c (cpus (free_cpus cp))"
proof -
  define H where "H = heap_list cp"
  let ?els = "elements cp"
  have cp: "represents ?els H" "cpudl_size cp = length H" "heap_ordered t H" "length ?els = nr_cpu_ids" "mask_ok (free_cpus cp)"
    using assms(1) by (simp_all add: cpudl_ok_def H_def)
  have c: "c < length ?els" "c \<in> fst ` set H"
    using assms(2,3) cp(4) unfolding deadlines_eq [OF cp(1,2)] by (simp_all add: map_of_eq_None_iff)
  obtain i where i: "i < length H" "item_idx (?els ! c) = int i" "fst (H ! i) = c"
    using invalid_iff(2) [OF cp(1) c] by auto
  have H: "H \<noteq> []" "distinct (map fst H)" "length H \<le> length ?els" "\<forall>h\<in>set H. fst h < length ?els"
    using i(1) cp(1) by (auto simp: represents_def holds_def)
  let ?l = "last H" and ?K = "butlast (H[i := last H])"
  let ?e = "pulled ?els i (fst ?l) (snd ?l)"
  let ?cp = "\<lparr>cpudl_size = length H - 1, free_cpus = free_cpus cp, elements = ?e[c := (?e ! c)\<lparr>item_idx := IDX_INVALID\<rparr>]\<rparr>"
  obtain els K where u: "cpudl_heapify ?cp i = Some (?cp\<lparr>elements := els\<rparr>)" "length els = nr_cpu_ids"
      "represents els K" "mset K = mset ?K" "dlh.heap t K"
    using remove_heapify [OF cp(1,3) i(1), of "free_cpus cp"] i(3) cp(4) by auto
  obtain m where m: "cpumask_set_cpu c (free_cpus cp) = Some m" "mask_ok m" "cpus m = insert c (cpus (free_cpus cp))"
    using mask_set_cpu [OF cp(5), of c] assms(2) by (auto simp: nr_cpu_ids_def)
  have l: "fst ?l < length ?els" "item_dl (?els ! (length H - 1)) = snd ?l" "item_cpu (?els ! (length H - 1)) = fst ?l"
    using H cp(1) by (auto simp: last_conv_nth represents_def holds_def)
  let ?r = "?cp\<lparr>elements := els, free_cpus := m\<rparr>"
  have run: "cpudl_clear cp c = Some ?r"
    using c(1) i H l u(1) m(1) cp(2)
    by (cases cp) (simp add: cpudl_clear_def set_dl_def set_cpu_def set_idx_def array_simps Let_def item_commute pulled_def IDX_INVALID_def)
  have perm: "mset ((H ! i) # ?K) = mset H"
    using swap_mset [of i H "length H - 1"] i(1) unfolding swap_last [OF H(1) i(1)] by simp
  have sub: "set ?K \<subseteq> set H" using mset_eq_setD [OF perm] by auto
  have "mset (map fst ((H ! i) # ?K)) = mset (map fst H)" unfolding mset_map perm ..
  then have dist: "distinct (map fst ((H ! i) # ?K))" using H(2) mset_eq_imp_distinct_iff by blast
  have "cpudl_ok t ?r \<and> deadlines ?r = map_of ?K"
    using u m(2) sub cp(3) i(1) by (intro cpudl_result [of _ K]) (auto simp: heap_ordered_iff)
  moreover have "map_of ?K = (map_of H)(c := None)"
    unfolding map_of_perm [OF H(2) perm, symmetric] using dist i(3) map_of_eq_None_iff [of ?K c] by (auto simp: fun_eq_iff)
  ultimately show ?thesis using run deadlines_eq [OF cp(1,2)] m(3) by auto
qed

lemma invalidate_all_ok:
  "(\<forall>i\<in>set is. i < length els) \<Longrightarrow> \<exists>els'. invalidate_all is els = Some els' \<and> length els' = length els \<and>
     (\<forall>i\<in>set is. item_idx (els' ! i) = IDX_INVALID) \<and> (\<forall>i. item_idx (els ! i) = IDX_INVALID \<longrightarrow> item_idx (els' ! i) = IDX_INVALID)"
proof (induction "is" arbitrary: els)
  case (Cons i "is")
  let ?e = "els[i := (els ! i)\<lparr>item_idx := IDX_INVALID\<rparr>]"
  obtain els' where "invalidate_all is ?e = Some els'" "length els' = length els" "\<forall>i\<in>set is. item_idx (els' ! i) = IDX_INVALID"
      "\<forall>i. item_idx (?e ! i) = IDX_INVALID \<longrightarrow> item_idx (els' ! i) = IDX_INVALID"
    using Cons.IH [of ?e] Cons.prems by auto
  moreover have "item_idx (?e ! j) = IDX_INVALID" if "j = i \<or> item_idx (els ! j) = IDX_INVALID" for j
    using that Cons.prems by (auto simp: nth_list_update)
  ultimately show ?case using Cons.prems by (auto simp: set_idx_def array_simps)
qed simp

lemma cpudl_init_ok:
  assumes "mask_ok (cpu_possible_mask s)" "cpus (cpu_possible_mask s) = {..<NR_CPUS}"
  shows "\<exists>cp. cpudl_init const s True True = Some (Inr cp) \<and> cpudl_ok t cp \<and> deadlines cp = Map.empty \<and> cpus (free_cpus cp) = {}"
proof -
  let ?z = "replicate nr_cpu_ids \<lparr>item_dl = 0, item_cpu = 0, item_idx = 0\<rparr>"
  obtain els where els: "invalidate_all (sorted_list_of_set {..<NR_CPUS}) ?z = Some els" "length els = nr_cpu_ids"
      "\<forall>i<NR_CPUS. item_idx (els ! i) = IDX_INVALID"
    using invalidate_all_ok [of "sorted_list_of_set {..<NR_CPUS}" ?z] by (auto simp: nr_cpu_ids_def)
  let ?cp = "\<lparr>cpudl_size = 0, free_cpus = CPU_BITS_NONE, elements = els\<rparr>"
  have none: "mask_ok CPU_BITS_NONE" "cpus CPU_BITS_NONE = {}"
    using static_ok by (simp_all add: online_counted_def masks_ok_def static_cpu_masks_def abs_masks_def)
  have rep: "represents els []" using els by (simp add: represents_def holds_def nr_cpu_ids_def)
  then have "cpudl_ok t ?cp" using els(2) none(1) by (intro cpudl_okI [of _ "[]"]) (simp_all add: heap_ordered_def)
  moreover have "deadlines ?cp = Map.empty" using deadlines_eq [of ?cp "[]"] rep by simp
  moreover have "cpudl_init const s True True = Some (Inr ?cp)"
    using assms els(1) for_each_cpu_ok [OF assms(1), of const] by (simp add: cpudl_init_def)
  ultimately show ?thesis using none(2) by simp
qed

text \<open>C5. For deadlines in one window of \<open>2 ^ 63\<close> nanoseconds, the deadline heap refines a map from CPUs to
  deadlines. \<^verbatim>\<open>cpudl_init\<close> establishes the invariant (index and heap array agree, the heap order holds,
  every CPU outside the heap has the invalid index) for the empty map; \<^verbatim>\<open>cpudl_set\<close> and \<^verbatim>\<open>cpudl_clear\<close>
  never leave the array, keep the invariant and update the map, for a CPU in the heap or not; the mask
  of free CPUs changes exactly when a CPU enters or leaves the heap. A failed allocation is reported.\<close>

theorem cpudl_refines_map:
  assumes "cpudl_ok t cp" "c < nr_cpu_ids" "in_window t d" "online_counted s" "cpus (cpu_possible_mask s) = {..<NR_CPUS}"
  shows "(\<exists>cp'. cpudl_set cp c d = Some cp' \<and> cpudl_ok t cp' \<and> deadlines cp' = (deadlines cp)(c \<mapsto> d) \<and>
      cpus (free_cpus cp') = (if deadlines cp c = None then cpus (free_cpus cp) - {c} else cpus (free_cpus cp))) \<and>
    (\<exists>cp'. cpudl_clear cp c = Some cp' \<and> cpudl_ok t cp' \<and> deadlines cp' = (deadlines cp)(c := None) \<and>
      cpus (free_cpus cp') = (if deadlines cp c = None then cpus (free_cpus cp) else insert c (cpus (free_cpus cp)))) \<and>
    (\<exists>cp'. cpudl_init const s True True = Some (Inr cp') \<and> cpudl_ok t cp' \<and> deadlines cp' = Map.empty) \<and>
    cpudl_init const s False b = Some (Inl ENOMEM) \<and> cpudl_init const s True False = Some (Inl ENOMEM)"
proof (intro conjI)
  show "\<exists>cp'. cpudl_set cp c d = Some cp' \<and> cpudl_ok t cp' \<and> deadlines cp' = (deadlines cp)(c \<mapsto> d) \<and>
      cpus (free_cpus cp') = (if deadlines cp c = None then cpus (free_cpus cp) - {c} else cpus (free_cpus cp))"
    using cpudl_set_new [OF assms(1,2) _ assms(3)] cpudl_set_old [OF assms(1,2) _ assms(3)]
    by (cases "deadlines cp c = None") auto
  show "\<exists>cp'. cpudl_clear cp c = Some cp' \<and> cpudl_ok t cp' \<and> deadlines cp' = (deadlines cp)(c := None) \<and>
      cpus (free_cpus cp') = (if deadlines cp c = None then cpus (free_cpus cp) else insert c (cpus (free_cpus cp)))"
    using cpudl_clear_absent [OF assms(1,2)] cpudl_clear_present [OF assms(1,2)] assms(1)
    by (cases "deadlines cp c = None") (auto simp: fun_upd_idem)
  show "\<exists>cp'. cpudl_init const s True True = Some (Inr cp') \<and> cpudl_ok t cp' \<and> deadlines cp' = Map.empty"
    using cpudl_init_ok [of s const t] assms(4,5) by (auto simp: online_counted_def masks_ok_def)
qed (simp_all add: cpudl_init_def)

definition sample_cpudl :: cpudl where
  "sample_cpudl = \<lparr>cpudl_size = 2, free_cpus = [0xa],
     elements = [\<lparr>item_dl = 100, item_cpu = 2, item_idx = 1\<rparr>, \<lparr>item_dl = 50, item_cpu = 0, item_idx = - 1\<rparr>,
       \<lparr>item_dl = 0, item_cpu = 0, item_idx = 0\<rparr>, \<lparr>item_dl = 0, item_cpu = 0, item_idx = - 1\<rparr>]\<rparr>"

lemma sample_cpudl_ok: "cpudl_ok 0 sample_cpudl" "deadlines sample_cpudl = [2 \<mapsto> 100, 0 \<mapsto> 50]"
proof -
  let ?H = "[(2, 100), (0, 50)] :: (nat \<times> u64) list"
  have rep: "represents (elements sample_cpudl) ?H"
    by (auto simp: represents_def holds_def sample_cpudl_def IDX_INVALID_def less_Suc_eq numeral_eq_Suc)
  have "mask_ok (free_cpus sample_cpudl)"
    by (simp add: sample_cpudl_def mask_ok_def fits_bits_def BITS_TO_LONGS_def BITS_PER_LONG_def NR_CPUS_def)
  moreover have "heap_ordered 0 ?H" by (auto simp: heap_ordered_def in_window_def dl_key_def parent_def less_Suc_eq)
  ultimately show "cpudl_ok 0 sample_cpudl"
    using rep by (intro cpudl_okI [of _ ?H]) (simp_all add: sample_cpudl_def nr_cpu_ids_def NR_CPUS_def)
  show "deadlines sample_cpudl = [2 \<mapsto> 100, 0 \<mapsto> 50]"
    using deadlines_eq [OF rep] by (auto simp: sample_cpudl_def)
qed

theorem cpudl_refines_map_witness:
  "\<exists>cp'. cpudl_set sample_cpudl 1 200 = Some cp' \<and> cpudl_ok 0 cp' \<and> deadlines cp' = [2 \<mapsto> 100, 0 \<mapsto> 50, 1 \<mapsto> 200]"
proof -
  have "1 < nr_cpu_ids" "in_window 0 200" by (simp_all add: nr_cpu_ids_def NR_CPUS_def in_window_def dl_key_def)
  moreover have "cpus (cpu_possible_mask static_cpu_masks) = {..<NR_CPUS}" using static_ok(2) by (simp add: abs_masks_def)
  ultimately show ?thesis
    using cpudl_refines_map [OF sample_cpudl_ok(1) _ _ static_ok(1), of 1 200 True True] sample_cpudl_ok(2) by auto
qed

subsection \<open>Finding a CPU for a task\<close>

lemma maximum_latest:
  assumes "cpudl_ok t cp" "deadlines cp \<noteq> Map.empty"
  shows "deadlines cp (item_cpu (elements cp ! 0)) = Some (item_dl (elements cp ! 0))"
    "deadlines cp c = Some d \<Longrightarrow> dl_key t d \<le> dl_key t (item_dl (elements cp ! 0))"
proof -
  define H where "H = heap_list cp"
  have cp: "represents (elements cp) H" "cpudl_size cp = length H" "dlh.heap t H"
    using assms(1) by (simp_all add: cpudl_ok_def H_def heap_ordered_iff)
  note d = deadlines_eq [OF cp(1,2)]
  have H: "0 < length H" "distinct (map fst H)" using assms(2) cp(1) unfolding d by (auto simp: represents_def holds_def)
  then have e: "H ! 0 = (item_cpu (elements cp ! 0), item_dl (elements cp ! 0))"
    using cp(1) by (simp add: represents_def holds_def prod_eq_iff)
  have "H ! 0 \<in> set H" using H(1) by (rule nth_mem)
  then show "deadlines cp (item_cpu (elements cp ! 0)) = Some (item_dl (elements cp ! 0))"
    unfolding d using H(2) e by simp
  assume "deadlines cp c = Some d"
  then have "(c, d) \<in> set H" unfolding d by (rule map_of_SomeD)
  then obtain j where "j < length H" "H ! j = (c, d)" by (auto simp: in_set_conv_nth)
  then show "dl_key t d \<le> dl_key t (item_dl (elements cp ! 0))" using dlh.heap_max [OF cp(3), of j] e by simp
qed



end
