(* ===== verification/Cpupri.thy ===== *)
theory Cpupri
  imports Cpu_State Kstrtox
begin

section \<open>CPU priorities (kernel/sched/cpupri.c)\<close>

text \<open>
  For every priority level the structure keeps the mask of the CPUs that run at this level and their
  number, and for every CPU its level. The model follows one caller; the memory barriers that order
  the updates for concurrent readers have no effect in it. The results of the allocations are arguments
  of the initialisation.
\<close>

definition MAX_RT_PRIO :: int where "MAX_RT_PRIO = 100"

definition MAX_PRIO :: int where "MAX_PRIO = MAX_RT_PRIO + 40"

definition CPUPRI_NR_PRIORITIES :: int where "CPUPRI_NR_PRIORITIES = MAX_RT_PRIO + 2"

definition CPUPRI_INVALID :: int where "CPUPRI_INVALID = - 1"

definition CPUPRI_IDLE :: int where "CPUPRI_IDLE = 0"

definition CPUPRI_NORMAL :: int where "CPUPRI_NORMAL = 1"

record cpupri_vec =
  vec_count :: u32
  vec_mask :: cpumask

record cpupri =
  pri_to_cpu :: "cpupri_vec list"
  cpu_to_pri :: "int list"

definition convert_prio :: "int \<Rightarrow> int" where
  "convert_prio prio =
     (if prio = CPUPRI_INVALID then CPUPRI_INVALID
      else if prio = MAX_PRIO then CPUPRI_IDLE
      else if prio \<ge> MAX_RT_PRIO then CPUPRI_NORMAL
      else MAX_RT_PRIO - prio + 1)"

text \<open>The loop of \<^verbatim>\<open>cpupri_find\<close> over the levels from \<open>idx\<close> on; \<open>n\<close> levels are left. \<open>lowest_mask\<close> is
  \<open>None\<close> for a null pointer.\<close>

primrec cpupri_find_loop :: "nat \<Rightarrow> bool \<Rightarrow> cpupri_vec list \<Rightarrow> nat \<Rightarrow> cpumask \<Rightarrow> cpumask option \<Rightarrow> (bool \<times> cpumask option) option" where
  "cpupri_find_loop 0 const vecs idx cpus_ptr lowest_mask = Some (False, lowest_mask)" |
  "cpupri_find_loop (Suc n) const vecs idx cpus_ptr lowest_mask = do {
     vec \<leftarrow> arr_get vecs idx;
     if vec_count vec = 0 then cpupri_find_loop n const vecs (idx + 1) cpus_ptr lowest_mask
     else do {
       any \<leftarrow> cpumask_any_and const cpus_ptr (vec_mask vec);
       if any \<ge> nr_cpu_ids then cpupri_find_loop n const vecs (idx + 1) cpus_ptr lowest_mask
       else (case lowest_mask of None \<Rightarrow> Some (True, None)
         | Some m \<Rightarrow> do {
             (b, m) \<leftarrow> cpumask_and const m cpus_ptr (vec_mask vec);
             any \<leftarrow> cpumask_any m;
             if any \<ge> nr_cpu_ids then cpupri_find_loop n const vecs (idx + 1) cpus_ptr (Some m)
             else Some (True, Some m)
           })
     }
   }"

definition cpupri_find :: "bool \<Rightarrow> cpupri \<Rightarrow> int \<Rightarrow> cpumask \<Rightarrow> cpumask option \<Rightarrow> (bool \<times> cpumask option) option" where
  "cpupri_find const cp prio cpus_ptr lowest_mask = do {
     let task_pri = convert_prio prio;
     bug_on (task_pri \<ge> CPUPRI_NR_PRIORITIES);
     cpupri_find_loop (nat task_pri) const (pri_to_cpu cp) 0 cpus_ptr lowest_mask
   }"

definition vec_add :: "cpupri_vec list \<Rightarrow> int \<Rightarrow> nat \<Rightarrow> cpupri_vec list option" where
  "vec_add vecs pri cpu = do {
     bug_on (pri < 0);
     vec \<leftarrow> arr_get vecs (nat pri);
     m \<leftarrow> cpumask_set_cpu cpu (vec_mask vec);
     arr_set vecs (nat pri) (vec\<lparr>vec_mask := m, vec_count := vec_count vec + 1\<rparr>)
   }"

definition vec_remove :: "cpupri_vec list \<Rightarrow> int \<Rightarrow> nat \<Rightarrow> cpupri_vec list option" where
  "vec_remove vecs pri cpu = do {
     bug_on (pri < 0);
     vec \<leftarrow> arr_get vecs (nat pri);
     m \<leftarrow> cpumask_clear_cpu cpu (vec_mask vec);
     arr_set vecs (nat pri) (vec\<lparr>vec_count := vec_count vec - 1, vec_mask := m\<rparr>)
   }"

definition cpupri_set :: "cpupri \<Rightarrow> nat \<Rightarrow> int \<Rightarrow> cpupri option" where
  "cpupri_set cp cpu newpri = do {
     oldpri \<leftarrow> arr_get (cpu_to_pri cp) cpu;
     let newpri = convert_prio newpri;
     bug_on (newpri \<ge> CPUPRI_NR_PRIORITIES);
     if newpri = oldpri then Some cp
     else do {
       vecs \<leftarrow> (if newpri \<noteq> CPUPRI_INVALID then vec_add (pri_to_cpu cp) newpri cpu else Some (pri_to_cpu cp));
       vecs \<leftarrow> (if oldpri \<noteq> CPUPRI_INVALID then vec_remove vecs oldpri cpu else Some vecs);
       pris \<leftarrow> arr_set (cpu_to_pri cp) cpu newpri;
       Some (cp\<lparr>pri_to_cpu := vecs, cpu_to_pri := pris\<rparr>)
     }
   }"

primrec set_all_invalid :: "nat list \<Rightarrow> int list \<Rightarrow> int list option" where
  "set_all_invalid [] pris = Some pris" |
  "set_all_invalid (i # is) pris = do { pris \<leftarrow> arr_set pris i CPUPRI_INVALID; set_all_invalid is pris }"

definition cpupri_init :: "bool \<Rightarrow> cpu_masks \<Rightarrow> (nat \<Rightarrow> bool) \<Rightarrow> bool \<Rightarrow> (errno + cpupri) option" where
  "cpupri_init const s mask_alloc pri_alloc =
     (if \<not> list_all mask_alloc [0..<nat CPUPRI_NR_PRIORITIES] then Some (Inl ENOMEM)
      else if \<not> pri_alloc then Some (Inl ENOMEM)
      else do {
        possible \<leftarrow> for_each_cpu const (cpu_possible_mask s);
        pris \<leftarrow> set_all_invalid possible (replicate nr_cpu_ids 0);
        Some (Inr \<lparr>pri_to_cpu = replicate (nat CPUPRI_NR_PRIORITIES) \<lparr>vec_count = 0, vec_mask = CPU_BITS_NONE\<rparr>, cpu_to_pri = pris\<rparr>)
      })"

end
