(* ===== verification/Cpupri_Correct.thy ===== *)
theory Cpupri_Correct
  imports Cpupri
begin

section \<open>CPU priorities: the levels partition the CPUs\<close>

text \<open>
  The mask and the count of every level describe the CPUs whose recorded priority is that level. With
  this invariant the search returns the allowed CPUs of the lowest level below the task's priority.
\<close>

subsection \<open>The levels\<close>

definition at_level :: "int list \<Rightarrow> nat \<Rightarrow> nat set" where
  "at_level pris i = {c. c < length pris \<and> pris ! c = int i}"

definition levels_hold :: "cpupri_vec list \<Rightarrow> (nat \<Rightarrow> nat set) \<Rightarrow> bool" where
  "levels_hold vecs L \<longleftrightarrow> int (length vecs) = CPUPRI_NR_PRIORITIES \<and>
     (\<forall>i<length vecs. mask_ok (vec_mask (vecs ! i)) \<and> cpus (vec_mask (vecs ! i)) = L i \<and>
        unat (vec_count (vecs ! i)) = card (L i))"

definition cpupri_ok :: "cpupri \<Rightarrow> bool" where
  "cpupri_ok cp \<longleftrightarrow> length (cpu_to_pri cp) = nr_cpu_ids \<and>
     (\<forall>p\<in>set (cpu_to_pri cp). CPUPRI_INVALID \<le> p \<and> p < CPUPRI_NR_PRIORITIES) \<and>
     levels_hold (pri_to_cpu cp) (at_level (cpu_to_pri cp))"

lemma vec_add_ok:
  assumes "levels_hold vecs L" "0 \<le> p" "p < CPUPRI_NR_PRIORITIES" "c < NR_CPUS" "c \<notin> L (nat p)"
  shows "\<exists>vecs'. vec_add vecs p c = Some vecs' \<and> levels_hold vecs' (L(nat p := insert c (L (nat p))))"
proof -
  let ?v = "vecs ! nat p"
  have i: "nat p < length vecs" using assms(1-3) by (auto simp: levels_hold_def)
  then have v: "mask_ok (vec_mask ?v)" "cpus (vec_mask ?v) = L (nat p)" "unat (vec_count ?v) = card (cpus (vec_mask ?v))"
    using assms(1) by (auto simp: levels_hold_def)
  obtain m where "cpumask_set_cpu c (vec_mask ?v) = Some m" "mask_ok m" "cpus m = insert c (L (nat p))"
    using mask_set_cpu [OF v(1) assms(4)] v(2) by auto
  moreover have "card (insert c (L (nat p))) = Suc (card (L (nat p)))"
    using assms(5) finite_cpus [of "vec_mask ?v"] v(2) by simp
  ultimately show ?thesis using assms(1,2) i v(2) count_insert [OF v(3)]
    by (auto simp: vec_add_def array_simps levels_hold_def nth_list_update)
qed

lemma vec_remove_ok:
  assumes "levels_hold vecs L" "0 \<le> p" "p < CPUPRI_NR_PRIORITIES" "c < NR_CPUS" "c \<in> L (nat p)"
  shows "\<exists>vecs'. vec_remove vecs p c = Some vecs' \<and> levels_hold vecs' (L(nat p := L (nat p) - {c}))"
proof -
  let ?v = "vecs ! nat p"
  have i: "nat p < length vecs" using assms(1-3) by (auto simp: levels_hold_def)
  then have v: "mask_ok (vec_mask ?v)" "cpus (vec_mask ?v) = L (nat p)" "unat (vec_count ?v) = card (cpus (vec_mask ?v))"
    using assms(1) by (auto simp: levels_hold_def)
  obtain m where "cpumask_clear_cpu c (vec_mask ?v) = Some m" "mask_ok m" "cpus m = L (nat p) - {c}"
    using mask_clear_cpu [OF v(1) assms(4)] v(2) by auto
  then show ?thesis using assms(1,2,5) i v(2) count_delete [OF v(3), of c]
    by (auto simp: vec_remove_def array_simps levels_hold_def nth_list_update)
qed

lemma convert_prio_range: "CPUPRI_INVALID \<le> p \<Longrightarrow> CPUPRI_INVALID \<le> convert_prio p \<and> convert_prio p < CPUPRI_NR_PRIORITIES"
  by (auto simp: convert_prio_def CPUPRI_INVALID_def CPUPRI_NR_PRIORITIES_def CPUPRI_IDLE_def CPUPRI_NORMAL_def MAX_RT_PRIO_def MAX_PRIO_def)

lemma at_level_update: "c < length pris \<Longrightarrow>
    at_level (pris[c := q]) i = (if q = int i then insert c (at_level pris i) else at_level pris i - {c})"
  by (auto simp: at_level_def nth_list_update)

lemma levels_cong: "levels_hold vecs L \<Longrightarrow> (\<And>i. int i < CPUPRI_NR_PRIORITIES \<Longrightarrow> L i = K i) \<Longrightarrow> levels_hold vecs K"
  by (auto simp: levels_hold_def)

lemma add_step:
  assumes "levels_hold vecs L" "CPUPRI_INVALID \<le> p" "p < CPUPRI_NR_PRIORITIES" "c < NR_CPUS" "\<And>i. p = int i \<Longrightarrow> c \<notin> L i"
  shows "\<exists>v. (if p \<noteq> CPUPRI_INVALID then vec_add vecs p c else Some vecs) = Some v \<and>
    levels_hold v (\<lambda>i. if p = int i then insert c (L i) else L i)"
proof (cases "p = CPUPRI_INVALID")
  case False
  then have p: "0 \<le> p" "p = int (nat p)" using assms(2) by (simp_all add: CPUPRI_INVALID_def)
  have "\<exists>v. vec_add vecs p c = Some v \<and> levels_hold v (L(nat p := insert c (L (nat p))))"
    using assms(5) [OF p(2)] p(1) assms(1-4) by (intro vec_add_ok)
  moreover have "(\<lambda>i. if p = int i then insert c (L i) else L i) = L(nat p := insert c (L (nat p)))" using p by (auto simp: fun_eq_iff)
  ultimately show ?thesis using False by (simp del: fun_upd_apply)
qed (use assms(1) in \<open>auto simp: CPUPRI_INVALID_def\<close>)

lemma remove_step:
  assumes "levels_hold vecs L" "CPUPRI_INVALID \<le> p" "p < CPUPRI_NR_PRIORITIES" "c < NR_CPUS" "\<And>i. p = int i \<Longrightarrow> c \<in> L i"
  shows "\<exists>v. (if p \<noteq> CPUPRI_INVALID then vec_remove vecs p c else Some vecs) = Some v \<and>
    levels_hold v (\<lambda>i. if p = int i then L i - {c} else L i)"
proof (cases "p = CPUPRI_INVALID")
  case False
  then have p: "0 \<le> p" "p = int (nat p)" using assms(2) by (simp_all add: CPUPRI_INVALID_def)
  have "\<exists>v. vec_remove vecs p c = Some v \<and> levels_hold v (L(nat p := L (nat p) - {c}))"
    using assms(5) [OF p(2)] p(1) assms(1-4) by (intro vec_remove_ok)
  moreover have "(\<lambda>i. if p = int i then L i - {c} else L i) = L(nat p := L (nat p) - {c})" using p by (auto simp: fun_eq_iff)
  ultimately show ?thesis using False by (simp del: fun_upd_apply)
qed (use assms(1) in \<open>auto simp: CPUPRI_INVALID_def\<close>)

lemma cpupri_set_ok:
  assumes "cpupri_ok cp" "c < nr_cpu_ids" "CPUPRI_INVALID \<le> p"
  shows "\<exists>cp'. cpupri_set cp c p = Some cp' \<and> cpupri_ok cp' \<and> cpu_to_pri cp' = (cpu_to_pri cp)[c := convert_prio p]"
proof -
  let ?pris = "cpu_to_pri cp" and ?new = "convert_prio p"
  let ?old = "?pris ! c" and ?L = "at_level ?pris"
  have c: "c < length ?pris" "c < NR_CPUS" using assms(1,2) by (simp_all add: cpupri_ok_def nr_cpu_ids_def)
  have old: "CPUPRI_INVALID \<le> ?old" "?old < CPUPRI_NR_PRIORITIES" using assms(1) c(1) by (simp_all add: cpupri_ok_def)
  note new = convert_prio_range [OF assms(3)]
  show ?thesis
  proof (cases "?new = ?old")
    case True
    then have "?pris[c := ?new] = ?pris" by (simp add: list_update_id)
    then show ?thesis using True assms(1) c(1) new by (simp add: cpupri_set_def array_simps Let_def)
  next
    case False
    have memb: "c \<in> ?L i \<longleftrightarrow> ?old = int i" for i using c(1) by (simp add: at_level_def)
    let ?L1 = "\<lambda>i. if ?new = int i then insert c (?L i) else ?L i"
    have "\<exists>v. (if ?new \<noteq> CPUPRI_INVALID then vec_add (pri_to_cpu cp) ?new c else Some (pri_to_cpu cp)) = Some v \<and> levels_hold v ?L1"
    proof (intro add_step)
      show "levels_hold (pri_to_cpu cp) ?L" using assms(1) by (simp add: cpupri_ok_def)
    qed (use new c False in \<open>auto simp: at_level_def\<close>)
    then obtain v where v: "(if ?new \<noteq> CPUPRI_INVALID then vec_add (pri_to_cpu cp) ?new c else Some (pri_to_cpu cp)) = Some v"
        "levels_hold v ?L1" by blast
    have "\<exists>w. (if ?old \<noteq> CPUPRI_INVALID then vec_remove v ?old c else Some v) = Some w \<and>
        levels_hold w (\<lambda>i. if ?old = int i then ?L1 i - {c} else ?L1 i)"
      using old c v(2) by (intro remove_step) (auto simp: at_level_def)
    then obtain w where w: "(if ?old \<noteq> CPUPRI_INVALID then vec_remove v ?old c else Some v) = Some w"
        "levels_hold w (\<lambda>i. if ?old = int i then ?L1 i - {c} else ?L1 i)" by blast
    from w(2) have "levels_hold w (at_level (?pris[c := ?new]))"
      by (rule levels_cong) (use False c(1) memb in \<open>auto simp: at_level_update\<close>)
    then have "cpupri_ok (cp\<lparr>pri_to_cpu := w, cpu_to_pri := ?pris[c := ?new]\<rparr>)"
      using assms(1) new set_update_subset_insert [of ?pris c ?new] by (auto simp: cpupri_ok_def)
    moreover have "cpupri_set cp c p = Some (cp\<lparr>pri_to_cpu := w, cpu_to_pri := ?pris[c := ?new]\<rparr>)"
      using False new v(1) w(1) c(1) by (simp add: cpupri_set_def array_simps Let_def)
    ultimately show ?thesis by simp
  qed
qed

subsection \<open>The search\<close>

lemma mask_any_and:
  "mask_ok a \<Longrightarrow> mask_ok b \<Longrightarrow> cpumask_any_and const a b = Some (next_in (cpus a \<inter> cpus b) NR_CPUS 0)"
  using find_next_and_bit_ok [of NR_CPUS a b const 0]
  by (simp add: cpumask_any_and_def cpumask_first_and_def cpumask_next_and_def search_from_nat mask_ok_def cpus_def nr_cpumask_bits_def)

lemma mask_any: "mask_ok m \<Longrightarrow> cpumask_any m = Some (next_in (cpus m) NR_CPUS 0)"
  using find_first_bit_ok [of NR_CPUS m] by (simp add: cpumask_any_def cpumask_first_def mask_ok_def cpus_def nr_cpumask_bits_def)

lemma next_empty: "next_in (cpus m \<inter> A) NR_CPUS 0 \<ge> nr_cpu_ids \<longleftrightarrow> cpus m \<inter> A = {}"
proof -
  have "finite (cpus m \<inter> A)" by simp
  from next_in_cases [OF this, of NR_CPUS 0] show ?thesis
    by (metis IntD1 cpus_lt empty_iff le_refl not_le nr_cpu_ids_def not_less_zero equals0I)
qed

lemma find_skip:
  assumes "levels_hold vecs L" "mask_ok allowed" "idx < length vecs" "cpus allowed \<inter> L idx = {}"
  shows "cpupri_find_loop (Suc n) const vecs idx allowed lm = cpupri_find_loop n const vecs (idx + 1) allowed lm"
proof -
  have "mask_ok (vec_mask (vecs ! idx))" "cpus (vec_mask (vecs ! idx)) = L idx" using assms(1,3) by (auto simp: levels_hold_def)
  then show ?thesis using assms(2,3,4) mask_any_and [OF assms(2), of "vec_mask (vecs ! idx)" const] next_empty [of allowed "L idx"]
    by (simp add: array_simps)
qed

lemma find_hit:
  assumes "levels_hold vecs L" "mask_ok allowed" "idx < length vecs" "cpus allowed \<inter> L idx \<noteq> {}"
  shows "cpupri_find_loop (Suc n) const vecs idx allowed None = Some (True, None)"
    "mask_ok m \<Longrightarrow> \<exists>m'. cpupri_find_loop (Suc n) const vecs idx allowed (Some m) = Some (True, Some m') \<and> cpus m' = cpus allowed \<inter> L idx"
proof -
  let ?v = "vecs ! idx"
  have v: "mask_ok (vec_mask ?v)" "cpus (vec_mask ?v) = L idx" "unat (vec_count ?v) = card (L idx)"
    using assms(1,3) by (auto simp: levels_hold_def)
  have "finite (L idx)" using finite_cpus [of "vec_mask ?v"] v(2) by simp
  then have "card (L idx) \<noteq> 0" using assms(4) by auto
  then have nz: "vec_count ?v \<noteq> 0" using v(3) by auto
  have any: "cpumask_any_and const allowed (vec_mask ?v) = Some (next_in (cpus allowed \<inter> L idx) NR_CPUS 0)"
      "\<not> nr_cpu_ids \<le> next_in (cpus allowed \<inter> L idx) NR_CPUS 0"
    using mask_any_and [OF assms(2) v(1), of const] v(2) next_empty [of allowed "L idx"] assms(4) by auto
  show "cpupri_find_loop (Suc n) const vecs idx allowed None = Some (True, None)"
    using nz any assms(3) by (simp add: array_simps)
  assume m: "mask_ok m"
  obtain m' where m': "cpumask_and const m allowed (vec_mask ?v) = Some (True, m')" "mask_ok m'" "cpus m' = cpus allowed \<inter> L idx"
    using mask_and [OF m assms(2) v(1), of const] v(2) assms(4) by auto
  then show "\<exists>m'. cpupri_find_loop (Suc n) const vecs idx allowed (Some m) = Some (True, Some m') \<and> cpus m' = cpus allowed \<inter> L idx"
    using nz any assms(3) mask_any [OF m'(2)] by (simp add: array_simps)
qed

lemma find_none:
  assumes "levels_hold vecs L" "mask_ok allowed"
  shows "idx + n \<le> length vecs \<Longrightarrow> (\<And>i. idx \<le> i \<Longrightarrow> i < idx + n \<Longrightarrow> cpus allowed \<inter> L i = {}) \<Longrightarrow>
    cpupri_find_loop n const vecs idx allowed lm = Some (False, lm)"
proof (induction n arbitrary: idx)
  case (Suc n)
  have "cpus allowed \<inter> L idx = {}" by (intro Suc.prems(2)) auto
  then have "cpupri_find_loop (Suc n) const vecs idx allowed lm = cpupri_find_loop n const vecs (idx + 1) allowed lm"
    using Suc.prems(1) by (intro find_skip [OF assms]) auto
  also have "\<dots> = Some (False, lm)" using Suc.prems by (intro Suc.IH) auto
  finally show ?case .
qed simp

lemma find_reach:
  assumes "levels_hold vecs L" "mask_ok allowed"
  shows "idx + d < length vecs \<Longrightarrow> (\<And>i. idx \<le> i \<Longrightarrow> i < idx + d \<Longrightarrow> cpus allowed \<inter> L i = {}) \<Longrightarrow>
    cpupri_find_loop (d + n) const vecs idx allowed lm = cpupri_find_loop n const vecs (idx + d) allowed lm"
proof (induction d arbitrary: idx)
  case (Suc d)
  have "cpus allowed \<inter> L idx = {}" by (intro Suc.prems(2)) auto
  then have "cpupri_find_loop (Suc (d + n)) const vecs idx allowed lm = cpupri_find_loop (d + n) const vecs (idx + 1) allowed lm"
    using Suc.prems(1) by (intro find_skip [OF assms]) auto
  also have "\<dots> = cpupri_find_loop n const vecs (idx + 1 + d) allowed lm" using Suc.prems by (intro Suc.IH) auto
  finally show ?case by simp
qed simp

text \<open>The CPUs a task of a given priority may take over, and those of them with the lowest priority.\<close>

definition candidates :: "int list \<Rightarrow> nat set \<Rightarrow> int \<Rightarrow> nat set" where
  "candidates pris A pri = {c \<in> A. c < length pris \<and> CPUPRI_INVALID < pris ! c \<and> pris ! c < pri}"

definition lowest_cpus :: "int list \<Rightarrow> nat set \<Rightarrow> nat set" where
  "lowest_cpus pris B = {c \<in> B. \<forall>b\<in>B. pris ! c \<le> pris ! b}"

lemma cpupri_find_ok:
  assumes "cpupri_ok cp" "mask_ok allowed" "mask_ok m" "CPUPRI_INVALID \<le> prio"
  defines "B \<equiv> candidates (cpu_to_pri cp) (cpus allowed) (convert_prio prio)"
  shows "cpupri_find const cp prio allowed None = Some (B \<noteq> {}, None) \<and>
    (\<exists>m'. cpupri_find const cp prio allowed (Some m) = Some (B \<noteq> {}, Some m') \<and>
      (if B = {} then m' = m else cpus m' = lowest_cpus (cpu_to_pri cp) B))"
proof -
  let ?pris = "cpu_to_pri cp" and ?t = "convert_prio prio" and ?A = "cpus allowed"
  let ?L = "at_level ?pris"
  have L: "levels_hold (pri_to_cpu cp) ?L" and len: "int (length (pri_to_cpu cp)) = CPUPRI_NR_PRIORITIES"
    using assms(1) by (auto simp: cpupri_ok_def levels_hold_def)
  note t = convert_prio_range [OF assms(4)]
  have run: "cpupri_find const cp prio allowed lm = cpupri_find_loop (nat ?t) const (pri_to_cpu cp) 0 allowed lm" for lm
    using t by (simp add: cpupri_find_def Let_def)
  have B: "c \<in> B \<longleftrightarrow> (\<exists>i. int i < ?t \<and> c \<in> ?A \<inter> ?L i)" for c
    by (auto simp: B_def candidates_def at_level_def CPUPRI_INVALID_def intro: exI [of _ "nat (?pris ! c)"])
  show ?thesis
  proof (cases "B = {}")
    case True
    have "?A \<inter> ?L i = {}" if "i < nat ?t" for i using that True B by fastforce
    then have "cpupri_find_loop (nat ?t) const (pri_to_cpu cp) 0 allowed lm = Some (False, lm)" for lm
      using t len by (intro find_none [OF L assms(2)]) auto
    then show ?thesis using True run by simp
  next
    case False
    define k where "k = (LEAST i. int i < ?t \<and> ?A \<inter> ?L i \<noteq> {})"
    have "\<exists>i. int i < ?t \<and> ?A \<inter> ?L i \<noteq> {}" using False B by blast
    then have "int k < ?t \<and> ?A \<inter> ?L k \<noteq> {}" unfolding k_def by (rule LeastI_ex)
    then have k: "int k < ?t" "?A \<inter> ?L k \<noteq> {}" by simp_all
    have below: "?A \<inter> ?L i = {}" if "i < k" for i
    proof -
      have "\<not> (int i < ?t \<and> ?A \<inter> ?L i \<noteq> {})" using that unfolding k_def by (rule not_less_Least)
      then show ?thesis using that k(1) by simp
    qed
    have "nat ?t = k + Suc (nat ?t - k - 1)" using k(1) by linarith
    then have reach: "cpupri_find const cp prio allowed lm = cpupri_find_loop (Suc (nat ?t - k - 1)) const (pri_to_cpu cp) k allowed lm" for lm
      using find_reach [OF L assms(2), of 0 k "Suc (nat ?t - k - 1)" const lm] below k(1) t len run [of lm] by simp
    have lev: "int k \<le> ?pris ! c" if c: "c \<in> B" for c
    proof -
      obtain i where i: "c \<in> ?A \<inter> ?L i" using B c by blast
      then have "\<not> i < k" using below [of i] by blast
      then show ?thesis using i by (simp add: at_level_def)
    qed
    obtain c0 where c0: "c0 \<in> B" "?pris ! c0 = int k" using k B by (auto simp: at_level_def)
    have "c \<in> ?A \<inter> ?L k" if "c \<in> B" "?pris ! c = int k" for c using that B [of c] by (auto simp: at_level_def)
    moreover have "c \<in> B \<and> ?pris ! c = int k" if "c \<in> ?A \<inter> ?L k" for c using that B [of c] k(1) by (auto simp: at_level_def)
    ultimately have "?A \<inter> ?L k = {c \<in> B. ?pris ! c = int k}" by blast
    also have "\<dots> = lowest_cpus ?pris B" using lev c0 by (fastforce simp: lowest_cpus_def)
    finally have "?A \<inter> ?L k = lowest_cpus ?pris B" .
    moreover have "k < length (pri_to_cpu cp)" using k(1) t len by simp
    note find_hit(1) [OF L assms(2) this k(2), of "nat ?t - k - 1" const]
      and find_hit(2) [OF L assms(2) this k(2) assms(3), of "nat ?t - k - 1" const]
    ultimately show ?thesis using reach False by simp
  qed
qed

subsection \<open>Initialisation and sequences of updates\<close>

lemma set_all_invalid_ok:
  "(\<forall>i\<in>set is. i < length pris) \<Longrightarrow> \<exists>p. set_all_invalid is pris = Some p \<and> length p = length pris \<and>
     (\<forall>i\<in>set is. p ! i = CPUPRI_INVALID) \<and> (\<forall>i. pris ! i = CPUPRI_INVALID \<longrightarrow> p ! i = CPUPRI_INVALID)"
proof (induction "is" arbitrary: pris)
  case (Cons i "is")
  let ?p = "pris[i := CPUPRI_INVALID]"
  obtain p where "set_all_invalid is ?p = Some p" "length p = length pris" "\<forall>i\<in>set is. p ! i = CPUPRI_INVALID"
      "\<forall>i. ?p ! i = CPUPRI_INVALID \<longrightarrow> p ! i = CPUPRI_INVALID"
    using Cons.IH [of ?p] Cons.prems by auto
  moreover have "?p ! j = CPUPRI_INVALID" if "j = i \<or> pris ! j = CPUPRI_INVALID" for j
    using that Cons.prems by (auto simp: nth_list_update)
  ultimately show ?case using Cons.prems by (auto simp: array_simps)
qed simp

lemma cpupri_init_ok:
  assumes "mask_ok (cpu_possible_mask s)" "cpus (cpu_possible_mask s) = {..<NR_CPUS}" "\<And>i. int i < CPUPRI_NR_PRIORITIES \<Longrightarrow> alloc i"
  shows "\<exists>cp. cpupri_init const s alloc True = Some (Inr cp) \<and> cpupri_ok cp \<and> cpu_to_pri cp = replicate nr_cpu_ids CPUPRI_INVALID"
proof -
  let ?z = "replicate (nat CPUPRI_NR_PRIORITIES) \<lparr>vec_count = 0, vec_mask = CPU_BITS_NONE\<rparr>" and ?inv = "replicate nr_cpu_ids CPUPRI_INVALID"
  obtain p where p: "set_all_invalid (sorted_list_of_set {..<NR_CPUS}) (replicate nr_cpu_ids 0) = Some p" "length p = nr_cpu_ids"
      "\<forall>i<NR_CPUS. p ! i = CPUPRI_INVALID"
    using set_all_invalid_ok [of "sorted_list_of_set {..<NR_CPUS}" "replicate nr_cpu_ids 0"] by (auto simp: nr_cpu_ids_def)
  then have inv: "p = ?inv" by (intro nth_equalityI) (auto simp: nr_cpu_ids_def)
  have none: "mask_ok CPU_BITS_NONE" "cpus CPU_BITS_NONE = {}"
    using static_ok by (simp_all add: online_counted_def masks_ok_def static_cpu_masks_def abs_masks_def)
  have "at_level ?inv i = {}" for i by (auto simp: at_level_def CPUPRI_INVALID_def)
  then have "cpupri_ok \<lparr>pri_to_cpu = ?z, cpu_to_pri = ?inv\<rparr>"
    using none by (auto simp: cpupri_ok_def levels_hold_def CPUPRI_NR_PRIORITIES_def CPUPRI_INVALID_def MAX_RT_PRIO_def)
  moreover have "list_all alloc [0..<nat CPUPRI_NR_PRIORITIES]" using assms(3) by (auto simp: list_all_iff)
  then have "cpupri_init const s alloc True = Some (Inr \<lparr>pri_to_cpu = ?z, cpu_to_pri = ?inv\<rparr>)"
    using assms(2) p(1) inv for_each_cpu_ok [OF assms(1), of const] by (simp add: cpupri_init_def)
  ultimately show ?thesis by simp
qed

primrec cpupri_run :: "(nat \<times> int) list \<Rightarrow> cpupri \<Rightarrow> cpupri option" where
  "cpupri_run [] cp = Some cp" |
  "cpupri_run (x # xs) cp = do { cp \<leftarrow> cpupri_set cp (fst x) (snd x); cpupri_run xs cp }"

lemma cpupri_run_ok:
  "cpupri_ok cp \<Longrightarrow> \<forall>x\<in>set xs. fst x < nr_cpu_ids \<and> CPUPRI_INVALID \<le> snd x \<Longrightarrow>
   \<exists>cp'. cpupri_run xs cp = Some cp' \<and> cpupri_ok cp' \<and>
     cpu_to_pri cp' = fold (\<lambda>x pris. pris[fst x := convert_prio (snd x)]) xs (cpu_to_pri cp)"
proof (induction xs arbitrary: cp)
  case (Cons x xs)
  then obtain cp' where "cpupri_set cp (fst x) (snd x) = Some cp'" "cpupri_ok cp'"
      "cpu_to_pri cp' = (cpu_to_pri cp)[fst x := convert_prio (snd x)]"
    using cpupri_set_ok [of cp "fst x" "snd x"] by auto
  then show ?case using Cons.IH [of cp'] Cons.prems(2) by simp
qed simp

text \<open>C11. After \<^verbatim>\<open>cpupri_init\<close> and any sequence of \<^verbatim>\<open>cpupri_set\<close>, every level's mask and count describe the CPUs
  last set to that level, and \<^verbatim>\<open>cpupri_find\<close> succeeds exactly when some allowed CPU runs below the task's
  priority; the mask it fills in holds those of them with the lowest priority, and is untouched when
  there are none. Priorities below \<^verbatim>\<open>CPUPRI_INVALID\<close> are stopped by \<^verbatim>\<open>BUG_ON\<close>, and a failed allocation is reported.\<close>

theorem cpupri_finds_lowest:
  assumes "online_counted s" "cpus (cpu_possible_mask s) = {..<NR_CPUS}" "\<forall>x\<in>set xs. fst x < nr_cpu_ids \<and> CPUPRI_INVALID \<le> snd x"
    "pris = fold (\<lambda>x pris. pris[fst x := convert_prio (snd x)]) xs (replicate nr_cpu_ids CPUPRI_INVALID)"
    "mask_ok allowed" "mask_ok m" "CPUPRI_INVALID \<le> prio" "B = candidates pris (cpus allowed) (convert_prio prio)" "q < CPUPRI_INVALID"
  shows "(\<exists>cp\<^sub>0 cp. cpupri_init const s (\<lambda>i. True) True = Some (Inr cp\<^sub>0) \<and> cpupri_run xs cp\<^sub>0 = Some cp \<and>
      cpu_to_pri cp = pris \<and> levels_hold (pri_to_cpu cp) (at_level pris) \<and>
      cpupri_find const cp prio allowed None = Some (B \<noteq> {}, None) \<and>
      (\<exists>m'. cpupri_find const cp prio allowed (Some m) = Some (B \<noteq> {}, Some m') \<and>
        (if B = {} then m' = m else cpus m' = lowest_cpus pris B)) \<and>
      (\<forall>c<nr_cpu_ids. cpupri_set cp c q = None)) \<and>
    cpupri_init const s (\<lambda>i. i \<noteq> 7) b = Some (Inl ENOMEM) \<and> cpupri_init const s (\<lambda>i. True) False = Some (Inl ENOMEM)"
proof -
  obtain cp0 where i: "cpupri_init const s (\<lambda>i. True) True = Some (Inr cp0)" "cpupri_ok cp0" "cpu_to_pri cp0 = replicate nr_cpu_ids CPUPRI_INVALID"
    using cpupri_init_ok [of s "\<lambda>i. True" const] assms(1,2) by (auto simp: online_counted_def masks_ok_def)
  obtain cp where r: "cpupri_run xs cp0 = Some cp" "cpupri_ok cp" "cpu_to_pri cp = pris"
    using cpupri_run_ok [OF i(2) assms(3)] i(3) assms(4) by auto
  have "\<forall>c<nr_cpu_ids. cpupri_set cp c q = None"
    using r(2) assms(9) by (auto simp: cpupri_set_def cpupri_ok_def array_simps Let_def convert_prio_def CPUPRI_INVALID_def
        CPUPRI_NR_PRIORITIES_def MAX_RT_PRIO_def MAX_PRIO_def bug_on_def)
  moreover have "cpupri_init const s (\<lambda>i. i \<noteq> 7) b = Some (Inl ENOMEM)" "cpupri_init const s (\<lambda>i. True) False = Some (Inl ENOMEM)"
    by (simp_all add: cpupri_init_def list_all_iff CPUPRI_NR_PRIORITIES_def MAX_RT_PRIO_def)
  moreover have "levels_hold (pri_to_cpu cp) (at_level pris)" using r(2,3) by (simp add: cpupri_ok_def)
  moreover have "cpupri_find const cp prio allowed None = Some (B \<noteq> {}, None)"
      "\<exists>m'. cpupri_find const cp prio allowed (Some m) = Some (B \<noteq> {}, Some m') \<and> (if B = {} then m' = m else cpus m' = lowest_cpus pris B)"
    using cpupri_find_ok [OF r(2) assms(5-7), of const] unfolding r(3) assms(8) [symmetric] by blast+
  ultimately show ?thesis using i(1) r(1,3) by blast
qed

theorem cpupri_finds_lowest_witness:
  "\<exists>cp\<^sub>0 cp m'. cpupri_init True static_cpu_masks (\<lambda>i. True) True = Some (Inr cp\<^sub>0) \<and>
     cpupri_run [(0, 50), (2, 120), (3, 140), (3, 99)] cp\<^sub>0 = Some cp \<and>
     cpupri_find True cp 10 [0xd] (Some [0]) = Some (True, Some m') \<and> cpus m' = {2}"
proof -
  let ?xs = "[(0, 50), (2, 120), (3, 140), (3, 99)] :: (nat \<times> int) list"
  have pris: "fold (\<lambda>x pris. pris[fst x := convert_prio (snd x)]) ?xs (replicate nr_cpu_ids CPUPRI_INVALID) = [51, - 1, 1, 2]"
    by (simp add: nr_cpu_ids_def NR_CPUS_def numeral_eq_Suc convert_prio_def CPUPRI_INVALID_def MAX_RT_PRIO_def MAX_PRIO_def
        CPUPRI_IDLE_def CPUPRI_NORMAL_def)
  have B: "candidates [51, - 1, 1, 2] (cpus [0xd]) (convert_prio 10) = {0, 2, 3}"
    by (auto simp: candidates_def sample_mask convert_prio_def CPUPRI_INVALID_def MAX_RT_PRIO_def MAX_PRIO_def)
  have low: "lowest_cpus [51, - 1, 1, 2] {0, 2, 3} = {2}" by (auto simp: lowest_cpus_def)
  have "mask_ok [0]" by (simp add: mask_ok_def fits_bits_def BITS_TO_LONGS_def BITS_PER_LONG_def NR_CPUS_def)
  moreover have "cpus (cpu_possible_mask static_cpu_masks) = {..<NR_CPUS}" using static_ok(2) by (simp add: abs_masks_def)
  moreover have "\<forall>x\<in>set ?xs. fst x < nr_cpu_ids \<and> CPUPRI_INVALID \<le> snd x"
    by (simp add: nr_cpu_ids_def NR_CPUS_def CPUPRI_INVALID_def)
  ultimately show ?thesis
    using cpupri_finds_lowest [OF static_ok(1) _ _ pris [symmetric] sample_mask(1) _ _ B [symmetric], of "[0]" "- 2" True True] low
    by (auto simp: CPUPRI_INVALID_def)
qed

end
