(* ===== verification/List_Sort.thy ===== *)
theory List_Sort
  imports Prelude
begin

section \<open>Merge sort of linked lists (lib/list_sort.c)\<close>

text \<open>
  A null-terminated list is the list of its nodes, and the \<^verbatim>\<open>prev\<close>-linked list of pending sublists is a
  list of such lists, newest first; following a null pointer is \<open>None\<close>. The comparison function of the
  caller is the argument \<open>cmp\<close>. It has no side effects here, so the calls that \<^verbatim>\<open>merge_final\<close> makes only to
  let the caller reschedule are left out. The sorted list is given by its nodes in order, each with the
  node its \<^verbatim>\<open>prev\<close> link is set to; \<open>None\<close> stands for the list head there. The number of pending elements is
  a natural number: it is at most the length of the list, so a \<^verbatim>\<open>size_t\<close> holds it.
\<close>

fun merge :: "('a \<Rightarrow> 'a \<Rightarrow> int) \<Rightarrow> 'a list \<Rightarrow> 'a list \<Rightarrow> 'a list option" where
  "merge cmp (x # a) (y # b) =
     (if cmp x y \<le> 0
      then (if a = [] then Some (x # y # b) else do { rest \<leftarrow> merge cmp a (y # b); Some (x # rest) })
      else (if b = [] then Some (y # x # a) else do { rest \<leftarrow> merge cmp (x # a) b; Some (y # rest) }))" |
  "merge cmp a b = None"

text \<open>The last loop of \<^verbatim>\<open>merge_final\<close>, which links what is left behind \<open>tail\<close>.\<close>

primrec link_rest :: "'a option \<Rightarrow> 'a list \<Rightarrow> ('a \<times> 'a option) list" where
  "link_rest tail [] = []" |
  "link_rest tail (b # bs) = (b, tail) # link_rest (Some b) bs"

fun merge_final :: "('a \<Rightarrow> 'a \<Rightarrow> int) \<Rightarrow> 'a option \<Rightarrow> 'a list \<Rightarrow> 'a list \<Rightarrow> ('a \<times> 'a option) list option" where
  "merge_final cmp tail (x # a) (y # b) =
     (if cmp x y \<le> 0
      then (if a = [] then Some ((x, tail) # link_rest (Some x) (y # b))
            else do { rest \<leftarrow> merge_final cmp (Some x) a (y # b); Some ((x, tail) # rest) })
      else (if b = [] then Some ((y, tail) # link_rest (Some y) (x # a))
            else do { rest \<leftarrow> merge_final cmp (Some y) (x # a) b; Some ((y, tail) # rest) }))" |
  "merge_final cmp tail a b = None"

text \<open>The search for the least significant clear bit of \<open>count\<close>: how many links it follows, and the
  bits that are left.\<close>

function clear_bit_walk :: "nat \<Rightarrow> nat \<times> nat" where
  "clear_bit_walk bits = (if odd bits then let (k, bits) = clear_bit_walk (bits div 2) in (Suc k, bits) else (0, bits))"
  by pat_completeness auto
termination by (relation "measure id") (auto elim: oddE)

declare clear_bit_walk.simps [simp del]

definition merge_pending :: "('a \<Rightarrow> 'a \<Rightarrow> int) \<Rightarrow> nat \<Rightarrow> 'a list list \<Rightarrow> 'a list list option" where
  "merge_pending cmp count pending = (let (k, bits) = clear_bit_walk count in do {
     bug_on (length pending < k);
     if bits \<noteq> 0 then do {
       a \<leftarrow> arr_get pending k;
       b \<leftarrow> arr_get pending (k + 1);
       a \<leftarrow> merge cmp b a;
       Some (take k pending @ a # drop (k + 2) pending)
     } else Some pending
   })"

primrec collect :: "('a \<Rightarrow> 'a \<Rightarrow> int) \<Rightarrow> 'a list \<Rightarrow> 'a list list \<Rightarrow> nat \<Rightarrow> 'a list list option" where
  "collect cmp [] pending count = Some pending" |
  "collect cmp (x # list) pending count = do {
     pending \<leftarrow> merge_pending cmp count pending;
     collect cmp list ([x] # pending) (count + 1)
   }"

fun merge_all :: "('a \<Rightarrow> 'a \<Rightarrow> int) \<Rightarrow> 'a list \<Rightarrow> 'a list list \<Rightarrow> ('a list \<times> 'a list) option" where
  "merge_all cmp list [] = None" |
  "merge_all cmp list [pending] = Some (pending, list)" |
  "merge_all cmp list (pending # next # rest) = do {
     list \<leftarrow> merge cmp pending list;
     merge_all cmp list (next # rest)
   }"

definition list_sort :: "('a \<Rightarrow> 'a \<Rightarrow> int) \<Rightarrow> 'a list \<Rightarrow> ('a \<times> 'a option) list option" where
  "list_sort cmp nodes =
     (if length nodes \<le> 1 then Some (link_rest None nodes)
      else do {
        pending \<leftarrow> collect cmp nodes [] 0;
        case pending of [] \<Rightarrow> None
        | list # pending \<Rightarrow> do {
            (pending, list) \<leftarrow> merge_all cmp list pending;
            merge_final cmp None pending list
          }
      })"

end
