(* ===== verification/List_Sort_Correct.thy ===== *)
theory List_Sort_Correct
  imports List_Sort "HOL-Library.Sorting_Algorithms"
begin

section \<open>Merge sort: sorted, stable, correctly linked\<close>

text \<open>
  The comparators of the library give the contract: \<^verbatim>\<open>list_sort\<close> computes the library's stable sort. The
  bit pattern of the element count controls which pending lists are merged; that the merges stay inside
  the list of pending lists rests on the number of pending lists being the bit length of the count.
\<close>

subsection \<open>The number of pending lists\<close>

fun bit_length :: "nat \<Rightarrow> nat" where
  "bit_length n = (if n = 0 then 0 else Suc (bit_length (n div 2)))"

declare bit_length.simps [simp del]

lemma bit_length_simps [simp]: "bit_length 0 = 0" "0 < n \<Longrightarrow> bit_length n = Suc (bit_length (n div 2))"
  by (simp_all add: bit_length.simps [of n] bit_length.simps [of 0])

lemma bit_length_two: "2 \<le> n \<Longrightarrow> 2 \<le> bit_length n"
proof -
  assume "2 \<le> n"
  then have "0 < n" "0 < n div 2" by auto
  then have "bit_length n = Suc (Suc (bit_length (n div 2 div 2)))" by (simp only: bit_length_simps(2))
  then show ?thesis by simp
qed

lemma walk_bit_length:
  "clear_bit_walk n = (k, bits) \<Longrightarrow> k \<le> bit_length n \<and> (bits \<noteq> 0 \<longrightarrow> k + 2 \<le> bit_length n) \<and>
     bit_length (n + 1) = (if bits = 0 then Suc (bit_length n) else bit_length n)"
proof (induction n arbitrary: k bits rule: clear_bit_walk.induct)
  case (1 n)
  show ?case
  proof (cases "odd n")
    case True
    then obtain q where q: "n = 2 * q + 1" by (auto elim: oddE)
    obtain k' where "clear_bit_walk q = (k', bits)" "k = Suc k'"
      using "1.prems" True q by (subst (asm) clear_bit_walk.simps) (auto split: prod.splits)
    then show ?thesis using "1.IH" [OF True, of k' bits] q by simp
  next
    case False
    then obtain q where q: "n = 2 * q" by (auto elim: evenE)
    have "k = 0" "bits = n" using "1.prems" False by (subst (asm) clear_bit_walk.simps, simp)+
    then show ?thesis using q by (cases "q = 0") simp_all
  qed
qed

subsection \<open>Merging\<close>

text \<open>The contract of the caller's comparison function: it is positive exactly where the first element
  sorts after the second.\<close>

definition agrees :: "('a \<Rightarrow> 'a \<Rightarrow> int) \<Rightarrow> 'a comparator \<Rightarrow> bool" where
  "agrees cmp C \<longleftrightarrow> (\<forall>a b. cmp a b \<le> 0 \<longleftrightarrow> compare C a b \<noteq> Greater)"

abbreviation stable_sort_of :: "'a comparator \<Rightarrow> 'a list \<Rightarrow> 'a list" where
  "stable_sort_of \<equiv> Sorting_Algorithms.sort"

lemma merge_ok: "agrees cmp C \<Longrightarrow> a \<noteq> [] \<Longrightarrow> b \<noteq> [] \<Longrightarrow> List_Sort.merge cmp a b = Some (Sorting_Algorithms.merge C a b)"
proof (induction "length a + length b" arbitrary: a b rule: less_induct)
  case less
  then obtain x a' y b' where ab: "a = x # a'" "b = y # b'" by (metis list.exhaust)
  have "a' \<noteq> [] \<Longrightarrow> List_Sort.merge cmp a' b = Some (Sorting_Algorithms.merge C a' b)"
      "b' \<noteq> [] \<Longrightarrow> List_Sort.merge cmp a b' = Some (Sorting_Algorithms.merge C a b')"
    using less by (auto simp: ab)
  then show ?case using less.prems(1) by (auto simp: ab agrees_def)
qed

lemma merge_final_ok: "agrees cmp C \<Longrightarrow> a \<noteq> [] \<Longrightarrow> b \<noteq> [] \<Longrightarrow> merge_final cmp tail a b = Some (link_rest tail (Sorting_Algorithms.merge C a b))"
proof (induction "length a + length b" arbitrary: a b tail rule: less_induct)
  case less
  then obtain x a' y b' where ab: "a = x # a'" "b = y # b'" by (metis list.exhaust)
  have "a' \<noteq> [] \<Longrightarrow> merge_final cmp (Some x) a' b = Some (link_rest (Some x) (Sorting_Algorithms.merge C a' b))"
      "b' \<noteq> [] \<Longrightarrow> merge_final cmp (Some y) a b' = Some (link_rest (Some y) (Sorting_Algorithms.merge C a b'))"
    using less by (auto simp: ab)
  then show ?case using less.prems(1) by (auto simp: ab agrees_def)
qed

lemma sort_append:
  "Sorting_Algorithms.merge C (stable_sort_of C xs) (stable_sort_of C ys) = stable_sort_of C (xs @ ys)"
proof (rule sort_eqI [symmetric])
  let ?m = "Sorting_Algorithms.merge C (stable_sort_of C xs) (stable_sort_of C ys)"
  show "mset (xs @ ys) = mset ?m" by (simp add: mset_merge)
  show "Sorting_Algorithms.sorted C ?m" by (simp add: sorted_merge)
  show "stable_segment C l (xs @ ys) = stable_segment C l ?m" for l
    by (simp add: filter_merge stable_sort merge_stable_segments)
qed

lemma sort_empty_iff [simp]: "stable_sort_of C xs = [] \<longleftrightarrow> xs = []"
  by (metis mset_sort mset_zero_iff)

subsection \<open>The pending lists\<close>

text \<open>\<open>segs\<close> are the segments of the input, newest first, whose sorted versions are pending.\<close>

lemma merge_sorted: "agrees cmp C \<Longrightarrow> xs \<noteq> [] \<Longrightarrow> ys \<noteq> [] \<Longrightarrow>
    List_Sort.merge cmp (stable_sort_of C xs) (stable_sort_of C ys) = Some (stable_sort_of C (xs @ ys))"
  by (simp add: merge_ok sort_append)

lemma merge_pending_ok:
  assumes "agrees cmp C" "\<forall>s\<in>set segs. s \<noteq> []" "length segs = bit_length n"
  shows "\<exists>segs'. merge_pending cmp n (map (stable_sort_of C) segs) = Some (map (stable_sort_of C) segs') \<and>
    concat (rev segs') = concat (rev segs) \<and> (\<forall>s\<in>set segs'. s \<noteq> []) \<and> Suc (length segs') = bit_length (n + 1)"
proof -
  obtain k bits where w: "clear_bit_walk n = (k, bits)" by fastforce
  note b = walk_bit_length [OF w]
  show ?thesis
  proof (cases "bits = 0")
    case True
    then show ?thesis using assms w b by (intro exI [of _ segs]) (simp add: merge_pending_def)
  next
    case False
    then have k: "k + 1 < length segs" using b assms(3) by simp
    define old new where "old = segs ! (k + 1)" and "new = segs ! k"
    have split: "segs = take k segs @ new # old # drop (k + 2) segs"
      using k unfolding old_def new_def by (metis Cons_nth_drop_Suc Suc_eq_plus1 Suc_lessD add_2_eq_Suc' append_take_drop_id)
    have ne: "old \<noteq> []" "new \<noteq> []" using assms(2) k by (auto simp: old_def new_def)
    let ?segs = "take k segs @ (old @ new) # drop (k + 2) segs"
    have "merge_pending cmp n (map (stable_sort_of C) segs) = Some (map (stable_sort_of C) ?segs)"
      using w False k merge_sorted [OF assms(1) ne]
      by (simp add: merge_pending_def array_simps take_map drop_map old_def new_def)
    moreover have "concat (rev ?segs) = concat (rev segs)" by (subst split) simp
    moreover have "\<forall>s\<in>set ?segs. s \<noteq> []" using assms(2) ne by (auto dest: in_set_takeD in_set_dropD)
    moreover have "Suc (length ?segs) = bit_length (n + 1)" using k b assms(3) False by simp
    ultimately show ?thesis by blast
  qed
qed

lemma collect_ok:
  "agrees cmp C \<Longrightarrow> \<forall>s\<in>set segs. s \<noteq> [] \<Longrightarrow> length segs = bit_length n \<Longrightarrow>
   \<exists>segs'. collect cmp xs (map (stable_sort_of C) segs) n = Some (map (stable_sort_of C) segs') \<and>
     concat (rev segs') = concat (rev segs) @ xs \<and> (\<forall>s\<in>set segs'. s \<noteq> []) \<and> length segs' = bit_length (n + length xs)"
proof (induction xs arbitrary: segs n)
  case (Cons x xs)
  obtain segs' where p: "merge_pending cmp n (map (stable_sort_of C) segs) = Some (map (stable_sort_of C) segs')"
      "concat (rev segs') = concat (rev segs)" "\<forall>s\<in>set segs'. s \<noteq> []" "Suc (length segs') = bit_length (n + 1)"
    using merge_pending_ok [OF Cons.prems] by blast
  have "[x] # map (stable_sort_of C) segs' = map (stable_sort_of C) ([x] # segs')" by simp
  then show ?case using Cons.IH [of "[x] # segs'" "n + 1"] Cons.prems(1) p by auto
qed auto

lemma merge_all_ok:
  "agrees cmp C \<Longrightarrow> s \<noteq> [] \<Longrightarrow> segs \<noteq> [] \<Longrightarrow> \<forall>s\<in>set segs. s \<noteq> [] \<Longrightarrow>
   \<exists>p l. merge_all cmp (stable_sort_of C s) (map (stable_sort_of C) segs)
       = Some (stable_sort_of C p, stable_sort_of C l) \<and> p @ l = concat (rev segs) @ s \<and> p \<noteq> [] \<and> l \<noteq> []"
proof (induction segs arbitrary: s)
  case (Cons seg segs)
  show ?case
  proof (cases segs)
    case Nil
    then show ?thesis using Cons.prems by auto
  next
    case (Cons seg' segs')
    then show ?thesis using Cons.IH [of "seg @ s"] Cons.prems merge_sorted [of cmp C seg s] by auto
  qed
qed simp

lemma list_sort_ok:
  assumes "agrees cmp C"
  shows "list_sort cmp xs = Some (link_rest None (stable_sort_of C xs))"
proof (cases "length xs \<le> 1")
  case True
  then have "stable_sort_of C xs = xs" by (cases xs) auto
  then show ?thesis using True by (simp add: list_sort_def)
next
  case False
  obtain segs where c: "collect cmp xs [] 0 = Some (map (stable_sort_of C) segs)" "concat (rev segs) = xs"
      "\<forall>s\<in>set segs. s \<noteq> []" "length segs = bit_length (length xs)"
    using collect_ok [OF assms, of "[]" 0 xs] by auto
  have "2 \<le> length xs" using False by simp
  then have "2 \<le> bit_length (length xs)" by (rule bit_length_two)
  then obtain s t segs' where segs: "segs = s # t # segs'" using c(4) by (metis length_Cons list.exhaust list.size(3) not_less_eq_eq numeral_2_eq_2 zero_le Suc_n_not_le_n)
  obtain p l where m: "merge_all cmp (stable_sort_of C s) (map (stable_sort_of C) (t # segs'))
       = Some (stable_sort_of C p, stable_sort_of C l)" "p @ l = concat (rev (t # segs')) @ s" "p \<noteq> []" "l \<noteq> []"
    using merge_all_ok [OF assms, of s "t # segs'"] c(3) segs by auto
  have "p @ l = xs" using m(2) c(2) segs by simp
  then show ?thesis using False c(1) segs m merge_final_ok [OF assms, of "stable_sort_of C p" "stable_sort_of C l" None]
    by (simp add: list_sort_def sort_append)
qed

subsection \<open>Properties\<close>

lemma link_rest_zip: "link_rest tail ys = zip ys (tail # map Some ys)"
  by (induction ys arbitrary: tail) auto

text \<open>C8. For every comparison function that agrees with a comparator, \<^verbatim>\<open>list_sort\<close> never follows a null pointer
  and returns a permutation of the nodes that is sorted and stable: nodes that compare as equivalent
  keep their order. Every node's \<^verbatim>\<open>prev\<close> link is the node before it, and the first node's is the head.\<close>

theorem list_sort_correct:
  assumes "agrees cmp C"
  shows "\<exists>ys. list_sort cmp xs = Some (zip ys (None # map Some ys)) \<and> mset ys = mset xs \<and>
    Sorting_Algorithms.sorted C ys \<and>
    (\<forall>x. filter (\<lambda>y. compare C x y = Equiv) ys = filter (\<lambda>y. compare C x y = Equiv) xs)"
  using list_sort_ok [OF assms, of xs] by (auto simp: link_rest_zip stable_sort intro!: exI [of _ "stable_sort_of C xs"])

theorem list_sort_correct_witness:
  "\<exists>ys. list_sort (\<lambda>a b. int (fst a) - int (fst b)) [(2 :: nat, 0 :: nat), (1, 1), (2, 2)] = Some (zip ys (None # map Some ys)) \<and>
     filter (\<lambda>y. fst y = 2) ys = [(2, 0), (2, 2)]"
proof -
  let ?cmp = "\<lambda>a b. int (fst a) - int (fst b :: nat)" and ?C = "key fst default :: (nat \<times> nat) comparator"
  have "agrees ?cmp ?C" by (auto simp: agrees_def not_less)
  from list_sort_correct [OF this, of "[(2, 0), (1, 1), (2, 2)]"] obtain ys where
    "list_sort ?cmp [(2, 0), (1, 1), (2, 2)] = Some (zip ys (None # map Some ys))"
    "filter (\<lambda>y. compare ?C (2, 0) y = Equiv) ys = filter (\<lambda>y. compare ?C (2, 0) y = Equiv) [(2, 0), (1, 1), (2, 2)]" by blast
  moreover have "(\<lambda>y :: nat \<times> nat. compare ?C (2, 0) y = Equiv) = (\<lambda>y. fst y = 2)" by (auto simp: fun_eq_iff)
  ultimately show ?thesis by auto
qed

end
