(* ===== verification/Spec2Isabelle.thy ===== *)
theory Spec2Isabelle
  imports Memblock_Free_Correct Bitmap_Props Vsprintf_Correct Hex_Roundtrip Cpudeadline_Correct Cpupri_Correct List_Sort_Correct
begin

section \<open>Verification of the kernel library code\<close>

text \<open>
  The repository compiles parts of the Linux kernel as a user-space program so that they can be run
  and traced from test menus (\<^verbatim>\<open>src/test\<close>). This development models code of \<^verbatim>\<open>src/mm\<close>, \<^verbatim>\<open>src/lib\<close>,
  \<^verbatim>\<open>src/kernel\<close> and the headers they use, and proves what it computes. It is a shallow embedding: every
  function of the source is a function of the logic with the same name, a \<^verbatim>\<open>struct\<close> is a record, memory
  that a function changes is passed in and returned. Machine integers are words of their width where
  overflow can matter. A result of type \<open>'a option\<close> is \<open>None\<close> where the code would reach \<^verbatim>\<open>BUG_ON\<close>, leave an array,
  follow a null pointer or exceed a bound of the model; so a theorem that concludes \<open>Some\<close> excludes all of these.
  Error codes are values of a sum type or negative numbers, as the caller sees them.

  The configuration is that of the repository: physical addresses of 32 bits in memblock, words of 64 bits,
  4 CPUs and 4 nodes, SMP, NUMA and hotplug compiled in, debug checks of CPU numbers compiled out.

  \<^bold>\<open>Shared theories.\<close> \<open>Prelude\<close> has checked array access, \<^verbatim>\<open>memmove\<close> and \<^verbatim>\<open>BUG_ON\<close>; \<open>Word_Facts\<close> the
  conversions between words of different widths; \<open>Heap_Order\<close> sifting in array heaps for any keyed order.

  \<^bold>\<open>Boot memory (\<^verbatim>\<open>mm/memblock.c\<close>, \<^verbatim>\<open>include/linux/memblock.h\<close>).\<close>
  \<^item> \<open>Memblock_Table\<close>: a table of regions (\<^verbatim>\<open>struct memblock_type\<close>) and inserting, removing and merging in it.
  \<^item> \<open>Memblock_Iter\<close>: the iterators over the difference of two tables (\<^verbatim>\<open>__next_mem_range\<close> and its reverse).
  \<^item> \<open>Memblock\<close>: \<^verbatim>\<open>struct memblock\<close> and the operations on it: adding, isolating and removing ranges, growing a
    table, flags and nodes, finding and allocating blocks, limits, queries, trimming.
  \<^item> \<open>Memblock_Free\<close>: the inline wrappers and the release of the free pages at the end of boot.
  A table represents a partial map from addresses to attributes. The theories \<open>Memblock_Table_Correct\<close>,
  \<open>Memblock_Iter_Correct\<close>, \<open>Memblock_Isolate\<close>, \<open>Memblock_Correct\<close>, \<open>Memblock_Find\<close>, \<open>Memblock_Alloc\<close>,
  \<open>Memblock_Limit\<close> and \<open>Memblock_Free_Correct\<close> show that every operation keeps the table sorted, disjoint and
  merged and updates the map; that the iterators end and visit the maximal free pieces; that
  the search returns the highest (lowest) aligned free block where there is one; that an allocation is
  aligned, inside memory, free before and reserved after; and that the released blocks tile the free pages. The
  properties are in \<open>Memblock_Props\<close>. The locale \<open>range_store\<close> is the contract between the tables and the
  allocator, \<open>range_iteration\<close> that of the two iterators; both are interpreted on the definitions of the model.

  \<^bold>\<open>Bits and bitmaps (\<^verbatim>\<open>lib/bitmap.c\<close>, \<^verbatim>\<open>lib/find_bit.c\<close>, \<^verbatim>\<open>lib/hweight.c\<close>, \<^verbatim>\<open>include/asm-generic/bitops\<close>, \<^verbatim>\<open>include/linux/bitmap.h\<close>).\<close>
  \<open>Bitops\<close> has the bit searches, population counts, logarithms and rotations, \<open>Bitmap\<close> the bitmaps as arrays of
  words. \<open>Bitops_Correct\<close> shows that the searches find the lowest and highest bit, that the parallel
  counts equal counting bit by bit, and that the rotations are inverse. \<open>Bitmap_Correct\<close>, \<open>Bitmap_Sets\<close> and
  \<open>Bitmap_Props\<close> show that a bitmap of \<open>n\<close> bits is a set of numbers below \<open>n\<close> and every operation the set
  operation, on the path for small constants and on the general one. The locale \<open>bit_iteration\<close> is the loop
  over the members; its interpretations are the three search functions.

  \<^bold>\<open>Text (\<^verbatim>\<open>lib/ctype.c\<close>, \<^verbatim>\<open>lib/kstrtox.c\<close>, \<^verbatim>\<open>lib/vsprintf.c\<close>, \<^verbatim>\<open>lib/hexdump.c\<close>, \<^verbatim>\<open>lib/uuid.c\<close>).\<close>
  \<open>Ctype\<close>, \<open>Kstrtox\<close>, \<open>Vsprintf\<close> and \<open>Hexdump\<close> are the models. \<open>Kstrtox_Correct\<close> shows that
  the conversions return the number the text denotes or the right error for every terminated text;
  \<open>Vsprintf_Correct\<close> that \<^verbatim>\<open>num_to_str\<close> writes the decimal numeral, although it divides by multiplying, and that
  \<^verbatim>\<open>kstrtoull\<close> reads it back; \<open>Hexdump_Correct\<close> and \<open>Hex_Roundtrip\<close> what a line of a hex dump is and that it is
  cut to the buffer, the round trips of the hexadecimal and UUID conversions, and the type of generated UUIDs.

  \<^bold>\<open>CPUs (\<^verbatim>\<open>lib/cpumask.c\<close>, \<^verbatim>\<open>include/linux/cpumask.h\<close>, \<^verbatim>\<open>kernel/cpu.c\<close>).\<close>
  \<open>Cpumask\<close> has the masks on top of \<open>Bitmap\<close>, the loop macros and the system masks. \<open>Cpumask_Correct\<close> shows which
  CPUs the loops visit and that the cyclic loop ends; \<open>Cpu_State\<close> that every sequence of mask updates refines
  the updates of sets and keeps the online count, and that \<^verbatim>\<open>cpumask_local_spread\<close> enumerates the online CPUs.

  \<^bold>\<open>Selection of CPUs (\<^verbatim>\<open>kernel/sched/cpudeadline.c\<close>, \<^verbatim>\<open>kernel/sched/cpupri.c\<close>).\<close>
  \<open>Cpudeadline\<close> is the heap of deadlines with the index of every CPU in it, \<open>Cpupri\<close> the levels of
  priorities; both use the masks. \<open>Cpudeadline_Correct\<close> shows that the heap loops, which move a hole, are sifting
  by exchanges (locale \<open>keyed_order\<close>, interpreted on the order of deadlines), that the structure refines a map
  from CPUs to deadlines, and what \<^verbatim>\<open>cpudl_find\<close> returns. \<open>Cpupri_Correct\<close> composes initialisation, any
  sequence of updates and the search.

  \<^bold>\<open>Sorting (\<^verbatim>\<open>lib/list_sort.c\<close>).\<close>
  \<open>List_Sort\<close> is the bottom-up merge sort controlled by the bits of the element count. \<open>List_Sort_Correct\<close> shows
  that it equals the stable sort of the library for every comparator and restores the back links.

  \<^bold>\<open>Bounds.\<close> Loops whose end is not structural have a bound, and the theorems conclude that it suffices. The
  iterations over memblock tables get the sizes of both tables plus one (\<open>range_fuel\<close>), since each round moves one index on;
  the mutual recursion of growing a table while adding a range is bounded by 64 (\<open>resize_fuel\<close>): each level doubles
  a table of at least 128 entries of a 32-bit space. The jump back in \<^verbatim>\<open>cpumask_next_wrap\<close> happens at most once
  (bound 2); a mask loop visits at most \<^verbatim>\<open>NR_CPUS\<close> members; sifting down ends within the size of the heap, sifting up
  within the index it starts from.

  \<^bold>\<open>Parameters.\<close> Code outside the repository is an argument: the results of the C library's allocator (in
  \<^verbatim>\<open>memblock_alloc_internal\<close>, \<^verbatim>\<open>cpudl_init\<close>, \<^verbatim>\<open>cpupri_init\<close>), \<^verbatim>\<open>copy_from_user\<close>, the comparison function of
  \<^verbatim>\<open>list_sort\<close>, the masks of the NUMA nodes. Whether the compiler sees a constant size in a bitmap operation is an
  argument too, and the theorems hold for both cases.

  \<^bold>\<open>Not modelled.\<close> The scheduler classes, work queues, kernel threads, RCU and the hotplug state machine are about
  threads that share structures under locks, and read per-CPU and global state in every function; the device model,
  maple tree, xarray, radix tree and red-black tree link nodes through encoded pointers and call back into their
  users. A faithful model of these needs a store of typed, aliased nodes and an interleaving semantics that this
  library does not have. The trace event parser is a tool library that the kernel code does not use. Print
  and debug functions only write output. Of the modelled files these parts are missing: variable-argument
  printing, which forwards to the C library; mask operations whose bitmap routine is not in the sources;
  \<^verbatim>\<open>memblock_discard\<close>, which is not compiled; and the functions that only free memory.
\<close>

end
